(* ===== verification/Photon_Prelude.thy ===== *)
theory Photon_Prelude
  imports Main "HOL-Library.Word" "HOL-Library.Monad_Syntax"
begin

text \<open>
  Shared vocabulary of the Photon Ring development: the machine integers of the C sources,
  the kernel's error codes, C strings and byte buffers, the little-endian encoding of integers
  in packed structs, decimal formatting (\<open>%llu\<close>, \<open>%d\<close>) and the index arithmetic of circular
  buffers.  The generic lemmas are declared into three collections: \<open>bytes_simps\<close> (buffers and
  encodings), \<open>ring_simps\<close> (circular buffers) and \<open>photon_defs\<close> (constants and helpers that
  the component proofs unfold).
\<close>

named_theorems photon_defs \<open>constants and one-line helpers unfolded in component proofs\<close>
named_theorems bytes_simps \<open>lengths and decodings of byte buffers\<close>
named_theorems ring_simps \<open>index arithmetic of circular buffers\<close>

section \<open>Machine integers and error codes\<close>

type_synonym u8 = "8 word"
type_synonym u16 = "16 word"
type_synonym u32 = "32 word"
type_synonym u64 = "64 word"

text \<open>\<open>unsigned long\<close> and \<open>size_t\<close> on the two supported targets (x86_64 and ARM64).\<close>

type_synonym ulong = "64 word"
type_synonym bytes = "8 word list"

text \<open>
  The error codes the sources return, and one constructor for a code that a kernel function
  hands through.  A C function that returns \<open>int\<close> with 0 for success is a value of
  \<open>errno + unit\<close>; one that also produces data is a value of \<open>errno + 'a\<close>.
\<close>

datatype errno =
    EPERM | ENOENT | EINTR | EIO | ENOMEM | EFAULT | EBUSY | EEXIST | ENODEV
  | EINVAL | ENOTTY | ENOSPC | EMSGSIZE | ENOKEY | KernelErr nat

type_synonym 'a kresult = "errno + 'a"

abbreviation ok :: "unit kresult" where
  "ok \<equiv> Inr ()"

definition failed :: "'a kresult \<Rightarrow> bool" where
  "failed r = (case r of Inl _ \<Rightarrow> True | Inr _ \<Rightarrow> False)"

lemma failed_simps [simp]: "failed (Inl e) = True" "failed (Inr v) = False"
  by (simp_all add: failed_def)

lemma not_failed_unit: "\<not> failed (r :: unit kresult) \<longleftrightarrow> r = ok"
  by (cases r) auto

section \<open>Byte buffers\<close>

definition zeros :: "nat \<Rightarrow> bytes" where
  "zeros n = replicate n 0"

text \<open>\<open>memcpy(dst, src, n)\<close> into the start of the buffer \<open>dst\<close>; the tail of \<open>dst\<close> stays.\<close>

definition memcpy :: "bytes \<Rightarrow> bytes \<Rightarrow> nat \<Rightarrow> bytes" where
  "memcpy dst src n = take n src @ drop n dst"

text \<open>\<open>memzero_explicit(dst, n)\<close>.\<close>

definition memzero :: "bytes \<Rightarrow> nat \<Rightarrow> bytes" where
  "memzero dst n = zeros (min n (length dst)) @ drop n dst"

lemma length_zeros [simp, bytes_simps]: "length (zeros n) = n"
  by (simp add: zeros_def)

lemma length_memcpy [bytes_simps]:
  "n \<le> length src \<Longrightarrow> n \<le> length dst \<Longrightarrow> length (memcpy dst src n) = length dst"
  by (simp add: memcpy_def)

lemma length_memzero [simp, bytes_simps]: "length (memzero dst n) = length dst"
  by (simp add: memzero_def)

lemma take_memcpy [bytes_simps]:
  "n \<le> length src \<Longrightarrow> take n (memcpy dst src n) = take n src"
  by (simp add: memcpy_def)

lemma memcpy_all [bytes_simps]:
  "length src = n \<Longrightarrow> length dst = n \<Longrightarrow> memcpy dst src n = src"
  by (simp add: memcpy_def)

text \<open>
  C strings.  A value of type \<open>string\<close> is what a \<open>char *\<close> points to; C sees it up to the
  first NUL.  \<open>strncpy_field sz s\<close> is a \<open>char[sz]\<close> member that was zeroed and then filled
  by \<open>strncpy(field, s, sz - 1)\<close>.
\<close>

definition cstr :: "string \<Rightarrow> string" where
  "cstr s = takeWhile (\<lambda>c. c \<noteq> CHR 0x00) s"

definition char_bytes :: "string \<Rightarrow> bytes" where
  "char_bytes s = map of_char s"

definition strncpy_field :: "nat \<Rightarrow> string \<Rightarrow> bytes" where
  "strncpy_field sz s =
     (let b = take (sz - 1) (char_bytes (cstr s)) in b @ zeros (sz - length b))"

lemma length_char_bytes [simp, bytes_simps]: "length (char_bytes s) = length s"
  by (simp add: char_bytes_def)

lemma length_strncpy_field [simp, bytes_simps]: "length (strncpy_field sz s) = sz"
  by (auto simp: strncpy_field_def Let_def)

lemma strncpy_field_terminated:
  "0 < sz \<Longrightarrow> strncpy_field sz s ! (sz - 1) = 0"
  by (auto simp: strncpy_field_def Let_def nth_append zeros_def)

section \<open>Little-endian integers\<close>

fun le_bytes :: "nat \<Rightarrow> nat \<Rightarrow> bytes" where
  "le_bytes 0 x = []"
| "le_bytes (Suc n) x = of_nat (x mod 256) # le_bytes n (x div 256)"

fun le_nat :: "bytes \<Rightarrow> nat" where
  "le_nat [] = 0"
| "le_nat (b # bs) = unat b + 256 * le_nat bs"

lemma length_le_bytes [simp, bytes_simps]: "length (le_bytes n x) = n"
  by (induction n arbitrary: x) auto

lemma unat_of_nat_byte [simp]: "unat (of_nat (x mod 256) :: u8) = x mod 256"
  by (simp add: unat_of_nat)

lemma le_nat_le_bytes: "le_nat (le_bytes n x) = x mod 256 ^ n"
proof (induction n arbitrary: x)
  case 0
  show ?case by simp
next
  case (Suc n)
  have "x mod (256 * 256 ^ n) = 256 * (x div 256 mod 256 ^ n) + x mod 256"
    by (rule mod_mult2_eq)
  with Suc show ?case by (simp add: algebra_simps)
qed

lemma le_nat_bound: "le_nat bs < 256 ^ length bs"
proof (induction bs)
  case (Cons b bs)
  have "unat b < 256" using unsigned_less [of b] by simp
  with Cons show ?case by simp
qed simp

lemma le_bytes_le_nat: "le_bytes (length bs) (le_nat bs) = bs"
proof (induction bs)
  case (Cons b bs)
  have b: "unat b < 256" using unsigned_less [of b] by simp
  then have "(unat b + 256 * le_nat bs) mod 256 = unat b"
    and "(unat b + 256 * le_nat bs) div 256 = le_nat bs" by simp_all
  with Cons show ?case by simp
qed simp

definition le_word :: "nat \<Rightarrow> 'a::len word \<Rightarrow> bytes" where
  "le_word n w = le_bytes n (unat w)"

definition word_of_le :: "bytes \<Rightarrow> 'a::len word" where
  "word_of_le bs = of_nat (le_nat bs)"

lemma length_le_word [simp, bytes_simps]: "length (le_word n w) = n"
  by (simp add: le_word_def)

lemma le_nat_le_word:
  fixes w :: "'a::len word"
  assumes "LENGTH('a) \<le> 8 * n"
  shows "le_nat (le_word n w) = unat w"
proof -
  have "unat w < 2 ^ LENGTH('a)" by (rule unsigned_less)
  also have "(2::nat) ^ LENGTH('a) \<le> 2 ^ (8 * n)" using assms by simp
  also have "(2::nat) ^ (8 * n) = 256 ^ n" by (simp add: power_mult)
  finally show ?thesis by (simp add: le_word_def le_nat_le_bytes)
qed

lemma word_of_le_le_word:
  fixes w :: "'a::len word"
  shows "LENGTH('a) \<le> 8 * n \<Longrightarrow> word_of_le (le_word n w) = w"
  by (simp add: word_of_le_def le_nat_le_word)

lemma le_nat_le_word_u16 [simp, bytes_simps]: "le_nat (le_word 2 (w :: u16)) = unat w"
  by (rule le_nat_le_word) simp

lemma le_nat_le_word_u32 [simp, bytes_simps]: "le_nat (le_word 4 (w :: u32)) = unat w"
  by (rule le_nat_le_word) simp

lemma le_nat_le_word_u64 [simp, bytes_simps]: "le_nat (le_word 8 (w :: u64)) = unat w"
  by (rule le_nat_le_word) simp

section \<open>Decimal formatting\<close>

fun dec_digits :: "nat \<Rightarrow> string" where
  "dec_digits n =
     (if n < 10 then [char_of (48 + n)]
      else dec_digits (n div 10) @ [char_of (48 + n mod 10)])"

declare dec_digits.simps [simp del]

lemma dec_digits_nonempty: "dec_digits n \<noteq> []"
  by (subst dec_digits.simps) simp

lemma length_dec_digits: "0 < k \<Longrightarrow> n < 10 ^ k \<Longrightarrow> length (dec_digits n) \<le> k"
proof (induction n arbitrary: k rule: dec_digits.induct)
  case (1 n)
  show ?case
  proof (cases "n < 10")
    case True
    with "1.prems"(1) show ?thesis by (simp add: dec_digits.simps [of n])
  next
    case False
    obtain j where k: "k = Suc j" using "1.prems"(1) by (cases k) auto
    have "0 < j" using False "1.prems"(2) k by (cases j) auto
    moreover have "n div 10 < 10 ^ j" using "1.prems"(2) k by (simp add: less_mult_imp_div_less)
    ultimately have "length (dec_digits (n div 10)) \<le> j" using "1.IH" False by blast
    with False k show ?thesis by (simp add: dec_digits.simps [of n])
  qed
qed

text \<open>\<open>%llu\<close> of a \<open>u64\<close> prints at most 20 digits.\<close>

lemma length_dec_digits_u64: "length (dec_digits (unat (w :: u64))) \<le> 20"
proof (rule length_dec_digits)
  have "unat w < 2 ^ 64" using unsigned_less [of w] by simp
  then show "unat w < 10 ^ 20" by simp
qed simp

end
