(* ===== verification/Trace_Kernel.thy ===== *)
theory Trace_Kernel
  imports Photon_Prelude
begin

text \<open>
  What the detectors rely on: the kernel's ftrace, kprobe, kretprobe and delayed-work interfaces
  and its symbol table (the parameter \<open>E\<close>), the state of the detectors, and the contract a
  detector has with \<open>main.c\<close> as the locale \<open>detector\<close>.

  The results of kernel calls that can fail are indexed by a call counter, as in \<open>Kernel_Env\<close>.
  The field \<open>live\<close> is what the kernel holds for the module: the ftrace ops that are registered, the
  probes that are armed, the work items that are scheduled.
\<close>

section \<open>Hooks and state\<close>

text \<open>The static \<open>ftrace_ops\<close>, \<open>kprobe\<close>, \<open>kretprobe\<close> and \<open>delayed_work\<close> objects of the sources.\<close>

datatype hook =
    OPS_KPROBE | OPS_KALLSYMS | OPS_KRETPROBE | OPS_KPROBES_BATCH | OPS_COMMIT_CREDS
  | KP_SET_FILTER | KP_SET_NOTRACE | KP_MODIFY_DIRECT
  | KP_BPF | KP_TCP | KP_ICMP
  | OPS_KTHREAD | WORK_TAINT_CHECK | WORK_THREAD_SCAN
  | OPS_TRACE_PID | KP_CHDIR | OPS_READLINK | KP_WRITE | KP_DMESG
  | OPS_VPRINTK | OPS_UMH | RP_FILP_OPEN
  | OPS_NETLINK_UNICAST | OPS_AUDIT_LOG_START | OPS_AUDIT_LOG_END | OPS_AUDIT_SYSCALL_ENTRY
  | OPS_STAT_DI | OPS_STAT_SI | OPS_GETPRIORITY | OPS_GETDENTS | OPS_GETDENTS64

record tenv =
  t_set_filter_ip :: "nat \<Rightarrow> unit kresult"
  t_set_filter :: "nat \<Rightarrow> unit kresult"
  t_register_ftrace :: "nat \<Rightarrow> unit kresult"
  t_register_kprobe :: "nat \<Rightarrow> ulong kresult"
  t_register_kretprobe :: "nat \<Rightarrow> unit kresult"
  t_exported :: "string \<Rightarrow> ulong"
  t_kallsyms_lookup :: "string \<Rightarrow> ulong"
  t_symbol :: "ulong \<Rightarrow> string"
  t_within_module :: "ulong \<Rightarrow> bool"
  t_stack_trace :: "nat \<Rightarrow> string"
  t_tainted_mask :: "nat \<Rightarrow> ulong"
  t_jiffies :: "nat \<Rightarrow> ulong"
  t_ksym_name_len :: nat

text \<open>The counters of the audit detector and the time of its last statistics line.\<close>

record audit_state =
  audit_unicast_calls :: "32 word"
  audit_log_calls :: "32 word"
  last_stats_print :: ulong

record tstate =
  tick :: nat
  live :: "hook set"
  filters :: "hook \<Rightarrow> ulong set"
  g_kallsyms_addr :: ulong
  tcp_hiding_addrs :: "ulong list"
  icmp_hook_addrs :: "ulong list"
  bpf_self_hooking :: bool
  tcp_self_hooking :: bool
  icmp_self_hooking :: bool
  kp_addr :: "hook \<Rightarrow> ulong"
  photon_kallsyms_lookup :: ulong
  kthread_hook_active :: bool
  tainted_mask_ptr :: ulong
  taint_baseline :: ulong
  detector_exiting :: bool
  vprintk_hook_active :: bool
  umh_hook_active :: bool
  ops_func_set :: "hook \<Rightarrow> bool"
  hooks_installed :: nat
  dir_hooks_installed :: nat
  g_audit :: audit_state

section \<open>Kernel interfaces\<close>

definition kcall :: "(nat \<Rightarrow> 'a) \<Rightarrow> tstate \<Rightarrow> 'a \<times> tstate" where
  "kcall f s = (f (tick s), s\<lparr>tick := Suc (tick s)\<rparr>)"

text \<open>\<open>ftrace_set_filter_ip(ops, ip, 0, 0)\<close> adds an address to the filter of the ops.\<close>

definition ftrace_filter_add :: "tenv \<Rightarrow> hook \<Rightarrow> ulong \<Rightarrow> tstate \<Rightarrow> unit kresult \<times> tstate" where
  "ftrace_filter_add E h ip s =
     (case kcall (t_set_filter_ip E) s of
        (Inl e, s) \<Rightarrow> (Inl e, s)
      | (Inr _, s) \<Rightarrow> (ok, s\<lparr>filters := (filters s)(h := insert ip (filters s h))\<rparr>))"

text \<open>\<open>ftrace_set_filter_ip(ops, ip, 1, 0)\<close> removes one; no caller looks at its result.\<close>

definition ftrace_filter_remove :: "hook \<Rightarrow> ulong \<Rightarrow> tstate \<Rightarrow> tstate" where
  "ftrace_filter_remove h ip s = s\<lparr>filters := (filters s)(h := filters s h - {ip})\<rparr>"

definition register_ftrace_function :: "tenv \<Rightarrow> hook \<Rightarrow> tstate \<Rightarrow> unit kresult \<times> tstate" where
  "register_ftrace_function E h s =
     (case kcall (t_register_ftrace E) s of
        (Inl e, s) \<Rightarrow> (Inl e, s)
      | (Inr _, s) \<Rightarrow> (ok, s\<lparr>live := insert h (live s)\<rparr>))"

definition unregister_ftrace_function :: "hook \<Rightarrow> tstate \<Rightarrow> tstate" where
  "unregister_ftrace_function h s = s\<lparr>live := live s - {h}\<rparr>"

text \<open>
  Arming a kprobe resolves its symbol; the address is stored in the probe.  The kernel looks the
  name up first and refuses a symbol without an address with \<open>ENOENT\<close>.
\<close>

definition resolve_probe :: "tenv \<Rightarrow> tstate \<Rightarrow> ulong kresult \<times> tstate" where
  "resolve_probe E s =
     (case kcall (t_register_kprobe E) s of
        (Inl e, s) \<Rightarrow> (Inl e, s)
      | (Inr addr, s) \<Rightarrow> if addr = 0 then (Inl ENOENT, s) else (Inr addr, s))"

definition register_kprobe :: "tenv \<Rightarrow> hook \<Rightarrow> tstate \<Rightarrow> unit kresult \<times> tstate" where
  "register_kprobe E h s =
     (case resolve_probe E s of
        (Inl e, s) \<Rightarrow> (Inl e, s)
      | (Inr addr, s) \<Rightarrow> (ok, s\<lparr>live := insert h (live s), kp_addr := (kp_addr s)(h := addr)\<rparr>))"

definition unregister_kprobe :: "hook \<Rightarrow> tstate \<Rightarrow> tstate" where
  "unregister_kprobe h s = s\<lparr>live := live s - {h}\<rparr>"

text \<open>A kprobe armed and disarmed at once, to resolve a symbol.\<close>

definition probe_symbol :: "tenv \<Rightarrow> tstate \<Rightarrow> ulong kresult \<times> tstate" where
  "probe_symbol E s = resolve_probe E s"

section \<open>The contract of a detector\<close>

text \<open>
  A detector owns some hooks.  When \<open>init\<close> fails it leaves no hook of its own behind and touches no
  other; when it succeeds it adds only hooks of its own; \<open>exit\<close> removes all of its own and no
  other.  \<open>coherent\<close> is the agreement between the flags in static variables and the hooks that are
  live, which every detector keeps.
\<close>

locale detector =
  fixes coherent :: "tstate \<Rightarrow> bool"
    and own :: "hook set"
    and init :: "tstate \<Rightarrow> unit kresult \<times> tstate"
    and exit :: "tstate \<Rightarrow> tstate"
  assumes init_coherent: "coherent s \<Longrightarrow> live s \<inter> own = {} \<Longrightarrow> coherent (snd (init s))"
    and init_fail: "coherent s \<Longrightarrow> live s \<inter> own = {} \<Longrightarrow> fst (init s) = Inl e \<Longrightarrow> live (snd (init s)) = live s"
    and init_ok: "coherent s \<Longrightarrow> live s \<inter> own = {} \<Longrightarrow> fst (init s) = ok \<Longrightarrow>
      live s \<subseteq> live (snd (init s)) \<and> live (snd (init s)) \<subseteq> live s \<union> own"
    and exit_coherent: "coherent s \<Longrightarrow> coherent (exit s)"
    and exit_live: "coherent s \<Longrightarrow> live (exit s) = live s - own"
begin

lemma init_others: "coherent s \<Longrightarrow> live s \<inter> own = {} \<Longrightarrow> live (snd (init s)) - own = live s"
  using init_ok [of s] init_fail [of s] by (cases "fst (init s)") auto

lemma init_exit: "coherent s \<Longrightarrow> live s \<inter> own = {} \<Longrightarrow> live (exit (snd (init s))) = live s"
  using exit_live [OF init_coherent] init_others by simp

end

section \<open>Installing one ftrace hook\<close>

text \<open>The sequence most detectors share: add the filter, register, and undo the filter on failure.\<close>

definition install_ops :: "tenv \<Rightarrow> hook \<Rightarrow> ulong \<Rightarrow> tstate \<Rightarrow> unit kresult \<times> tstate" where
  "install_ops E h addr s =
     (case ftrace_filter_add E h addr s of
        (Inl e, s) \<Rightarrow> (Inl e, s)
      | (Inr _, s) \<Rightarrow>
          (case register_ftrace_function E h s of
             (Inl e, s) \<Rightarrow> (Inl e, ftrace_filter_remove h addr s)
           | (Inr _, s) \<Rightarrow> (ok, s)))"

lemmas kernel_calls = ftrace_filter_add_def ftrace_filter_remove_def register_ftrace_function_def
  unregister_ftrace_function_def register_kprobe_def unregister_kprobe_def probe_symbol_def resolve_probe_def kcall_def

lemma install_ops_cases:
  obtains
    (failed) e n f where "install_ops E h addr s = (Inl e, s\<lparr>tick := n, filters := f\<rparr>)"
      "f h \<subseteq> filters s h" "\<forall>x. x \<noteq> h \<longrightarrow> f x = filters s x"
  | (installed) n where "install_ops E h addr s = (ok, s\<lparr>tick := n,
      filters := (filters s)(h := insert addr (filters s h)), live := insert h (live s)\<rparr>)"
proof (cases "t_set_filter_ip E (tick s)")
  case (Inl e)
  then have "install_ops E h addr s = (Inl e, s\<lparr>tick := Suc (tick s), filters := filters s\<rparr>)"
    by (simp add: install_ops_def kernel_calls)
  then show thesis by (rule failed) auto
next
  case Inr1: (Inr u)
  show thesis
  proof (cases "t_register_ftrace E (Suc (tick s))")
    case (Inl e)
    with Inr1 have "install_ops E h addr s = (Inl e, s\<lparr>tick := Suc (Suc (tick s)),
        filters := (filters s)(h := insert addr (filters s h) - {addr})\<rparr>)"
      by (simp add: install_ops_def kernel_calls)
    then show thesis by (rule failed) auto
  next
    case (Inr v)
    with Inr1 have "install_ops E h addr s = (ok, s\<lparr>tick := Suc (Suc (tick s)),
      filters := (filters s)(h := insert addr (filters s h)), live := insert h (live s)\<rparr>)"
      by (simp add: install_ops_def kernel_calls)
    then show thesis by (rule installed)
  qed
qed

section \<open>Flags and live hooks agree\<close>

text \<open>
  The condition under which the code of \<open>exit\<close> removes a hook: a flag, the address stored in a
  probe, or the function pointer of the ops; most hooks are removed unconditionally.
\<close>

definition removable :: "tstate \<Rightarrow> hook \<Rightarrow> bool" where
  "removable s h =
     (case h of
        OPS_KTHREAD \<Rightarrow> kthread_hook_active s
      | OPS_VPRINTK \<Rightarrow> vprintk_hook_active s
      | OPS_UMH \<Rightarrow> umh_hook_active s
      | KP_SET_FILTER \<Rightarrow> kp_addr s h \<noteq> 0 | KP_SET_NOTRACE \<Rightarrow> kp_addr s h \<noteq> 0 | KP_MODIFY_DIRECT \<Rightarrow> kp_addr s h \<noteq> 0
      | OPS_NETLINK_UNICAST \<Rightarrow> ops_func_set s h | OPS_AUDIT_LOG_START \<Rightarrow> ops_func_set s h
      | OPS_AUDIT_LOG_END \<Rightarrow> ops_func_set s h | OPS_AUDIT_SYSCALL_ENTRY \<Rightarrow> ops_func_set s h
      | _ \<Rightarrow> True)"

definition coherent :: "tstate \<Rightarrow> bool" where
  "coherent s \<longleftrightarrow> (\<forall>h \<in> live s. removable s h)"

lemma removable_irrelevant [simp]:
  "removable (s\<lparr>tick := x0\<rparr>) h = removable s h"
  "removable (s\<lparr>live := x1\<rparr>) h = removable s h"
  "removable (s\<lparr>filters := x2\<rparr>) h = removable s h"
  "removable (s\<lparr>g_kallsyms_addr := x3\<rparr>) h = removable s h"
  "removable (s\<lparr>tcp_hiding_addrs := x4\<rparr>) h = removable s h"
  "removable (s\<lparr>icmp_hook_addrs := x5\<rparr>) h = removable s h"
  "removable (s\<lparr>bpf_self_hooking := x6\<rparr>) h = removable s h"
  "removable (s\<lparr>tcp_self_hooking := x7\<rparr>) h = removable s h"
  "removable (s\<lparr>icmp_self_hooking := x8\<rparr>) h = removable s h"
  "removable (s\<lparr>photon_kallsyms_lookup := x9\<rparr>) h = removable s h"
  "removable (s\<lparr>tainted_mask_ptr := x10\<rparr>) h = removable s h"
  "removable (s\<lparr>taint_baseline := x11\<rparr>) h = removable s h"
  "removable (s\<lparr>detector_exiting := x12\<rparr>) h = removable s h"
  "removable (s\<lparr>hooks_installed := x13\<rparr>) h = removable s h"
  "removable (s\<lparr>dir_hooks_installed := x14\<rparr>) h = removable s h"
  "removable (s\<lparr>g_audit := x15\<rparr>) h = removable s h"
  by (cases h; simp add: removable_def)+

lemma removable_always [simp]:
  "removable s OPS_KPROBE"
  "removable s OPS_KALLSYMS"
  "removable s OPS_KRETPROBE"
  "removable s OPS_KPROBES_BATCH"
  "removable s OPS_COMMIT_CREDS"
  "removable s KP_BPF"
  "removable s KP_TCP"
  "removable s KP_ICMP"
  "removable s WORK_TAINT_CHECK"
  "removable s WORK_THREAD_SCAN"
  "removable s OPS_TRACE_PID"
  "removable s KP_CHDIR"
  "removable s OPS_READLINK"
  "removable s KP_WRITE"
  "removable s KP_DMESG"
  "removable s RP_FILP_OPEN"
  "removable s OPS_STAT_DI"
  "removable s OPS_STAT_SI"
  "removable s OPS_GETPRIORITY"
  "removable s OPS_GETDENTS"
  "removable s OPS_GETDENTS64"
  by (simp_all add: removable_def)

lemma removable_flag [simp]:
  "removable s OPS_KTHREAD = kthread_hook_active s"
  "removable s OPS_VPRINTK = vprintk_hook_active s"
  "removable s OPS_UMH = umh_hook_active s"
  "removable s KP_SET_FILTER = (kp_addr s KP_SET_FILTER \<noteq> 0)"
  "removable s KP_SET_NOTRACE = (kp_addr s KP_SET_NOTRACE \<noteq> 0)"
  "removable s KP_MODIFY_DIRECT = (kp_addr s KP_MODIFY_DIRECT \<noteq> 0)"
  "removable s OPS_NETLINK_UNICAST = ops_func_set s OPS_NETLINK_UNICAST"
  "removable s OPS_AUDIT_LOG_START = ops_func_set s OPS_AUDIT_LOG_START"
  "removable s OPS_AUDIT_LOG_END = ops_func_set s OPS_AUDIT_LOG_END"
  "removable s OPS_AUDIT_SYSCALL_ENTRY = ops_func_set s OPS_AUDIT_SYSCALL_ENTRY"
  by (simp_all add: removable_def)

lemma removable_set [simp]:
  "removable (s\<lparr>kthread_hook_active := b\<rparr>) h = (if h = OPS_KTHREAD then b else removable s h)"
  "removable (s\<lparr>vprintk_hook_active := b\<rparr>) h = (if h = OPS_VPRINTK then b else removable s h)"
  "removable (s\<lparr>umh_hook_active := b\<rparr>) h = (if h = OPS_UMH then b else removable s h)"
  by (cases h; simp add: removable_def)+

lemma removable_kp_addr: "removable s h \<Longrightarrow> kp_addr s h = 0 \<or> f h \<noteq> 0 \<Longrightarrow> removable (s\<lparr>kp_addr := f\<rparr>) h"
  by (cases h) (simp_all add: removable_def)

lemma removable_ops_func: "removable s h \<Longrightarrow> \<not> ops_func_set s h \<or> f h \<Longrightarrow> removable (s\<lparr>ops_func_set := f\<rparr>) h"
  by (cases h) (simp_all add: removable_def)

end
