(* ===== verification/Watchlists.thy ===== *)
theory Watchlists
  imports Trace_Kernel
begin

text \<open>
  \<open>include/watchlists.h\<close>: the watched symbols and \<open>photon_is_watchlisted\<close>.  A \<open>NULL\<close> pointer is \<open>None\<close>.
  Also the scanning helpers of the C library that the detectors use (\<open>strcmp\<close> against a table,
  \<open>strncmp\<close>, \<open>strstr\<close>).
\<close>

section \<open>String helpers\<close>

text \<open>\<open>strcmp(a, b) == 0\<close>: equality of what C sees of the two buffers.\<close>

definition strcmp0 :: "string \<Rightarrow> string \<Rightarrow> bool" where
  "strcmp0 a b \<longleftrightarrow> cstr a = cstr b"

text \<open>\<open>strncmp(a, b, n) == 0\<close>.\<close>

definition strncmp0 :: "string \<Rightarrow> string \<Rightarrow> nat \<Rightarrow> bool" where
  "strncmp0 a b n \<longleftrightarrow> take n (cstr a) = take n (cstr b)"

text \<open>\<open>strstr(hay, needle) != NULL\<close>: try every position from the left.\<close>

fun strstr :: "string \<Rightarrow> string \<Rightarrow> bool" where
  "strstr hay needle =
     (take (length needle) hay = needle \<or>
      (case hay of [] \<Rightarrow> False | c # rest \<Rightarrow> strstr rest needle))"

declare strstr.simps [simp del]

lemma strstr_Nil: "strstr [] needle \<longleftrightarrow> needle = []"
  by (subst strstr.simps) auto

lemma strstr_Cons: "strstr (c # rest) needle \<longleftrightarrow> take (length needle) (c # rest) = needle \<or> strstr rest needle"
  by (subst strstr.simps) simp

lemma strstr_iff: "strstr hay needle \<longleftrightarrow> (\<exists>u v. hay = u @ needle @ v)"
proof (induction hay)
  case Nil
  then show ?case by (auto simp: strstr_Nil)
next
  case (Cons c rest)
  have head: "take (length needle) (c # rest) = needle \<longleftrightarrow> (\<exists>v. c # rest = needle @ v)"
    by (metis append_eq_conv_conj append_take_drop_id)
  have "(\<exists>u v. c # rest = u @ needle @ v) \<longleftrightarrow> (\<exists>v. c # rest = needle @ v) \<or> (\<exists>u v. rest = u @ needle @ v)"
    by (metis append_Cons append_Nil list.inject neq_Nil_conv)
  then show ?case unfolding strstr_Cons head Cons.IH by simp
qed

text \<open>A loop over a table of names with \<open>strcmp\<close>.\<close>

fun name_in_table :: "string list \<Rightarrow> string \<Rightarrow> bool" where
  "name_in_table [] name = False"
| "name_in_table (entry # rest) name = (if strcmp0 entry name then True else name_in_table rest name)"

lemma name_in_table_iff: "name_in_table table name \<longleftrightarrow> cstr name \<in> cstr ` set table"
  by (induction table) (auto simp: strcmp0_def)

section \<open>The watchlist\<close>

definition photon_watchlist :: "string list" where
  "photon_watchlist =
     [''tainted_mask'', ''sys_call_table'', ''ia32_sys_call_table'', ''_stext'', ''entry_SYSCALL_64'',
      ''filldir64'', ''filldir'', ''iterate_dir'',
      ''tcp4_seq_show'', ''tcp6_seq_show'', ''udp4_seq_show'', ''udp6_seq_show'', ''tpacket_rcv'', ''icmp_rcv'',
      ''commit_creds'', ''prepare_kernel_cred'', ''cap_capable'',
      ''proc_pid_readdir'', ''proc_pid_lookup'',
      ''sys_kill'', ''do_send_sig_info'',
      ''module_alloc'', ''set_memory_x'', ''ftrace_ops_list'', ''kthread_create_on_node'', ''find_module'',
      ''__x64_sys_statx'', ''__x64_sys_stat'', ''__x64_sys_lstat'', ''__x64_sys_newstat'',
      ''__x64_sys_newlstat'', ''__x64_sys_getpriority'', ''__x64_sys_newfstatat'',
      ''__ia32_sys_statx'', ''__ia32_sys_stat'', ''__ia32_sys_lstat'', ''__ia32_sys_newstat'',
      ''__ia32_sys_newlstat'', ''__ia32_sys_getpriority'', ''__ia32_sys_newfstatat'']"

definition photon_is_watchlisted :: "string option \<Rightarrow> bool" where
  "photon_is_watchlisted name =
     (case name of
        None \<Rightarrow> False
      | Some n \<Rightarrow> if cstr n = [] then False else name_in_table photon_watchlist n)"

lemma cstr_plain: "CHR 0x00 \<notin> set s \<Longrightarrow> cstr s = s"
  by (auto simp: cstr_def)

lemma watchlist_plain: "\<forall>w \<in> set photon_watchlist. CHR 0x00 \<notin> set w \<and> w \<noteq> []"
  by (simp add: photon_watchlist_def)

lemma watchlist_cstr: "cstr ` set photon_watchlist = set photon_watchlist"
  using watchlist_plain cstr_plain by (auto simp: image_iff)

lemma watchlisted_iff: "photon_is_watchlisted (Some n) \<longleftrightarrow> cstr n \<in> set photon_watchlist"
  using watchlist_plain by (auto simp: photon_is_watchlisted_def name_in_table_iff watchlist_cstr)

lemma watchlisted_None [simp]: "\<not> photon_is_watchlisted None"
  by (simp add: photon_is_watchlisted_def)

text \<open>
  \<open>photon_is_watchlisted\<close> is exact membership: it holds precisely for the strings that C reads as
  one of the 40 listed symbols, which are pairwise different; \<open>NULL\<close>, the empty string, and names
  that merely start with or contain a listed symbol are not watchlisted.
\<close>

theorem watchlist_is_exact:
  "distinct photon_watchlist \<and> length photon_watchlist = 40 \<and>
   (\<forall>name. photon_is_watchlisted name =
      (case name of None \<Rightarrow> False | Some n \<Rightarrow> takeWhile (\<lambda>c. c \<noteq> CHR 0x00) n \<in> set photon_watchlist))"
proof (intro conjI allI)
  show "distinct photon_watchlist" by (simp add: photon_watchlist_def)
  show "length photon_watchlist = 40" by (simp add: photon_watchlist_def)
  fix name
  show "photon_is_watchlisted name =
      (case name of None \<Rightarrow> False | Some n \<Rightarrow> takeWhile (\<lambda>c. c \<noteq> CHR 0x00) n \<in> set photon_watchlist)"
    by (cases name) (simp_all add: watchlisted_iff cstr_def)
qed

end
