(* ===== verification/Event_Layout.thy ===== *)
theory Event_Layout
  imports Photon_Prelude
begin

text \<open>
  The wire structures of \<open>include/event_manager.h\<close> and \<open>include/cdev_ch.h\<close>: severity levels,
  event types, detector ids, the packed \<open>struct photon_event\<close> with its five payload structs, and
  the packed \<open>struct photon_encrypted_msg\<close>.  Each struct is a record, with the function that
  lays it out in memory (little-endian, no padding beyond the members the source declares) and,
  for the event, the function that reads it back from memory.
\<close>

section \<open>Fixed-width fields\<close>

text \<open>Cutting a buffer into consecutive fields of the given widths.\<close>

fun split_fields :: "nat list \<Rightarrow> bytes \<Rightarrow> bytes list" where
  "split_fields [] bs = []"
| "split_fields (n # ns) bs = take n bs # split_fields ns (drop n bs)"

lemma length_split_fields [simp]: "length (split_fields ns bs) = length ns"
  by (induction ns arbitrary: bs) auto

lemma split_fields_concat:
  "split_fields (map length fs) (concat fs @ rest) = fs"
  by (induction fs) auto

lemma concat_split_fields:
  "length bs = sum_list ns \<Longrightarrow> concat (split_fields ns bs) = bs"
  by (induction ns arbitrary: bs) auto

section \<open>Severity levels, event types, detector ids\<close>

datatype severity = PHOTON_SEV_INFO | PHOTON_SEV_SUSPICIOUS | PHOTON_SEV_ALERT | PHOTON_SEV_CRITICAL

fun severity_code :: "severity \<Rightarrow> u8" where
  "severity_code PHOTON_SEV_INFO = 0"
| "severity_code PHOTON_SEV_SUSPICIOUS = 1"
| "severity_code PHOTON_SEV_ALERT = 2"
| "severity_code PHOTON_SEV_CRITICAL = 3"

text \<open>
  Severities are ordered by threat; the envelope carries the wire value so that a consumer can
  range-filter on it.  The order below is the order of the wire values.
\<close>

instantiation severity :: linorder
begin

definition less_eq_severity :: "severity \<Rightarrow> severity \<Rightarrow> bool" where
  "less_eq_severity a b \<longleftrightarrow> unat (severity_code a) \<le> unat (severity_code b)"

definition less_severity :: "severity \<Rightarrow> severity \<Rightarrow> bool" where
  "less_severity a b \<longleftrightarrow> unat (severity_code a) < unat (severity_code b)"

instance
proof
  fix x y z :: severity
  show "x < y \<longleftrightarrow> x \<le> y \<and> \<not> y \<le> x"
    by (auto simp: less_eq_severity_def less_severity_def)
  show "x \<le> x" by (simp add: less_eq_severity_def)
  show "x \<le> y \<Longrightarrow> y \<le> z \<Longrightarrow> x \<le> z" by (simp add: less_eq_severity_def)
  show "x \<le> y \<Longrightarrow> y \<le> x \<Longrightarrow> x = y"
    by (cases x; cases y) (simp_all add: less_eq_severity_def)
  show "x \<le> y \<or> y \<le> x" by (auto simp: less_eq_severity_def)
qed

end

lemma severity_code_mono: "a \<le> b \<longleftrightarrow> severity_code a \<le> severity_code b"
  by (simp add: less_eq_severity_def word_le_nat_alt)

datatype photon_event_type =
    PHOTON_EVENT_PROBE_KPROBE | PHOTON_EVENT_PROBE_KRETPROBE | PHOTON_EVENT_PROBE_KALLSYMS
  | PHOTON_EVENT_FTRACE_HOOK | PHOTON_EVENT_PRIVESC_UID | PHOTON_EVENT_HIDING_PROCESS
  | PHOTON_EVENT_HIDING_NETWORK | PHOTON_EVENT_SYSTEM_HEARTBEAT | PHOTON_EVENT_SYSTEM_KEY_ROTATION

fun event_type_code :: "photon_event_type \<Rightarrow> u32" where
  "event_type_code PHOTON_EVENT_PROBE_KPROBE = 1"
| "event_type_code PHOTON_EVENT_PROBE_KRETPROBE = 2"
| "event_type_code PHOTON_EVENT_PROBE_KALLSYMS = 3"
| "event_type_code PHOTON_EVENT_FTRACE_HOOK = 4"
| "event_type_code PHOTON_EVENT_PRIVESC_UID = 5"
| "event_type_code PHOTON_EVENT_HIDING_PROCESS = 6"
| "event_type_code PHOTON_EVENT_HIDING_NETWORK = 7"
| "event_type_code PHOTON_EVENT_SYSTEM_HEARTBEAT = 100"
| "event_type_code PHOTON_EVENT_SYSTEM_KEY_ROTATION = 101"

datatype photon_detector_id =
    PHOTON_DETECTOR_KPROBE | PHOTON_DETECTOR_KRETPROBE | PHOTON_DETECTOR_STAT
  | PHOTON_DETECTOR_BPF | PHOTON_DETECTOR_FTRACE | PHOTON_DETECTOR_PRIVESC

fun detector_code :: "photon_detector_id \<Rightarrow> u32" where
  "detector_code PHOTON_DETECTOR_KPROBE = 1"
| "detector_code PHOTON_DETECTOR_KRETPROBE = 2"
| "detector_code PHOTON_DETECTOR_STAT = 3"
| "detector_code PHOTON_DETECTOR_BPF = 4"
| "detector_code PHOTON_DETECTOR_FTRACE = 5"
| "detector_code PHOTON_DETECTOR_PRIVESC = 6"

section \<open>struct photon\_event\<close>

abbreviation PHOTON_MAX_EVENT_DATA :: nat where
  "PHOTON_MAX_EVENT_DATA \<equiv> 256"

record photon_event =
  sequence_num :: u64
  timestamp_ns :: u64
  event_type :: u32
  detector_id :: u32
  event_severity :: u8
  event_pad :: bytes
  caller_pid :: u32
  caller_comm :: bytes
  data_len :: u16
  event_data :: bytes

text \<open>The array members have their declared lengths.\<close>

definition event_ok :: "photon_event \<Rightarrow> bool" where
  "event_ok e \<longleftrightarrow> length (event_pad e) = 3 \<and> length (caller_comm e) = 16 \<and>
     length (event_data e) = PHOTON_MAX_EVENT_DATA"

definition event_fields :: "photon_event \<Rightarrow> bytes list" where
  "event_fields e =
     [le_word 8 (sequence_num e), le_word 8 (timestamp_ns e), le_word 4 (event_type e),
      le_word 4 (detector_id e), [event_severity e], event_pad e, le_word 4 (caller_pid e),
      caller_comm e, le_word 2 (data_len e), event_data e]"

definition event_bytes :: "photon_event \<Rightarrow> bytes" where
  "event_bytes e = concat (event_fields e)"

text \<open>\<open>sizeof(struct photon_event)\<close>, from the member widths.\<close>

definition event_widths :: "nat list" where
  "event_widths = [8, 8, 4, 4, 1, 3, 4, 16, 2, PHOTON_MAX_EVENT_DATA]"

definition sizeof_photon_event :: nat where
  "sizeof_photon_event = sum_list event_widths"

lemma sizeof_photon_event_value: "sizeof_photon_event = 306"
  by (simp add: sizeof_photon_event_def event_widths_def)

definition event_of_bytes :: "bytes \<Rightarrow> photon_event" where
  "event_of_bytes bs = (let f = split_fields event_widths bs in
     \<lparr>sequence_num = word_of_le (f ! 0), timestamp_ns = word_of_le (f ! 1),
      event_type = word_of_le (f ! 2), detector_id = word_of_le (f ! 3),
      event_severity = hd (f ! 4), event_pad = f ! 5, caller_pid = word_of_le (f ! 6),
      caller_comm = f ! 7, data_len = word_of_le (f ! 8), event_data = f ! 9\<rparr>)"

lemma event_fields_widths: "event_ok e \<Longrightarrow> map length (event_fields e) = event_widths"
  by (simp add: event_ok_def event_fields_def event_widths_def)

lemma length_event_bytes [bytes_simps]: "event_ok e \<Longrightarrow> length (event_bytes e) = sizeof_photon_event"
  by (simp add: event_bytes_def length_concat event_fields_widths sizeof_photon_event_def)

lemma event_of_bytes_event_bytes [bytes_simps]:
  assumes "event_ok e"
  shows "event_of_bytes (event_bytes e) = e"
proof -
  have "split_fields event_widths (event_bytes e) = event_fields e"
    using split_fields_concat [of "event_fields e" "[]"] event_fields_widths [OF assms]
    by (simp add: event_bytes_def)
  then show ?thesis
    by (simp add: event_of_bytes_def Let_def event_fields_def word_of_le_le_word)
qed

lemma event_bytes_inject:
  "event_ok e \<Longrightarrow> event_ok e' \<Longrightarrow> event_bytes e = event_bytes e' \<longleftrightarrow> e = e'"
  by (metis event_of_bytes_event_bytes)

section \<open>Payload structs\<close>

record probe_hook_data =
  ph_symbol_name :: bytes
  ph_target_addr :: ulong
  ph_handler_addr :: ulong
  ph_entry_addr :: ulong
  ph_maxactive :: "32 word"
  ph_batch_count :: "32 word"
  ph_flags :: u32

definition probe_hook_bytes :: "probe_hook_data \<Rightarrow> bytes" where
  "probe_hook_bytes p =
     ph_symbol_name p @ le_word 8 (ph_target_addr p) @ le_word 8 (ph_handler_addr p) @
     le_word 8 (ph_entry_addr p) @ le_word 4 (ph_maxactive p) @ le_word 4 (ph_batch_count p) @
     le_word 4 (ph_flags p)"

record ftrace_hook_data =
  fh_target_symbol :: bytes
  fh_target_addr :: ulong
  fh_new_addr_symbol :: bytes
  fh_new_addr :: ulong
  fh_filter_pattern :: bytes
  fh_hook_source :: u8

definition ftrace_hook_bytes :: "ftrace_hook_data \<Rightarrow> bytes" where
  "ftrace_hook_bytes p =
     fh_target_symbol p @ le_word 8 (fh_target_addr p) @ fh_new_addr_symbol p @
     le_word 8 (fh_new_addr p) @ fh_filter_pattern p @ [fh_hook_source p]"

record privesc_data =
  pe_old_uid :: u32
  pe_new_uid :: u32
  pe_return_addr :: ulong

definition privesc_bytes :: "privesc_data \<Rightarrow> bytes" where
  "privesc_bytes p = le_word 4 (pe_old_uid p) @ le_word 4 (pe_new_uid p) @ le_word 8 (pe_return_addr p)"

text \<open>Declared by the header and filled by no detector.\<close>

record hidden_entity_data =
  he_entity_type :: u8
  he_target_pid :: u32
  he_target_path :: bytes
  he_syscall_name :: bytes
  he_hooked_addr :: ulong
  he_real_nlink :: u32
  he_flags :: u32

definition hidden_entity_bytes :: "hidden_entity_data \<Rightarrow> bytes" where
  "hidden_entity_bytes p =
     [he_entity_type p] @ le_word 4 (he_target_pid p) @ he_target_path p @ he_syscall_name p @
     le_word 8 (he_hooked_addr p) @ le_word 4 (he_real_nlink p) @ le_word 4 (he_flags p)"

record system_data =
  sd_uptime_ns :: u64
  sd_events_sent :: u64
  sd_events_dropped :: u64
  sd_new_rotation_num :: u64

definition system_bytes :: "system_data \<Rightarrow> bytes" where
  "system_bytes p =
     le_word 8 (sd_uptime_ns p) @ le_word 8 (sd_events_sent p) @
     le_word 8 (sd_events_dropped p) @ le_word 8 (sd_new_rotation_num p)"

lemma length_probe_hook_bytes [bytes_simps]:
  "length (ph_symbol_name p) = 64 \<Longrightarrow> length (probe_hook_bytes p) = 100"
  by (simp add: probe_hook_bytes_def)

lemma length_ftrace_hook_bytes [bytes_simps]:
  "length (fh_target_symbol p) = 64 \<Longrightarrow> length (fh_new_addr_symbol p) = 64 \<Longrightarrow>
     length (fh_filter_pattern p) = 64 \<Longrightarrow> length (ftrace_hook_bytes p) = 209"
  by (simp add: ftrace_hook_bytes_def)

lemma length_privesc_bytes [simp, bytes_simps]: "length (privesc_bytes p) = 16"
  by (simp add: privesc_bytes_def)

lemma length_hidden_entity_bytes [bytes_simps]:
  "length (he_target_path p) = 64 \<Longrightarrow> length (he_syscall_name p) = 32 \<Longrightarrow> length (hidden_entity_bytes p) = 117"
  by (simp add: hidden_entity_bytes_def)

lemma length_system_bytes [simp, bytes_simps]: "length (system_bytes p) = 32"
  by (simp add: system_bytes_def)

section \<open>struct photon\_encrypted\_msg\<close>

record photon_encrypted_msg =
  msg_sequence_num :: u64
  msg_rotation_num :: u64
  msg_iv :: bytes
  msg_encrypted_len :: u16
  msg_auth_tag :: bytes
  msg_encrypted_data :: bytes

definition msg_bytes :: "photon_encrypted_msg \<Rightarrow> bytes" where
  "msg_bytes m =
     le_word 8 (msg_sequence_num m) @ le_word 8 (msg_rotation_num m) @ msg_iv m @
     le_word 2 (msg_encrypted_len m) @ msg_auth_tag m @ msg_encrypted_data m"

text \<open>\<open>PHOTON_FRAME_BODY_MAX\<close> and \<open>PHOTON_FRAME_SLOT_SIZE\<close> of \<open>cdev_ch.c\<close>.\<close>

definition PHOTON_FRAME_BODY_MAX :: nat where
  "PHOTON_FRAME_BODY_MAX = 8 + 8 + 12 + 2 + 16 + sizeof_photon_event"

definition PHOTON_FRAME_SLOT_SIZE :: nat where
  "PHOTON_FRAME_SLOT_SIZE = 4 + PHOTON_FRAME_BODY_MAX"

lemma frame_sizes: "PHOTON_FRAME_BODY_MAX = 352" "PHOTON_FRAME_SLOT_SIZE = 356"
  by (simp_all add: PHOTON_FRAME_BODY_MAX_def PHOTON_FRAME_SLOT_SIZE_def sizeof_photon_event_value)

end
