(* ===== verification/Kernel_Env.thy ===== *)
theory Kernel_Env
  imports Event_Layout
begin

text \<open>
  What the module relies on and does not implement: the kernel's allocator, clocks, random
  numbers, current CPU, the crypto API (HMAC-SHA256 and AES-GCM transforms) and the character
  device core.  All of it is one record parameter \<open>K\<close> of the model.  Results that may differ from
  call to call are indexed by the number of the call, which the module's state carries in \<open>now\<close>;
  every property holds for every such environment.  What a property needs of the environment is
  stated as a named predicate (\<open>hmac_ok\<close>, \<open>shash_available\<close>, \<open>aead_laws\<close>, \<open>cpus_ok\<close>), each a
  documented behaviour of the kernel function it is about.
\<close>

record 't kenv =
  k_kmalloc :: "nat \<Rightarrow> bool"
  k_alloc_shash :: "nat \<Rightarrow> unit kresult"
  k_shash_op :: "nat \<Rightarrow> unit kresult"
  k_hmac_sha256 :: "bytes \<Rightarrow> bytes \<Rightarrow> bytes"
  k_alloc_aead :: "nat \<Rightarrow> 't kresult"
  k_aead_setkey :: "nat \<Rightarrow> bytes \<Rightarrow> 't \<Rightarrow> unit kresult \<times> 't"
  k_aead_setauthsize :: "nat \<Rightarrow> nat \<Rightarrow> 't \<Rightarrow> unit kresult \<times> 't"
  k_aead_encrypt :: "nat \<Rightarrow> 't \<Rightarrow> bytes \<Rightarrow> bytes \<Rightarrow> bytes kresult"
  k_aead_decrypt :: "nat \<Rightarrow> 't \<Rightarrow> bytes \<Rightarrow> bytes \<Rightarrow> bytes kresult"
  k_random :: "nat \<Rightarrow> nat \<Rightarrow> bytes"
  k_ktime_real_ns :: "nat \<Rightarrow> u64"
  k_ktime_ns :: "nat \<Rightarrow> u64"
  k_this_cpu :: "nat \<Rightarrow> nat"
  k_new_events :: "nat \<Rightarrow> photon_event list option"
  k_stack :: "nat \<Rightarrow> photon_encrypted_msg"
  k_alloc_chrdev_region :: "nat \<Rightarrow> nat kresult"
  k_cdev_add :: "nat \<Rightarrow> unit kresult"
  k_class_create :: "nat \<Rightarrow> unit kresult"
  k_device_create :: "nat \<Rightarrow> unit kresult"

text \<open>The tasks that call into the module: \<open>current->pid\<close> and \<open>current->comm\<close>.\<close>

record task =
  task_pid :: u32
  task_comm :: string

section \<open>Documented behaviour, as named hypotheses\<close>

text \<open>HMAC-SHA256 has a 32-byte digest.\<close>

definition hmac_ok :: "'t kenv \<Rightarrow> bool" where
  "hmac_ok K \<longleftrightarrow> (\<forall>key msg. length (k_hmac_sha256 K key msg) = 32)"

text \<open>No allocation or hash operation fails: the case in which key derivation must succeed.\<close>

definition shash_available :: "'t kenv \<Rightarrow> bool" where
  "shash_available K \<longleftrightarrow> (\<forall>n. k_alloc_shash K n = ok \<and> k_kmalloc K n \<and> k_shash_op K n = ok)"

text \<open>
  AES-GCM transforms.  \<open>has_key t k\<close> says that the transform \<open>t\<close> was keyed with \<open>k\<close>.  Under it,
  encryption that returns a result returns \<open>seal k iv pt\<close> (ciphertext and 16-byte tag),
  decryption that returns a result returns what \<open>unseal\<close> authenticates, and unsealing a sealed
  message gives the message back.
\<close>

definition aead_laws ::
  "'t kenv \<Rightarrow> ('t \<Rightarrow> bytes \<Rightarrow> bool) \<Rightarrow> (bytes \<Rightarrow> bytes \<Rightarrow> bytes \<Rightarrow> bytes) \<Rightarrow>
   (bytes \<Rightarrow> bytes \<Rightarrow> bytes \<Rightarrow> bytes option) \<Rightarrow> bool" where
  "aead_laws K has_key seal unseal \<longleftrightarrow>
     (\<forall>n k t. fst (k_aead_setkey K n k t) = ok \<longrightarrow> has_key (snd (k_aead_setkey K n k t)) k) \<and>
     (\<forall>n a k t. has_key t k \<longrightarrow> has_key (snd (k_aead_setauthsize K n a t)) k) \<and>
     (\<forall>n t k iv pt ct. has_key t k \<longrightarrow> k_aead_encrypt K n t iv pt = Inr ct \<longrightarrow> ct = seal k iv pt) \<and>
     (\<forall>n t k iv ct pt. has_key t k \<longrightarrow> k_aead_decrypt K n t iv ct = Inr pt \<longrightarrow>
        unseal k iv ct = Some pt) \<and>
     (\<forall>k iv pt. length (seal k iv pt) = length pt + 16 \<and> unseal k iv (seal k iv pt) = Some pt)"

lemma aead_lawsD:
  assumes "aead_laws K has_key seal unseal"
  shows "k_aead_setkey K n k t = (ok, t') \<Longrightarrow> has_key t' k"
    and "has_key t k \<Longrightarrow> k_aead_setauthsize K n a t = (r, t') \<Longrightarrow> has_key t' k"
    and "has_key t k \<Longrightarrow> k_aead_encrypt K n t iv pt = Inr ct \<Longrightarrow> ct = seal k iv pt"
    and "has_key t k \<Longrightarrow> k_aead_decrypt K n t iv ct = Inr pt \<Longrightarrow> unseal k iv ct = Some pt"
    and "length (seal k iv pt) = length pt + 16"
    and "unseal k iv (seal k iv pt) = Some pt"
  using assms unfolding aead_laws_def by (metis fst_conv snd_conv)+

text \<open>\<open>get_random_bytes\<close> fills the buffer.\<close>

definition random_ok :: "'t kenv \<Rightarrow> bool" where
  "random_ok K \<longleftrightarrow> (\<forall>n len. length (k_random K n len) = len)"

text \<open>The current CPU is one of the possible CPUs.\<close>

definition cpus_ok :: "'t kenv \<Rightarrow> nat \<Rightarrow> bool" where
  "cpus_ok K ncpus \<longleftrightarrow> (\<forall>n. k_this_cpu K n < ncpus)"

text \<open>\<open>kmalloc_array(256, ...)\<close> returns NULL or 256 elements of the element type.\<close>

definition events_ok :: "'t kenv \<Rightarrow> bool" where
  "events_ok K \<longleftrightarrow> (\<forall>n es. k_new_events K n = Some es \<longrightarrow> length es = 256 \<and> (\<forall>e \<in> set es. event_ok e))"

section \<open>A concrete environment\<close>

text \<open>
  An environment in which every call succeeds, with two CPUs.  It shows that the hypotheses above
  can hold together, and it is what the witnesses of the development evaluate.  Its cipher appends
  a tag that depends on the key and the IV; it is no more than an example.
\<close>

definition demo_seal :: "bytes \<Rightarrow> bytes \<Rightarrow> bytes \<Rightarrow> bytes" where
  "demo_seal k iv pt = pt @ take 16 (k @ iv @ zeros 16)"

definition demo_unseal :: "bytes \<Rightarrow> bytes \<Rightarrow> bytes \<Rightarrow> bytes option" where
  "demo_unseal k iv ct =
     (let n = length ct - 16 in
      if 16 \<le> length ct \<and> drop n ct = take 16 (k @ iv @ zeros 16) then Some (take n ct) else None)"

definition demo_event :: photon_event where
  "demo_event = \<lparr>sequence_num = 0, timestamp_ns = 0, event_type = 0, detector_id = 0,
     event_severity = 0, event_pad = zeros 3, caller_pid = 0, caller_comm = zeros 16,
     data_len = 0, event_data = zeros 256\<rparr>"

definition demo_env :: "bytes kenv" where
  "demo_env = \<lparr>k_kmalloc = (\<lambda>_. True), k_alloc_shash = (\<lambda>_. ok), k_shash_op = (\<lambda>_. ok),
     k_hmac_sha256 = (\<lambda>key msg. take 32 (msg @ key @ zeros 32)),
     k_alloc_aead = (\<lambda>_. Inr []), k_aead_setkey = (\<lambda>_ key _. (ok, key)),
     k_aead_setauthsize = (\<lambda>_ _ t. (ok, t)),
     k_aead_encrypt = (\<lambda>_ t iv pt. Inr (demo_seal t iv pt)),
     k_aead_decrypt = (\<lambda>_ t iv ct.
        case demo_unseal t iv ct of None \<Rightarrow> Inl (KernelErr 74) | Some pt \<Rightarrow> Inr pt),
     k_random = (\<lambda>n len. replicate len (of_nat n)),
     k_ktime_real_ns = of_nat, k_ktime_ns = of_nat, k_this_cpu = (\<lambda>n. n mod 2),
     k_new_events = (\<lambda>_. Some (replicate 256 demo_event)),
     k_stack = (\<lambda>n. \<lparr>msg_sequence_num = of_nat n, msg_rotation_num = of_nat n,
        msg_iv = replicate 12 7, msg_encrypted_len = 9, msg_auth_tag = replicate 16 7,
        msg_encrypted_data = replicate 306 7\<rparr>),
     k_alloc_chrdev_region = (\<lambda>_. Inr 240), k_cdev_add = (\<lambda>_. ok), k_class_create = (\<lambda>_. ok),
     k_device_create = (\<lambda>_. ok)\<rparr>"

lemma demo_env_hmac: "hmac_ok demo_env"
  by (simp add: hmac_ok_def demo_env_def del: take_append)

lemma demo_env_shash: "shash_available demo_env"
  by (simp add: shash_available_def demo_env_def)

lemma demo_env_random: "random_ok demo_env"
  by (simp add: random_ok_def demo_env_def)

lemma demo_env_cpus: "cpus_ok demo_env 2"
  by (simp add: cpus_ok_def demo_env_def)

lemma demo_event_ok: "event_ok demo_event"
  by (simp add: event_ok_def demo_event_def)

lemma demo_env_events: "events_ok demo_env"
  by (auto simp: events_ok_def demo_env_def demo_event_ok)

lemma demo_unseal_seal: "demo_unseal k iv (demo_seal k iv pt) = Some pt"
  by (simp add: demo_unseal_def demo_seal_def Let_def)

lemma demo_env_aead: "aead_laws demo_env (\<lambda>t k. t = k) demo_seal demo_unseal"
proof -
  have "length (demo_seal k iv pt) = length pt + 16" for k iv pt
    by (simp add: demo_seal_def del: take_append)
  then show ?thesis
    unfolding aead_laws_def by (auto simp: demo_env_def demo_unseal_seal split: option.splits)
qed

lemmas demo_env_ok = demo_env_hmac demo_env_shash demo_env_random demo_env_cpus
  demo_env_events demo_env_aead

end
