(* ===== verification/Hkdf.thy ===== *)
theory Hkdf
  imports Kernel_Env
begin

text \<open>
  The state of \<open>comms/crypto.c\<close> and its key derivation function: \<open>hkdf_extract\<close> and
  \<open>hkdf_expand\<close>, with the proof that they compute HKDF-SHA256 as RFC 5869 defines it.

  The functions are defined on every extension of the crypto state, so that they run unchanged on
  the state of the whole module.  The mutex \<open>crypto_mutex\<close> is part of the state.  Taking it while
  it is held never returns, which is the result \<open>None\<close>; every function that takes it has an
  \<open>option\<close> result.
\<close>

section \<open>State\<close>

abbreviation PHOTON_KEY_SIZE :: nat where "PHOTON_KEY_SIZE \<equiv> 32"
abbreviation PHOTON_IV_SIZE :: nat where "PHOTON_IV_SIZE \<equiv> 12"
abbreviation PHOTON_TAG_SIZE :: nat where "PHOTON_TAG_SIZE \<equiv> 16"

record 't crypto_state =
  now :: nat
  g_tfm :: "'t option"
  g_master_key :: bytes
  g_session_key :: bytes
  g_key_set :: bool
  g_rotation_counter :: u64
  crypto_mutex :: bool
  g_encryptions :: u64
  g_decryptions :: u64

definition initial_crypto_state :: "'t crypto_state" where
  "initial_crypto_state =
     \<lparr>now = 0, g_tfm = None, g_master_key = zeros PHOTON_KEY_SIZE,
      g_session_key = zeros PHOTON_KEY_SIZE, g_key_set = False, g_rotation_counter = 0,
      crypto_mutex = False, g_encryptions = 0, g_decryptions = 0\<rparr>"

text \<open>One call of the environment.\<close>

definition ext :: "(nat \<Rightarrow> 'a) \<Rightarrow> ('t, 'z) crypto_state_scheme \<Rightarrow> 'a \<times> ('t, 'z) crypto_state_scheme" where
  "ext f s = (f (now s), s\<lparr>now := Suc (now s)\<rparr>)"

definition mutex_lock :: "('t, 'z) crypto_state_scheme \<Rightarrow> ('t, 'z) crypto_state_scheme option" where
  "mutex_lock s = (if crypto_mutex s then None else Some (s\<lparr>crypto_mutex := True\<rparr>))"

definition mutex_unlock :: "('t, 'z) crypto_state_scheme \<Rightarrow> ('t, 'z) crypto_state_scheme" where
  "mutex_unlock s = s\<lparr>crypto_mutex := False\<rparr>"

text \<open>Sequencing of fallible steps: \<open>ret = f(); if (ret) goto out;\<close>.\<close>

definition ebind :: "('s \<Rightarrow> 'a kresult \<times> 's) \<Rightarrow> ('a \<Rightarrow> 's \<Rightarrow> 'b kresult \<times> 's) \<Rightarrow> 's \<Rightarrow> 'b kresult \<times> 's" where
  "ebind m f s = (case m s of (Inl e, s') \<Rightarrow> (Inl e, s') | (Inr a, s') \<Rightarrow> f a s')"

lemma ebind_Inl [simp]: "m s = (Inl e, s') \<Longrightarrow> ebind m f s = (Inl e, s')"
  by (simp add: ebind_def)

lemma ebind_Inr [simp]: "m s = (Inr a, s') \<Longrightarrow> ebind m f s = f a s'"
  by (simp add: ebind_def)

lemma ebind_InrE:
  assumes "ebind m f s = (Inr b, s'')"
  obtains a s' where "m s = (Inr a, s')" "f a s' = (Inr b, s'')"
  using assms by (auto simp: ebind_def split: prod.splits sum.splits)

section \<open>HKDF-SHA256\<close>

text \<open>
  The synchronous hash API: the state of a descriptor is the message fed to it so far; each
  call may fail with a code of the kernel.
\<close>

definition crypto_alloc_shash :: "'t kenv \<Rightarrow> ('t, 'z) crypto_state_scheme \<Rightarrow> unit kresult \<times> ('t, 'z) crypto_state_scheme" where
  "crypto_alloc_shash K s = ext (k_alloc_shash K) s"

definition kmalloc :: "'t kenv \<Rightarrow> ('t, 'z) crypto_state_scheme \<Rightarrow> unit kresult \<times> ('t, 'z) crypto_state_scheme" where
  "kmalloc K s = ext (\<lambda>n. if k_kmalloc K n then ok else Inl ENOMEM) s"

definition shash_call :: "'t kenv \<Rightarrow> 'a \<Rightarrow> ('t, 'z) crypto_state_scheme \<Rightarrow> 'a kresult \<times> ('t, 'z) crypto_state_scheme" where
  "shash_call K v s = ext (\<lambda>n. case k_shash_op K n of Inl e \<Rightarrow> Inl e | Inr _ \<Rightarrow> Inr v) s"

abbreviation shash_setkey where "shash_setkey K \<equiv> shash_call K ()"
abbreviation shash_init where "shash_init K \<equiv> shash_call K ([] :: bytes)"
abbreviation shash_update where "shash_update K msg data \<equiv> shash_call K (msg @ data :: bytes)"
abbreviation shash_final where "shash_final K key msg \<equiv> shash_call K (k_hmac_sha256 K key msg)"

definition hkdf_extract ::
  "'t kenv \<Rightarrow> bytes \<Rightarrow> bytes \<Rightarrow> ('t, 'z) crypto_state_scheme \<Rightarrow> bytes kresult \<times> ('t, 'z) crypto_state_scheme" where
  "hkdf_extract K salt ikm =
     ebind (crypto_alloc_shash K) (\<lambda>_.
     ebind (kmalloc K) (\<lambda>_.
     ebind (shash_setkey K) (\<lambda>_.
     ebind (shash_init K) (\<lambda>msg.
     ebind (shash_update K msg ikm) (\<lambda>msg.
     shash_final K salt msg)))))"

text \<open>One iteration of the loop of \<open>hkdf_expand\<close>, up to \<open>T(i)\<close>.\<close>

definition hkdf_block ::
  "'t kenv \<Rightarrow> bytes \<Rightarrow> bytes \<Rightarrow> bytes \<Rightarrow> u8 \<Rightarrow> ('t, 'z) crypto_state_scheme \<Rightarrow> bytes kresult \<times> ('t, 'z) crypto_state_scheme" where
  "hkdf_block K prk info t counter =
     ebind (shash_init K) (\<lambda>msg.
     ebind (if counter > 1 then shash_update K msg t else (\<lambda>s. (Inr msg, s))) (\<lambda>msg.
     ebind (if info \<noteq> [] then shash_update K msg info else (\<lambda>s. (Inr msg, s))) (\<lambda>msg.
     ebind (shash_update K msg [counter]) (\<lambda>msg.
     shash_final K prk msg))))"

function hkdf_expand_loop ::
  "'t kenv \<Rightarrow> bytes \<Rightarrow> bytes \<Rightarrow> nat \<Rightarrow> bytes \<Rightarrow> u8 \<Rightarrow> nat \<Rightarrow> bytes \<Rightarrow> ('t, 'z) crypto_state_scheme \<Rightarrow>
   bytes kresult \<times> ('t, 'z) crypto_state_scheme" where
  "hkdf_expand_loop K prk info okm_len t counter pos okm s =
     (if pos < okm_len then
        (case hkdf_block K prk info t counter s of
           (Inl e, s') \<Rightarrow> (Inl e, s')
         | (Inr t', s') \<Rightarrow>
             let copy_len = min (okm_len - pos) 32 in
             hkdf_expand_loop K prk info okm_len t' (counter + 1) (pos + copy_len)
               (okm @ take copy_len t') s')
      else (Inr okm, s))"
  by pat_completeness auto
termination
  by (relation "measure (\<lambda>(K, prk, info, okm_len, t, counter, pos, okm, s). okm_len - pos)") auto

declare hkdf_expand_loop.simps [simp del]

definition hkdf_expand ::
  "'t kenv \<Rightarrow> bytes \<Rightarrow> bytes \<Rightarrow> nat \<Rightarrow> ('t, 'z) crypto_state_scheme \<Rightarrow> bytes kresult \<times> ('t, 'z) crypto_state_scheme" where
  "hkdf_expand K prk info okm_len s =
     (if okm_len > 255 * 32 then (Inl EINVAL, s)
      else
        ebind (crypto_alloc_shash K) (\<lambda>_.
        ebind (kmalloc K) (\<lambda>_.
        ebind (shash_setkey K) (\<lambda>_.
        hkdf_expand_loop K prk info okm_len (zeros 32) 1 0 []))) s)"

text \<open>RFC 5869, section 2.3, with the HMAC of the environment.\<close>

fun rfc5869_T :: "(bytes \<Rightarrow> bytes \<Rightarrow> bytes) \<Rightarrow> bytes \<Rightarrow> bytes \<Rightarrow> nat \<Rightarrow> bytes" where
  "rfc5869_T hmac prk info 0 = []"
| "rfc5869_T hmac prk info (Suc i) = hmac prk (rfc5869_T hmac prk info i @ info @ [of_nat (Suc i)])"

definition rfc5869_expand :: "(bytes \<Rightarrow> bytes \<Rightarrow> bytes) \<Rightarrow> bytes \<Rightarrow> bytes \<Rightarrow> nat \<Rightarrow> bytes" where
  "rfc5869_expand hmac prk info L =
     take L (concat (map (rfc5869_T hmac prk info) [1..<Suc ((L + 31) div 32)]))"

section \<open>Frame: only the call counter of the environment moves\<close>

definition time_only :: "(('t, 'z) crypto_state_scheme \<Rightarrow> 'a \<times> ('t, 'z) crypto_state_scheme) \<Rightarrow> bool" where
  "time_only m \<longleftrightarrow> (\<forall>s. \<exists>n. snd (m s) = s\<lparr>now := n\<rparr>)"

lemma time_onlyD: "time_only m \<Longrightarrow> m s = (r, s') \<Longrightarrow> \<exists>n. s' = s\<lparr>now := n\<rparr>"
  unfolding time_only_def by (metis snd_conv)

lemma time_only_ext [intro]: "time_only (ext f)"
  by (auto simp: time_only_def ext_def)

lemma time_only_return [intro]: "time_only (\<lambda>s. (r, s))"
proof -
  have "s = s\<lparr>now := now s\<rparr>" for s :: "('t, 'z) crypto_state_scheme" by simp
  then show ?thesis unfolding time_only_def by (metis snd_conv)
qed

lemma time_only_ebind [intro]:
  assumes "time_only m" and f: "\<And>a. time_only (f a)"
  shows "time_only (ebind m f)"
  unfolding time_only_def
proof
  fix s
  obtain r s1 where m: "m s = (r, s1)" by (cases "m s")
  then obtain n where n: "s1 = s\<lparr>now := n\<rparr>" using time_onlyD [OF assms(1)] by blast
  show "\<exists>n. snd (ebind m f s) = s\<lparr>now := n\<rparr>"
  proof (cases r)
    case (Inl e)
    with m n show ?thesis by (auto simp: ebind_def)
  next
    case (Inr a)
    obtain n' where "snd (f a s1) = s1\<lparr>now := n'\<rparr>"
      using f [of a] unfolding time_only_def by blast
    with m n Inr show ?thesis by (auto simp: ebind_def)
  qed
qed

lemma time_only_calls [intro, simp]:
  "time_only (crypto_alloc_shash K)" "time_only (kmalloc K)" "time_only (shash_call K v)"
  by (auto simp: time_only_def ext_def crypto_alloc_shash_def kmalloc_def shash_call_def)

lemma time_only_extract [intro]: "time_only (hkdf_extract K salt ikm)"
  unfolding hkdf_extract_def by (intro time_only_ebind) auto

lemma time_only_block [intro]: "time_only (hkdf_block K prk info t counter)"
  unfolding hkdf_block_def by (intro time_only_ebind) auto

lemma hkdf_expand_loop_time:
  "\<exists>n. snd (hkdf_expand_loop K prk info L t c pos okm s) = s\<lparr>now := n\<rparr>"
proof (induction K prk info L t c pos okm s rule: hkdf_expand_loop.induct)
  case (1 K prk info L t c pos okm s)
  obtain r s1 where b: "hkdf_block K prk info t c s = (r, s1)"
    by (cases "hkdf_block K prk info t c s")
  obtain n where n: "s1 = s\<lparr>now := n\<rparr>" using time_onlyD [OF time_only_block b] by blast
  show ?case
  proof (cases "pos < L")
    case False
    then have "snd (hkdf_expand_loop K prk info L t c pos okm s) = s\<lparr>now := now s\<rparr>"
      by (subst hkdf_expand_loop.simps) simp
    then show ?thesis by (rule exI)
  next
    case True
    show ?thesis
    proof (cases r)
      case (Inl e)
      with True b n show ?thesis by (subst hkdf_expand_loop.simps) auto
    next
      case (Inr t')
      with "1.IH" True b obtain n' where
        "snd (hkdf_expand_loop K prk info L t' (c + 1) (pos + min (L - pos) 32)
                (okm @ take (min (L - pos) 32) t') s1) = s1\<lparr>now := n'\<rparr>"
        by metis
      with True b Inr n show ?thesis by (subst hkdf_expand_loop.simps) (auto simp: Let_def)
    qed
  qed
qed

lemma time_only_expand [intro]: "time_only (hkdf_expand K prk info L)"
proof -
  have loop: "time_only (hkdf_expand_loop K prk info L (zeros 32) 1 0 [])"
    unfolding time_only_def using hkdf_expand_loop_time by blast
  have "time_only (ebind (crypto_alloc_shash K) (\<lambda>_. ebind (kmalloc K) (\<lambda>_.
          ebind (shash_setkey K) (\<lambda>_. hkdf_expand_loop K prk info L (zeros 32) 1 0 []))))"
    using loop by (intro time_only_ebind) auto
  then show ?thesis
    using time_only_return unfolding time_only_def hkdf_expand_def by auto
qed

section \<open>HKDF computes RFC 5869\<close>

lemma shash_call_value: "shash_call K v s = (Inr x, s') \<Longrightarrow> x = v"
  by (auto simp: shash_call_def ext_def split: sum.splits)

lemma hkdf_extract_value:
  assumes "hkdf_extract K salt ikm s = (Inr prk, s')"
  shows "prk = k_hmac_sha256 K salt ikm"
  using assms unfolding hkdf_extract_def
  by (elim ebind_InrE) (auto dest!: shash_call_value)

lemma hkdf_block_value:
  assumes "hkdf_block K prk info t counter s = (Inr t', s')"
  shows "t' = k_hmac_sha256 K prk ((if counter > 1 then t else []) @ info @ [counter])"
  using assms unfolding hkdf_block_def
  by (elim ebind_InrE) (auto dest!: shash_call_value split: if_splits)

lemma available_calls:
  assumes "shash_available K"
  shows "crypto_alloc_shash K s = (ok, s\<lparr>now := Suc (now s)\<rparr>)"
    and "kmalloc K s = (ok, s\<lparr>now := Suc (now s)\<rparr>)"
    and "shash_call K v s = (Inr v, s\<lparr>now := Suc (now s)\<rparr>)"
  using assms
  by (simp_all add: shash_available_def crypto_alloc_shash_def kmalloc_def shash_call_def ext_def)

lemma available_ebind: "m s = (Inr a, s') \<Longrightarrow> \<not> failed (fst (f a s')) \<Longrightarrow> \<not> failed (fst (ebind m f s))"
  by simp

lemma hkdf_extract_available: "shash_available K \<Longrightarrow> \<not> failed (fst (hkdf_extract K salt ikm s))"
  by (simp add: hkdf_extract_def ebind_def available_calls)

lemma hkdf_block_available: "shash_available K \<Longrightarrow> \<not> failed (fst (hkdf_block K prk info t c s))"
  by (simp add: hkdf_block_def ebind_def available_calls)

lemma hkdf_expand_loop_available:
  "shash_available K \<Longrightarrow> \<not> failed (fst (hkdf_expand_loop K prk info L t c pos okm s))"
proof (induction K prk info L t c pos okm s rule: hkdf_expand_loop.induct)
  case (1 K prk info L t c pos okm s)
  obtain r s1 where b: "hkdf_block K prk info t c s = (r, s1)"
    by (cases "hkdf_block K prk info t c s")
  with hkdf_block_available [OF "1.prems", of prk info t c s] obtain t' where "r = Inr t'"
    by (cases r) auto
  with 1 b show ?case by (subst hkdf_expand_loop.simps) (auto simp: Let_def)
qed

lemma hkdf_expand_available:
  "shash_available K \<Longrightarrow> L \<le> 255 * 32 \<Longrightarrow> \<not> failed (fst (hkdf_expand K prk info L s))"
  by (simp add: hkdf_expand_def ebind_def available_calls hkdf_expand_loop_available)

lemma length_rfc5869_T: "hmac_ok K \<Longrightarrow> 0 < i \<Longrightarrow> length (rfc5869_T (k_hmac_sha256 K) prk info i) = 32"
  by (cases i) (auto simp: hmac_ok_def)

lemma length_rfc5869_blocks:
  "hmac_ok K \<Longrightarrow> length (concat (map (rfc5869_T (k_hmac_sha256 K) prk info) [1..<Suc i])) = 32 * i"
  by (induction i) (auto simp: length_rfc5869_T hmac_ok_def)

text \<open>
  The state of the loop after \<open>i\<close> blocks: the counter is \<open>i + 1\<close>, \<open>t\<close> is \<open>T(i)\<close>, and the output
  holds the first \<open>pos\<close> bytes of \<open>T(1) | ... | T(i)\<close>.  The \<open>u8\<close> counter does not wrap, because
  the length was checked against \<open>255 * 32\<close>.
\<close>

lemma hkdf_expand_loop_rfc:
  assumes "hmac_ok K" and L: "L \<le> 255 * 32"
    and "hkdf_expand_loop K prk info L t (of_nat (Suc i)) (min L (32 * i)) okm s = (Inr r, s')"
    and "0 < i \<Longrightarrow> t = rfc5869_T (k_hmac_sha256 K) prk info i"
    and "okm = take L (concat (map (rfc5869_T (k_hmac_sha256 K) prk info) [1..<Suc i]))"
    and "0 < i \<Longrightarrow> 32 * (i - 1) < L"
  shows "r = rfc5869_expand (k_hmac_sha256 K) prk info L"
  using assms(3-)
proof (induction "L - 32 * i" arbitrary: i t okm s rule: less_induct)
  case less
  let ?T = "rfc5869_T (k_hmac_sha256 K) prk info"
  show ?case
  proof (cases "32 * i < L")
    case False
    with less.prems(1) have "r = okm" by (simp add: hkdf_expand_loop.simps)
    moreover have "i = (L + 31) div 32"
      using False less.prems(4) by (cases i) auto
    ultimately show ?thesis using less.prems(3) by (simp add: rfc5869_expand_def)
  next
    case True
    have i: "Suc i \<le> 255" using True L by simp
    let ?c = "of_nat (Suc i) :: u8"
    have "unat ?c = Suc i" using i by (simp add: unat_of_nat del: of_nat_Suc)
    then have c: "1 < ?c \<longleftrightarrow> 0 < i" by (simp add: word_less_nat_alt del: of_nat_Suc)
    obtain rb s1 where b: "hkdf_block K prk info t ?c s = (rb, s1)"
      by (cases "hkdf_block K prk info t ?c s")
    with less.prems(1) True obtain t' where t': "rb = Inr t'"
      by (cases rb) (auto simp: hkdf_expand_loop.simps min_def)
    have tT: "t' = ?T (Suc i)"
      using hkdf_block_value [OF b [unfolded t']] less.prems(2) c by (cases "0 < i") auto
    let ?n = "min (L - 32 * i) 32"
    have step: "hkdf_expand_loop K prk info L t' (of_nat (Suc (Suc i))) (min L (32 * Suc i))
                  (okm @ take ?n t') s1 = (Inr r, s')"
    proof -
      have "min L (32 * i) = 32 * i" "32 * i + ?n = min L (32 * Suc i)"
        using True unfolding min_def by arith+
      moreover have "?c + 1 = of_nat (Suc (Suc i))" by simp
      ultimately show ?thesis
        using less.prems(1) True b t' by (simp add: hkdf_expand_loop.simps [of K prk info L t] Let_def)
    qed
    have okm: "okm @ take ?n t' = take L (concat (map ?T [1..<Suc (Suc i)]))"
      using less.prems(3) True tT length_rfc5869_blocks [OF assms(1), of prk info i]
        length_rfc5869_T [OF assms(1), of "Suc i" prk info]
      by (simp add: min_def)
    show ?thesis
      by (rule less.hyps [OF _ step]) (use True tT okm in simp_all)
  qed
qed

lemma hkdf_expand_value:
  assumes "hmac_ok K" "L \<le> 255 * 32" "hkdf_expand K prk info L s = (Inr okm, s')"
  shows "okm = rfc5869_expand (k_hmac_sha256 K) prk info L"
proof -
  from assms(2,3) obtain s1 where
    "hkdf_expand_loop K prk info L (zeros 32) 1 0 [] s1 = (Inr okm, s')"
    unfolding hkdf_expand_def by (auto elim!: ebind_InrE split: if_splits)
  then have "hkdf_expand_loop K prk info L (zeros 32) (of_nat (Suc 0)) (min L (32 * 0)) [] s1
      = (Inr okm, s')" by simp
  then show ?thesis by (rule hkdf_expand_loop_rfc [OF assms(1,2)]) simp_all
qed

lemma length_rfc5869_expand:
  "hmac_ok K \<Longrightarrow> length (rfc5869_expand (k_hmac_sha256 K) prk info L) = L"
proof -
  assume "hmac_ok K"
  then have "length (concat (map (rfc5869_T (k_hmac_sha256 K) prk info) [1..<Suc ((L + 31) div 32)]))
      = 32 * ((L + 31) div 32)" by (rule length_rfc5869_blocks)
  then show ?thesis by (simp add: rfc5869_expand_def del: upt_Suc)
qed

text \<open>
  C13. \<open>hkdf_expand\<close> (crypto.c) is HKDF-Expand of RFC 5869.  When no allocation or hash call of the
  kernel fails and the HMAC has 32-byte digests, it returns, for every request of at most
  255 * 32 bytes, the first \<open>L\<close> bytes of \<open>T(1) | T(2) | ...\<close>, however many loop iterations that
  takes; a longer request is refused with \<open>EINVAL\<close>.
\<close>

theorem hkdf_expand_is_rfc5869:
  assumes "hmac_ok K" and "shash_available K"
  shows "fst (hkdf_expand K prk info L s) =
    (if L \<le> 255 * 32 then Inr (rfc5869_expand (k_hmac_sha256 K) prk info L) else Inl EINVAL)"
proof (cases "L \<le> 255 * 32")
  case True
  obtain r s' where r: "hkdf_expand K prk info L s = (r, s')"
    by (cases "hkdf_expand K prk info L s")
  with hkdf_expand_available [OF assms(2) True, of prk info s] obtain okm where "r = Inr okm"
    by (cases r) auto
  with r True hkdf_expand_value [OF assms(1) True] show ?thesis by simp
next
  case False
  then show ?thesis by (simp add: hkdf_expand_def)
qed

theorem hkdf_expand_is_rfc5869_witness:
  "hmac_ok demo_env \<and> shash_available demo_env \<and>
   fst (hkdf_expand demo_env [1, 2] [3] 70 (initial_crypto_state :: bytes crypto_state)) =
     Inr (rfc5869_expand (k_hmac_sha256 demo_env) [1, 2] [3] 70)"
  using hkdf_expand_is_rfc5869 [OF demo_env_hmac demo_env_shash, of "[1, 2]" "[3]" 70] demo_env_ok
  by simp

end
