(* ===== verification/Crypto_Layer.thy ===== *)
theory Crypto_Layer
  imports Hkdf
begin

text \<open>
  \<open>comms/crypto.c\<close> above HKDF: session key derivation, installation of the master key, AES-256-GCM
  encryption and decryption of one event, initialisation and shutdown.  \<open>photon_rotate_key\<close> logs
  an event, so it is in the theory \<open>Key_Rotation\<close>.  Wiping of local (stack and heap) buffers is
  not observable in the model and is left out; wiping of the static key buffers is modelled.
\<close>

section \<open>Keys\<close>

definition photon_get_rotation_number :: "('t, 'z) crypto_state_scheme \<Rightarrow> u64" where
  "photon_get_rotation_number s = g_rotation_counter s"

definition photon_has_key :: "('t, 'z) crypto_state_scheme \<Rightarrow> bool" where
  "photon_has_key s = g_key_set s"

definition verify_crypto_transform :: "('t, 'z) crypto_state_scheme \<Rightarrow> unit kresult" where
  "verify_crypto_transform s =
     (if g_tfm s = None then Inl EINVAL
      else if \<not> g_key_set s then Inl ENOKEY
      else ok)"

text \<open>\<open>snprintf(info, 64, "photon-ring-v1-%llu", rotation_num)\<close>: the text, cut to the buffer.\<close>

definition info_string :: "u64 \<Rightarrow> bytes" where
  "info_string rotation_num =
     char_bytes (''photon-ring-v1-'' @ dec_digits (unat rotation_num))"

definition snprintf_info :: "u64 \<Rightarrow> bytes" where
  "snprintf_info rotation_num =
     (let full = info_string rotation_num; info = take 63 full; info_len = length full
      in take info_len info)"

definition photon_derive_session_key ::
  "'t kenv \<Rightarrow> u64 \<Rightarrow> ('t, 'z) crypto_state_scheme \<Rightarrow> (bytes kresult \<times> ('t, 'z) crypto_state_scheme) option" where
  "photon_derive_session_key K rotation_num s =
     (if \<not> g_key_set s then Some (Inl ENOKEY, s)
      else do {
        s \<leftarrow> mutex_lock s;
        (case hkdf_extract K (le_word 8 rotation_num) (g_master_key s) s of
           (Inl e, s) \<Rightarrow> Some (Inl e, mutex_unlock s)
         | (Inr prk, s) \<Rightarrow>
             (case hkdf_expand K prk (snprintf_info rotation_num) PHOTON_KEY_SIZE s of
                (r, s) \<Rightarrow> Some (r, mutex_unlock s)))
      })"

definition crypto_aead_setkey ::
  "'t kenv \<Rightarrow> bytes \<Rightarrow> ('t, 'z) crypto_state_scheme \<Rightarrow> unit kresult \<times> ('t, 'z) crypto_state_scheme" where
  "crypto_aead_setkey K key s =
     (case g_tfm s of
        None \<Rightarrow> (Inl EINVAL, s)
      | Some t \<Rightarrow> (case k_aead_setkey K (now s) key t of
          (r, t') \<Rightarrow> (r, s\<lparr>now := Suc (now s), g_tfm := Some t'\<rparr>)))"

definition crypto_aead_setauthsize ::
  "'t kenv \<Rightarrow> nat \<Rightarrow> ('t, 'z) crypto_state_scheme \<Rightarrow> unit kresult \<times> ('t, 'z) crypto_state_scheme" where
  "crypto_aead_setauthsize K n s =
     (case g_tfm s of
        None \<Rightarrow> (Inl EINVAL, s)
      | Some t \<Rightarrow> (case k_aead_setauthsize K (now s) n t of
          (r, t') \<Rightarrow> (r, s\<lparr>now := Suc (now s), g_tfm := Some t'\<rparr>)))"

text \<open>The wiping of both keys on the two last error paths.\<close>

definition forget_keys :: "('t, 'z) crypto_state_scheme \<Rightarrow> ('t, 'z) crypto_state_scheme" where
  "forget_keys s = s\<lparr>g_master_key := zeros PHOTON_KEY_SIZE,
     g_session_key := zeros PHOTON_KEY_SIZE, g_key_set := False\<rparr>"

definition photon_set_encryption_key ::
  "'t kenv \<Rightarrow> bytes option \<Rightarrow> ('t, 'z) crypto_state_scheme \<Rightarrow>
   (unit kresult \<times> ('t, 'z) crypto_state_scheme) option" where
  "photon_set_encryption_key K key s =
     (case key of
        None \<Rightarrow> Some (Inl EINVAL, s)
      | Some k \<Rightarrow>
          if g_tfm s = None then Some (Inl EINVAL, s)
          else do {
            s \<leftarrow> mutex_lock s;
            let s = mutex_unlock (s\<lparr>g_master_key := take PHOTON_KEY_SIZE k, g_key_set := True\<rparr>);
            (r, s) \<leftarrow> photon_derive_session_key K 0 s;
            (case r of
               Inl e \<Rightarrow> do {
                 s \<leftarrow> mutex_lock s;
                 Some (Inl e, mutex_unlock
                   (s\<lparr>g_master_key := zeros PHOTON_KEY_SIZE, g_key_set := False\<rparr>))
               }
             | Inr derived_key \<Rightarrow> do {
                 s \<leftarrow> mutex_lock s;
                 let s = s\<lparr>g_session_key := derived_key\<rparr>;
                 (case crypto_aead_setkey K derived_key s of
                    (Inl e, s) \<Rightarrow> Some (Inl e, mutex_unlock (forget_keys s))
                  | (Inr _, s) \<Rightarrow>
                      (case crypto_aead_setauthsize K PHOTON_TAG_SIZE s of
                         (Inl e, s) \<Rightarrow> Some (Inl e, mutex_unlock (forget_keys s))
                       | (Inr _, s) \<Rightarrow> Some (ok, mutex_unlock (s\<lparr>g_rotation_counter := 0\<rparr>))))
               })
          })"

section \<open>Encryption and decryption of an event\<close>

definition photon_encrypt_event ::
  "'t kenv \<Rightarrow> photon_event \<Rightarrow> photon_encrypted_msg \<Rightarrow> ('t, 'z) crypto_state_scheme \<Rightarrow>
   photon_encrypted_msg kresult \<times> ('t, 'z) crypto_state_scheme" where
  "photon_encrypt_event K event enc_msg s =
     (case verify_crypto_transform s of
        Inl e \<Rightarrow> (Inl e, s)
      | Inr _ \<Rightarrow>
          let (plaintext, s) = kmalloc K s;
              (ciphertext, s) = kmalloc K s
          in if failed plaintext \<or> failed ciphertext then (Inl ENOMEM, s)
          else
            let (iv, s) = ext (\<lambda>n. k_random K n PHOTON_IV_SIZE) s;
                (req, s) = kmalloc K s
            in if failed req then (Inl ENOMEM, s)
            else
              let (r, s) = ext (\<lambda>n. k_aead_encrypt K n (the (g_tfm s)) iv
                                     (take sizeof_photon_event (event_bytes event))) s
              in case r of
                   Inl e \<Rightarrow> (Inl e, s)
                 | Inr ct \<Rightarrow>
                     (Inr (enc_msg\<lparr>msg_iv := iv,
                        msg_sequence_num := sequence_num event,
                        msg_encrypted_len := of_nat sizeof_photon_event,
                        msg_encrypted_data := take sizeof_photon_event ct,
                        msg_auth_tag := take PHOTON_TAG_SIZE (drop sizeof_photon_event ct)\<rparr>),
                      s\<lparr>g_encryptions := g_encryptions s + 1\<rparr>))"

text \<open>
  \<open>adjacent\<close> is the memory behind the plaintext buffer: the final \<open>memcpy\<close> copies
  \<open>sizeof(struct photon_event)\<close> bytes whatever the length of that buffer is.
\<close>

definition photon_decrypt_event ::
  "'t kenv \<Rightarrow> bytes \<Rightarrow> photon_encrypted_msg \<Rightarrow> ('t, 'z) crypto_state_scheme \<Rightarrow>
   (photon_event kresult \<times> ('t, 'z) crypto_state_scheme) option" where
  "photon_decrypt_event K adjacent enc_msg s =
     (case verify_crypto_transform s of
        Inl e \<Rightarrow> Some (Inl e, s)
      | Inr _ \<Rightarrow>
          let plaintext_len = unat (msg_encrypted_len enc_msg);
              (ciphertext, s) = kmalloc K s;
              (plaintext, s) = kmalloc K s
          in if failed ciphertext \<or> failed plaintext then Some (Inl ENOMEM, s)
          else
            let ct = take plaintext_len (msg_encrypted_data enc_msg)
                       @ take PHOTON_TAG_SIZE (msg_auth_tag enc_msg);
                (req, s) = kmalloc K s
            in if failed req then Some (Inl ENOMEM, s)
            else do {
              s \<leftarrow> mutex_lock s;
              (case ext (\<lambda>n. k_aead_decrypt K n (the (g_tfm s)) (msg_iv enc_msg) ct) s of
                 (Inl e, s) \<Rightarrow> Some (Inl e, mutex_unlock s)
               | (Inr pt, s) \<Rightarrow>
                   Some (Inr (event_of_bytes (take sizeof_photon_event (pt @ adjacent))),
                         (mutex_unlock s)\<lparr>g_decryptions := g_decryptions s + 1\<rparr>))
            })"

section \<open>Initialisation and shutdown\<close>

definition crypto_layer_init ::
  "'t kenv \<Rightarrow> ('t, 'z) crypto_state_scheme \<Rightarrow> unit kresult \<times> ('t, 'z) crypto_state_scheme" where
  "crypto_layer_init K s =
     (case ext (k_alloc_aead K) s of
        (Inl e, s) \<Rightarrow> (Inl e, s\<lparr>g_tfm := None\<rparr>)
      | (Inr t, s) \<Rightarrow> (ok, s\<lparr>g_tfm := Some t\<rparr>))"

definition crypto_layer_exit ::
  "('t, 'z) crypto_state_scheme \<Rightarrow> ('t, 'z) crypto_state_scheme option" where
  "crypto_layer_exit s = do {
     s \<leftarrow> (if g_key_set s
           then do { s \<leftarrow> mutex_lock s; Some (mutex_unlock (forget_keys s)) }
           else Some s);
     Some (if g_tfm s \<noteq> None then s\<lparr>g_tfm := None\<rparr> else s)
   }"

section \<open>Derivation\<close>

text \<open>The session key of a rotation number, from the words of the specification in \<open>crypto.h\<close>.\<close>

definition session_key_spec :: "(bytes \<Rightarrow> bytes \<Rightarrow> bytes) \<Rightarrow> bytes \<Rightarrow> u64 \<Rightarrow> bytes" where
  "session_key_spec hmac master rotation_num =
     rfc5869_expand hmac (hmac (le_word 8 rotation_num) master) (info_string rotation_num) PHOTON_KEY_SIZE"

lemma length_session_key_spec: "hmac_ok K \<Longrightarrow> length (session_key_spec (k_hmac_sha256 K) m rot) = 32"
  by (simp add: session_key_spec_def length_rfc5869_expand)

lemma length_info_string: "length (info_string rot) \<le> 35"
  using length_dec_digits_u64 [of rot] by (simp add: info_string_def)

lemma snprintf_info_complete: "snprintf_info rot = info_string rot"
  using length_info_string [of rot] by (simp add: snprintf_info_def Let_def)

lemma mutex_lock_free: "\<not> crypto_mutex s \<Longrightarrow> mutex_lock s = Some (s\<lparr>crypto_mutex := True\<rparr>)"
  by (simp add: mutex_lock_def)

lemma mutex_lock_held: "crypto_mutex s \<Longrightarrow> mutex_lock s = None"
  by (simp add: mutex_lock_def)

lemma mutex_idle: "\<not> crypto_mutex s \<Longrightarrow> s\<lparr>crypto_mutex := False\<rparr> = s"
  by (cases s) simp

text \<open>With the mutex free the derivation returns, releases the mutex and changes nothing else.\<close>

lemma derive_returns:
  assumes "g_key_set s" "\<not> crypto_mutex s"
  obtains r n where "photon_derive_session_key K rot s = Some (r, s\<lparr>now := n\<rparr>)"
    and "\<And>key. hmac_ok K \<Longrightarrow> r = Inr key \<Longrightarrow>
           key = session_key_spec (k_hmac_sha256 K) (g_master_key s) rot"
    and "shash_available K \<Longrightarrow> \<not> failed r"
proof -
  let ?s = "s\<lparr>crypto_mutex := True\<rparr>"
  obtain re s1 where e: "hkdf_extract K (le_word 8 rot) (g_master_key s) ?s = (re, s1)"
    by (cases "hkdf_extract K (le_word 8 rot) (g_master_key s) ?s")
  obtain n where n: "s1 = ?s\<lparr>now := n\<rparr>" using time_onlyD [OF time_only_extract e] by blast
  show thesis
  proof (cases re)
    case (Inl err)
    have "photon_derive_session_key K rot s = Some (Inl err, s\<lparr>now := n\<rparr>)"
      using assms e n Inl
      by (simp add: photon_derive_session_key_def mutex_lock_free mutex_unlock_def mutex_idle)
    moreover have "\<not> shash_available K"
      using hkdf_extract_available [of K "le_word 8 rot" "g_master_key s" ?s] e Inl by auto
    ultimately show thesis using that [of "Inl err" n] by simp
  next
    case (Inr prk)
    have prk: "prk = k_hmac_sha256 K (le_word 8 rot) (g_master_key s)"
      using hkdf_extract_value e Inr by blast
    obtain r s2 where x: "hkdf_expand K prk (snprintf_info rot) 32 s1 = (r, s2)"
      by (cases "hkdf_expand K prk (snprintf_info rot) 32 s1")
    obtain n' where n': "s2 = s1\<lparr>now := n'\<rparr>" using time_onlyD [OF time_only_expand x] by blast
    have "photon_derive_session_key K rot s = Some (r, s\<lparr>now := n'\<rparr>)"
      using assms e n Inr x n'
      by (simp add: photon_derive_session_key_def mutex_lock_free mutex_unlock_def mutex_idle)
    moreover have "key = session_key_spec (k_hmac_sha256 K) (g_master_key s) rot"
      if "hmac_ok K" "r = Inr key" for key
      using hkdf_expand_value [OF that(1) _ x [unfolded that(2)]]
      by (simp add: session_key_spec_def prk snprintf_info_complete)
    moreover have "shash_available K \<Longrightarrow> \<not> failed r"
      using hkdf_expand_available [of K 32 prk "snprintf_info rot" s1] x by auto
    ultimately show thesis using that by blast
  qed
qed

lemma derive_ex:
  "g_key_set s \<Longrightarrow> \<not> crypto_mutex s \<Longrightarrow>
     \<exists>r n. photon_derive_session_key K rot s = Some (r, s\<lparr>now := n\<rparr>) \<and>
       (\<forall>key. hmac_ok K \<longrightarrow> r = Inr key \<longrightarrow>
          key = session_key_spec (k_hmac_sha256 K) (g_master_key s) rot) \<and>
       (shash_available K \<longrightarrow> \<not> failed r)"
  by (rule derive_returns) blast+

lemma derive_no_key: "\<not> g_key_set s \<Longrightarrow> photon_derive_session_key K rot s = Some (Inl ENOKEY, s)"
  by (simp add: photon_derive_session_key_def)

lemma derive_deadlock:
  "g_key_set s \<Longrightarrow> crypto_mutex s \<Longrightarrow> photon_derive_session_key K rot s = None"
  by (simp add: photon_derive_session_key_def mutex_lock_held)

section \<open>The invariant of the crypto layer\<close>

text \<open>
  Between calls the mutex is free, and while a key is set the transform is keyed with the session
  key, which is the HKDF key of the master key and the current rotation number.
\<close>

definition crypto_inv ::
  "'t kenv \<Rightarrow> ('t \<Rightarrow> bytes \<Rightarrow> bool) \<Rightarrow> ('t, 'z) crypto_state_scheme \<Rightarrow> bool" where
  "crypto_inv K has_key s \<longleftrightarrow>
     \<not> crypto_mutex s \<and>
     (g_key_set s \<longrightarrow>
        (\<exists>t. g_tfm s = Some t \<and> has_key t (g_session_key s)) \<and>
        g_session_key s = session_key_spec (k_hmac_sha256 K) (g_master_key s) (g_rotation_counter s))"

lemma crypto_inv_frame:
  "crypto_inv K has_key s \<Longrightarrow> crypto_mutex s' = crypto_mutex s \<Longrightarrow> g_key_set s' = g_key_set s \<Longrightarrow>
   g_tfm s' = g_tfm s \<Longrightarrow> g_session_key s' = g_session_key s \<Longrightarrow> g_master_key s' = g_master_key s \<Longrightarrow>
   g_rotation_counter s' = g_rotation_counter s \<Longrightarrow> crypto_inv K has_key s'"
  unfolding crypto_inv_def by metis

text \<open>Installing the key: all or nothing.\<close>

lemma set_key_cases [consumes 2]:
  assumes "g_tfm s = Some t" "\<not> crypto_mutex s"
  obtains
    (installed) t' key n where "photon_set_encryption_key K (Some k) s = Some (ok,
      s\<lparr>now := n, g_tfm := Some t', g_master_key := take 32 k, g_session_key := key,
        g_key_set := True, g_rotation_counter := 0\<rparr>)"
      "hmac_ok K \<Longrightarrow> key = session_key_spec (k_hmac_sha256 K) (take 32 k) 0"
      "\<And>has_key seal unseal. aead_laws K has_key seal unseal \<Longrightarrow> has_key t' key"
  | (rejected) e t' key n where "photon_set_encryption_key K (Some k) s = Some (Inl e,
      s\<lparr>now := n, g_tfm := Some t', g_master_key := zeros 32, g_session_key := key,
        g_key_set := False\<rparr>)"
      "key = g_session_key s \<or> key = zeros 32"
proof -
  let ?s1 = "s\<lparr>g_master_key := take 32 k, g_key_set := True\<rparr>"
  obtain r n where d: "photon_derive_session_key K 0 ?s1 = Some (r, ?s1\<lparr>now := n\<rparr>)"
    and key: "\<And>key. hmac_ok K \<Longrightarrow> r = Inr key \<Longrightarrow>
                key = session_key_spec (k_hmac_sha256 K) (take 32 k) 0"
    using derive_ex [of ?s1 K 0] assms(2) by auto
  note unfold = photon_set_encryption_key_def mutex_lock_free mutex_idle d mutex_unlock_def forget_keys_def
    crypto_aead_setkey_def crypto_aead_setauthsize_def Let_def
  show thesis
  proof (cases r)
    case (Inl e)
    show thesis
      by (rule rejected [where e = e and t' = t and key = "g_session_key s" and n = n]) (use assms Inl in \<open>simp_all add: unfold\<close>)
  next
    case (Inr dk)
    obtain r1 t1 where k1: "k_aead_setkey K n dk t = (r1, t1)"
      by (cases "k_aead_setkey K n dk t")
    obtain r2 t2 where k2: "k_aead_setauthsize K (Suc n) 16 t1 = (r2, t2)"
      by (cases "k_aead_setauthsize K (Suc n) 16 t1")
    show thesis
    proof (cases r1)
      case (Inl e)
      show thesis
        by (rule rejected [where e = e and t' = t1 and key = "zeros 32" and n = "Suc n"])
          (use assms Inr k1 Inl in \<open>simp_all add: unfold\<close>)
    next
      case Inr1: (Inr u)
      show thesis
      proof (cases r2)
        case (Inl e)
        show thesis
          by (rule rejected [where e = e and t' = t2 and key = "zeros 32" and n = "Suc (Suc n)"])
            (use assms Inr k1 Inr1 k2 Inl in \<open>simp_all add: unfold\<close>)
      next
        case Inr2: (Inr v)
        have hk: "has_key t2 dk" if "aead_laws K has_key seal unseal" for has_key seal unseal
          using aead_lawsD(1,2) [OF that] k1 k2 Inr1 by simp metis
        show thesis
          by (rule installed [where t' = t2 and key = dk and n = "Suc (Suc n)"])
            (use assms Inr k1 Inr1 k2 Inr2 key hk in \<open>simp_all add: unfold\<close>)
      qed
    qed
  qed
qed

lemma set_key_invalid:
  "key = None \<or> g_tfm s = None \<Longrightarrow> photon_set_encryption_key K key s = Some (Inl EINVAL, s)"
  by (cases key) (auto simp: photon_set_encryption_key_def)

lemma set_key_invariant:
  assumes "hmac_ok K" "aead_laws K has_key seal unseal" "crypto_inv K has_key s"
    and "photon_set_encryption_key K key s = Some (r, s')"
  shows "crypto_inv K has_key s'"
proof (cases "key = None \<or> g_tfm s = None")
  case True
  with assms(3,4) show ?thesis by (simp add: set_key_invalid)
next
  case False
  then obtain k t where kt: "key = Some k" "g_tfm s = Some t" by auto
  have free: "\<not> crypto_mutex s" using assms(3) by (simp add: crypto_inv_def)
  from kt(2) free show ?thesis
  proof (cases rule: set_key_cases [where K = K and k = k])
    case (installed t' key n)
    with assms(4) kt free installed(2) [OF assms(1)] installed(3) [OF assms(2)] show ?thesis
      by (auto simp: crypto_inv_def)
  next
    case (rejected e t' key n)
    with assms(4) kt free show ?thesis by (auto simp: crypto_inv_def)
  qed
qed

section \<open>Encryption and decryption\<close>

lemma keyed_transform:
  "crypto_inv K has_key s \<Longrightarrow> g_key_set s \<Longrightarrow> verify_crypto_transform s = ok"
  by (auto simp: crypto_inv_def verify_crypto_transform_def)

lemma verify_fails: "\<not> g_key_set s \<Longrightarrow> failed (verify_crypto_transform s)"
  by (simp add: verify_crypto_transform_def)

text \<open>
  Encryption either fails, leaving the state as it was, or returns the message with every member
  but the rotation number set from the event, a fresh IV and the output of the cipher.
\<close>

lemma encrypt_cases:
  obtains
    (error) e n where "photon_encrypt_event K ev msg s = (Inl e, s\<lparr>now := n\<rparr>)"
  | (encrypted) t n n' n'' ct where "g_key_set s" "g_tfm s = Some t"
      "k_aead_encrypt K n' t (k_random K n 12) (take sizeof_photon_event (event_bytes ev)) = Inr ct"
      "photon_encrypt_event K ev msg s =
         (Inr (msg\<lparr>msg_iv := k_random K n 12, msg_sequence_num := sequence_num ev,
            msg_encrypted_len := of_nat sizeof_photon_event,
            msg_encrypted_data := take sizeof_photon_event ct,
            msg_auth_tag := take 16 (drop sizeof_photon_event ct)\<rparr>),
          s\<lparr>now := n'', g_encryptions := g_encryptions s + 1\<rparr>)"
proof (cases "verify_crypto_transform s")
  case (Inl e)
  then have "photon_encrypt_event K ev msg s = (Inl e, s\<lparr>now := now s\<rparr>)"
    by (simp add: photon_encrypt_event_def)
  then show thesis by (rule error)
next
  case (Inr u)
  then obtain t where key: "g_key_set s" and t: "g_tfm s = Some t"
    by (auto simp: verify_crypto_transform_def split: if_splits)
  note step = photon_encrypt_event_def kmalloc_def ext_def Let_def
  let ?n = "now s"
  show thesis
  proof (cases "k_kmalloc K ?n \<and> k_kmalloc K (Suc ?n) \<and> k_kmalloc K (Suc (Suc (Suc ?n)))")
    case False
    then have "\<exists>n. photon_encrypt_event K ev msg s = (Inl ENOMEM, s\<lparr>now := n\<rparr>)"
      using Inr by (auto simp: step)
    then show thesis using error by blast
  next
    case True
    let ?iv = "k_random K (Suc (Suc ?n)) 12" and ?m = "Suc (Suc (Suc (Suc ?n)))"
    show thesis
    proof (cases "k_aead_encrypt K ?m t ?iv (take sizeof_photon_event (event_bytes ev))")
      case Inl2: (Inl e)
      have "photon_encrypt_event K ev msg s = (Inl e, s\<lparr>now := Suc ?m\<rparr>)"
        using True Inr t Inl2 by (simp add: step)
      then show thesis by (rule error)
    next
      case Inr2: (Inr ct)
      show thesis
        by (rule encrypted [OF key t Inr2, of "Suc ?m"]) (use True Inr t Inr2 in \<open>simp add: step\<close>)
    qed
  qed
qed

lemma encrypt_no_key: "\<not> g_key_set s \<Longrightarrow> failed (fst (photon_encrypt_event K ev msg s))"
  by (cases rule: encrypt_cases [of K ev msg s]) simp_all

text \<open>What a successful encryption holds: the frame members are the sealed event.\<close>

lemma encrypt_value:
  assumes laws: "aead_laws K has_key seal unseal" and rnd: "random_ok K"
    and inv: "crypto_inv K has_key s" and ev: "event_ok ev"
    and enc: "photon_encrypt_event K ev msg s = (Inr m, s')"
  shows "msg_encrypted_data m @ msg_auth_tag m = seal (g_session_key s) (msg_iv m) (event_bytes ev)"
    and "length (msg_iv m) = 12" "length (msg_encrypted_data m) = 306" "length (msg_auth_tag m) = 16"
    and "msg_encrypted_len m = 306" "msg_sequence_num m = sequence_num ev"
    and "msg_rotation_num m = msg_rotation_num msg"
    and "\<exists>n. s' = s\<lparr>now := n, g_encryptions := g_encryptions s + 1\<rparr>"
proof -
  obtain t n n' n'' ct where c: "g_key_set s" "g_tfm s = Some t"
      "k_aead_encrypt K n' t (k_random K n 12) (take sizeof_photon_event (event_bytes ev)) = Inr ct"
    and m: "m = msg\<lparr>msg_iv := k_random K n 12, msg_sequence_num := sequence_num ev,
            msg_encrypted_len := of_nat sizeof_photon_event,
            msg_encrypted_data := take sizeof_photon_event ct,
            msg_auth_tag := take 16 (drop sizeof_photon_event ct)\<rparr>"
    and s': "s' = s\<lparr>now := n'', g_encryptions := g_encryptions s + 1\<rparr>"
    using enc by (cases rule: encrypt_cases [of K ev msg s]) auto
  have "has_key t (g_session_key s)" using inv c(1,2) by (auto simp: crypto_inv_def)
  moreover have "take sizeof_photon_event (event_bytes ev) = event_bytes ev"
    using length_event_bytes [OF ev] by simp
  ultimately have ct: "ct = seal (g_session_key s) (k_random K n 12) (event_bytes ev)"
    using aead_lawsD(3) [OF laws] c(3) by metis
  have len: "length ct = 306 + 16"
    using aead_lawsD(5) [OF laws] length_event_bytes [OF ev] by (simp add: ct sizeof_photon_event_value)
  show "msg_encrypted_data m @ msg_auth_tag m = seal (g_session_key s) (msg_iv m) (event_bytes ev)"
    using len unfolding ct [symmetric] m by (simp add: sizeof_photon_event_value ct [symmetric])
  show "length (msg_iv m) = 12" "length (msg_encrypted_data m) = 306" "length (msg_auth_tag m) = 16"
    "msg_encrypted_len m = 306" "msg_sequence_num m = sequence_num ev"
    "msg_rotation_num m = msg_rotation_num msg"
    "\<exists>n. s' = s\<lparr>now := n, g_encryptions := g_encryptions s + 1\<rparr>"
    using len rnd by (auto simp: m s' random_ok_def sizeof_photon_event_value)
qed

text \<open>Decryption that returns an event returns what the cipher authenticated, up to the over-read.\<close>

lemma decrypt_cases:
  assumes laws: "aead_laws K has_key seal unseal" and inv: "crypto_inv K has_key s"
    and dec: "photon_decrypt_event K adjacent m s = Some (Inr ev, s')"
  obtains pt where "g_key_set s"
    and "unseal (g_session_key s) (msg_iv m)
          (take (unat (msg_encrypted_len m)) (msg_encrypted_data m) @ take 16 (msg_auth_tag m)) = Some pt"
    and "ev = event_of_bytes (take sizeof_photon_event (pt @ adjacent))"
    and "s' = s\<lparr>now := now s', g_decryptions := g_decryptions s + 1\<rparr>"
proof -
  obtain u where v: "verify_crypto_transform s = Inr u"
    using dec by (cases "verify_crypto_transform s") (auto simp: photon_decrypt_event_def)
  then obtain t where key: "g_key_set s" and t: "g_tfm s = Some t"
    by (auto simp: verify_crypto_transform_def split: if_splits)
  have hk: "has_key t (g_session_key s)" and free: "\<not> crypto_mutex s"
    using inv key t by (auto simp: crypto_inv_def)
  let ?ct = "take (unat (msg_encrypted_len m)) (msg_encrypted_data m) @ take 16 (msg_auth_tag m)"
  from dec v t free obtain n pt where "k_aead_decrypt K n t (msg_iv m) ?ct = Inr pt"
    and "ev = event_of_bytes (take sizeof_photon_event (pt @ adjacent))"
    and "s' = s\<lparr>now := now s', g_decryptions := g_decryptions s + 1\<rparr>"
    by (auto simp: photon_decrypt_event_def kmalloc_def ext_def Let_def mutex_lock_def
        mutex_unlock_def mutex_idle split: if_splits sum.splits)
  with that key aead_lawsD(4) [OF laws hk] show thesis by blast
qed

text \<open>The allocations succeed, and the cipher decrypts what it can authenticate.\<close>

definition decrypt_available ::
  "'t kenv \<Rightarrow> ('t \<Rightarrow> bytes \<Rightarrow> bool) \<Rightarrow> (bytes \<Rightarrow> bytes \<Rightarrow> bytes \<Rightarrow> bytes option) \<Rightarrow> bool" where
  "decrypt_available K has_key unseal \<longleftrightarrow>
     (\<forall>n. k_kmalloc K n) \<and>
     (\<forall>n t k iv ct pt. has_key t k \<longrightarrow> unseal k iv ct = Some pt \<longrightarrow> k_aead_decrypt K n t iv ct = Inr pt)"

lemma demo_env_decrypt: "decrypt_available demo_env (\<lambda>t k. t = k) demo_unseal"
  by (simp add: decrypt_available_def demo_env_def)

lemma decrypt_progress:
  assumes "decrypt_available K has_key unseal" "crypto_inv K has_key s" "g_key_set s"
    and "unseal (g_session_key s) (msg_iv m)
          (take (unat (msg_encrypted_len m)) (msg_encrypted_data m) @ take 16 (msg_auth_tag m)) = Some pt"
  shows "\<exists>s'. photon_decrypt_event K adjacent m s =
           Some (Inr (event_of_bytes (take sizeof_photon_event (pt @ adjacent))), s')"
proof -
  from assms(2,3) obtain t where t: "g_tfm s = Some t" "has_key t (g_session_key s)" "\<not> crypto_mutex s"
    by (auto simp: crypto_inv_def)
  have dec: "k_aead_decrypt K n t (msg_iv m)
      (take (unat (msg_encrypted_len m)) (msg_encrypted_data m) @ take 16 (msg_auth_tag m)) = Inr pt" for n
    using assms(1,4) t(2) unfolding decrypt_available_def by blast
  have "k_kmalloc K n" for n using assms(1) by (simp add: decrypt_available_def)
  then show ?thesis
    using t dec keyed_transform [OF assms(2,3)]
    by (simp add: photon_decrypt_event_def kmalloc_def ext_def Let_def mutex_lock_free)
qed

section \<open>Properties\<close>

text \<open>
  C14. \<open>photon_set_encryption_key\<close> is all or nothing.  Called with a key on an initialised transform
  and a free mutex it returns (it does not block on its own mutex), the mutex is free again, and
  either the call succeeded, the master key is the first 32 bytes of the key, the session key is
  the HKDF key of rotation 0, the transform is keyed with it and the counter is 0; or it failed,
  no key is set and the master key is wiped.
\<close>

theorem set_encryption_key_all_or_nothing:
  assumes "hmac_ok K" "aead_laws K has_key seal unseal" "g_tfm s \<noteq> None" "\<not> crypto_mutex s"
  shows "\<exists>r s'. photon_set_encryption_key K (Some k) s = Some (r, s') \<and> \<not> crypto_mutex s' \<and>
    (if r = ok
     then g_key_set s' \<and> g_master_key s' = take 32 k \<and> g_rotation_counter s' = 0 \<and>
       g_session_key s' = session_key_spec (k_hmac_sha256 K) (take 32 k) 0 \<and>
       (\<exists>t. g_tfm s' = Some t \<and> has_key t (g_session_key s'))
     else \<not> g_key_set s' \<and> g_master_key s' = zeros 32)"
proof -
  obtain t where t: "g_tfm s = Some t" using assms(3) by blast
  from t assms(4) show ?thesis
  proof (cases rule: set_key_cases [where K = K and k = k])
    case (installed t' key n)
    with installed(2) [OF assms(1)] installed(3) [OF assms(2)] assms(4) show ?thesis by simp
  next
    case (rejected e t' key n)
    with assms(4) show ?thesis by simp
  qed
qed

definition keyless_state :: "bytes crypto_state" where
  "keyless_state = initial_crypto_state\<lparr>g_tfm := Some []\<rparr>"

theorem set_encryption_key_all_or_nothing_witness:
  "\<exists>r s'. photon_set_encryption_key demo_env (Some (zeros 32)) keyless_state = Some (r, s') \<and>
     \<not> crypto_mutex s' \<and>
    (if r = ok
     then g_key_set s' \<and> g_master_key s' = take 32 (zeros 32) \<and> g_rotation_counter s' = 0 \<and>
       g_session_key s' = session_key_spec (k_hmac_sha256 demo_env) (take 32 (zeros 32)) 0 \<and>
       (\<exists>t. g_tfm s' = Some t \<and> t = g_session_key s')
     else \<not> g_key_set s' \<and> g_master_key s' = zeros 32)"
  by (rule set_encryption_key_all_or_nothing [OF demo_env_hmac demo_env_aead])
    (simp_all add: keyless_state_def initial_crypto_state_def)

text \<open>
  C15. Decryption inverts encryption: an event that \<open>photon_encrypt_event\<close> sealed is what
  \<open>photon_decrypt_event\<close> returns for the message, whatever was in the message before, whatever lies
  behind the plaintext buffer, and however many calls were made in between, as long as the session
  key is the same.
\<close>

theorem decrypt_encrypt_roundtrip:
  assumes "aead_laws K has_key seal unseal" "random_ok K" "decrypt_available K has_key unseal"
    and "crypto_inv K has_key s" "event_ok ev"
    and "photon_encrypt_event K ev msg s = (Inr m, s1)"
    and "crypto_inv K has_key s2" "g_key_set s2" "g_session_key s2 = g_session_key s"
  shows "\<exists>s'. photon_decrypt_event K adjacent m s2 = Some (Inr ev, s')"
proof -
  note v = encrypt_value [OF assms(1,2,4,5,6)]
  have "take (unat (msg_encrypted_len m)) (msg_encrypted_data m) @ take 16 (msg_auth_tag m)
      = seal (g_session_key s2) (msg_iv m) (event_bytes ev)"
    using v assms(9) by simp
  then have "unseal (g_session_key s2) (msg_iv m)
      (take (unat (msg_encrypted_len m)) (msg_encrypted_data m) @ take 16 (msg_auth_tag m))
      = Some (event_bytes ev)"
    using aead_lawsD(6) [OF assms(1)] by simp
  from decrypt_progress [OF assms(3,7,8) this, of adjacent] show ?thesis
    using assms(5) by (simp add: length_event_bytes event_of_bytes_event_bytes)
qed

text \<open>A keyed state of the concrete environment.\<close>

definition keyed_state :: "bytes crypto_state" where
  "keyed_state = initial_crypto_state\<lparr>g_key_set := True,
     g_session_key := session_key_spec (k_hmac_sha256 demo_env) (zeros 32) 0,
     g_tfm := Some (session_key_spec (k_hmac_sha256 demo_env) (zeros 32) 0)\<rparr>"

lemma keyed_state_inv: "crypto_inv demo_env (\<lambda>t k. t = k) keyed_state"
  by (simp add: crypto_inv_def keyed_state_def initial_crypto_state_def)

lemma keyed_state_encrypts:
  "\<exists>m s1. photon_encrypt_event demo_env demo_event msg keyed_state = (Inr m, s1)"
  by (simp add: photon_encrypt_event_def verify_crypto_transform_def keyed_state_def
      initial_crypto_state_def kmalloc_def ext_def Let_def demo_env_def)

theorem decrypt_encrypt_roundtrip_witness:
  "\<exists>m s1 s2. photon_encrypt_event demo_env demo_event (k_stack demo_env 0) keyed_state = (Inr m, s1) \<and>
     photon_decrypt_event demo_env [] m keyed_state = Some (Inr demo_event, s2)"
proof -
  obtain m s1 where e: "photon_encrypt_event demo_env demo_event (k_stack demo_env 0) keyed_state = (Inr m, s1)"
    using keyed_state_encrypts by blast
  have "\<exists>s'. photon_decrypt_event demo_env [] m keyed_state = Some (Inr demo_event, s')"
    by (rule decrypt_encrypt_roundtrip [OF demo_env_aead demo_env_random demo_env_decrypt
          keyed_state_inv demo_event_ok e keyed_state_inv])
      (simp_all add: keyed_state_def)
  with e show ?thesis by blast
qed

end
