(* ===== verification/Bounded_Ring.thy ===== *)
theory Bounded_Ring
  imports Photon_Prelude
begin

text \<open>
  The two circular buffers of the kernel module (the per-CPU \<open>event_buffer\<close> of
  \<open>comms/event_manager.c\<close> and the frame ring \<open>photon_ring_buf\<close> of \<open>comms/cdev_ch.c\<close>) use the
  same scheme: an array of \<open>capacity\<close> slots, a write index \<open>head\<close>, a read index \<open>tail\<close>, one slot
  kept free to tell a full buffer from an empty one, and a counter of rejected elements.
  This theory holds the index arithmetic of that scheme, its interface as the locale
  \<open>bounded_ring\<close>, and the facts every client may use.  Both implementations are
  interpretations of the locale, in the theories that define them.
\<close>

section \<open>Index arithmetic\<close>

definition ring_len :: "nat \<Rightarrow> nat \<Rightarrow> nat \<Rightarrow> nat" where
  "ring_len cap h t = (if t \<le> h then h - t else h + cap - t)"

definition ring_list :: "'a list \<Rightarrow> nat \<Rightarrow> nat \<Rightarrow> nat \<Rightarrow> 'a list" where
  "ring_list xs cap h t = map (\<lambda>i. xs ! ((t + i) mod cap)) [0..<ring_len cap h t]"

lemma next_index: "i < cap \<Longrightarrow> Suc i mod cap = (if Suc i = cap then 0 else Suc i)"
  by auto

lemma shift_distinct: "t < cap \<Longrightarrow> 0 < j \<Longrightarrow> j < cap \<Longrightarrow> (t + j) mod cap \<noteq> t"
  for t :: nat
  by (cases "t + j < cap") (auto simp: mod_if)

lemma ring_len_bound: "h < cap \<Longrightarrow> t < cap \<Longrightarrow> ring_len cap h t < cap"
  by (auto simp: ring_len_def)

lemma ring_len_empty: "h < cap \<Longrightarrow> t < cap \<Longrightarrow> ring_len cap h t = 0 \<longleftrightarrow> h = t"
  by (auto simp: ring_len_def)

lemma ring_len_full:
  "h < cap \<Longrightarrow> t < cap \<Longrightarrow> (h + 1) mod cap = t \<longleftrightarrow> ring_len cap h t = cap - 1"
  by (auto simp: ring_len_def next_index)

lemma ring_len_push:
  "h < cap \<Longrightarrow> t < cap \<Longrightarrow> (h + 1) mod cap \<noteq> t \<Longrightarrow>
     ring_len cap ((h + 1) mod cap) t = Suc (ring_len cap h t)"
  by (auto simp: ring_len_def next_index split: if_splits)

lemma ring_len_pop:
  "h < cap \<Longrightarrow> t < cap \<Longrightarrow> h \<noteq> t \<Longrightarrow>
     ring_len cap h t = Suc (ring_len cap h ((t + 1) mod cap))"
  by (auto simp: ring_len_def next_index split: if_splits)

lemma ring_head_index: "h < cap \<Longrightarrow> t < cap \<Longrightarrow> (t + ring_len cap h t) mod cap = h"
  by (auto simp: ring_len_def)

lemma ring_index_distinct:
  assumes "h < cap" "t < cap" "i < ring_len cap h t"
  shows "(t + i) mod cap \<noteq> h"
proof -
  have lt: "t + i < 2 * cap" using assms ring_len_bound [of h cap t] by simp
  show ?thesis
  proof (cases "t + i < cap")
    case True
    with assms show ?thesis by (auto simp: ring_len_def split: if_splits)
  next
    case False
    with lt have "(t + i) mod cap = t + i - cap" by (simp add: mod_if)
    with assms False show ?thesis by (auto simp: ring_len_def split: if_splits)
  qed
qed

lemma length_ring_list [simp, ring_simps]: "length (ring_list xs cap h t) = ring_len cap h t"
  by (simp add: ring_list_def)

lemma ring_list_push:
  assumes "length xs = cap" "h < cap" "t < cap" "(h + 1) mod cap \<noteq> t"
  shows "ring_list (xs[h := x]) cap ((h + 1) mod cap) t = ring_list xs cap h t @ [x]"
proof -
  have old: "map (\<lambda>i. xs[h := x] ! ((t + i) mod cap)) [0..<ring_len cap h t]
             = map (\<lambda>i. xs ! ((t + i) mod cap)) [0..<ring_len cap h t]"
    by (auto simp: nth_list_update_neq dest!: ring_index_distinct [OF assms(2,3)])
  have new: "xs[h := x] ! ((t + ring_len cap h t) mod cap) = x"
    using assms by (simp add: ring_head_index)
  show ?thesis
    unfolding ring_list_def ring_len_push [OF assms(2-4)] using old new by simp
qed

lemma ring_list_pop:
  assumes "h < cap" "t < cap" "h \<noteq> t"
  shows "ring_list xs cap h t = xs ! t # ring_list xs cap h ((t + 1) mod cap)"
proof -
  let ?m = "ring_len cap h ((t + 1) mod cap)"
  have shift: "(t + Suc i) mod cap = ((t + 1) mod cap + i) mod cap" for i
    by (simp add: mod_add_left_eq)
  have "ring_list xs cap h t
        = xs ! (t mod cap) # map (\<lambda>i. xs ! ((t + Suc i) mod cap)) [0..<?m]"
    unfolding ring_list_def ring_len_pop [OF assms]
    by (simp add: upt_conv_Cons map_Suc_upt [symmetric] o_def del: upt_Suc)
  with assms show ?thesis unfolding shift by (simp add: ring_list_def)
qed

text \<open>Overwriting the slot that was just read does not touch the queued elements.\<close>

lemma ring_list_wipe:
  assumes "length xs = cap" "h < cap" "t < cap" "h \<noteq> t"
  shows "ring_list (xs[t := y]) cap h ((t + 1) mod cap) = ring_list xs cap h ((t + 1) mod cap)"
proof -
  let ?t = "(t + 1) mod cap"
  have t': "?t < cap" using assms by simp
  have "t \<noteq> (?t + i) mod cap" if i: "i < ring_len cap h ?t" for i
  proof -
    have "Suc i < cap"
      using i ring_len_pop [OF assms(2-4)] ring_len_bound [OF assms(2,3)] by simp
    then have "(t + Suc i) mod cap \<noteq> t" using assms(3) by (intro shift_distinct) auto
    then show ?thesis by (simp add: mod_add_left_eq)
  qed
  then show ?thesis
    unfolding ring_list_def by (intro map_cong) (simp_all add: nth_list_update_neq)
qed

text \<open>The indices are \<open>u32\<close>; below the capacity \<open>(head + 1) % capacity\<close> cannot wrap.\<close>

lemma unat_next_index:
  fixes w c :: u32
  assumes "unat w < unat c"
  shows "unat ((w + 1) mod c) = (unat w + 1) mod unat c"
proof -
  have "unat c < 2 ^ 32" using unsigned_less [of c] by simp
  with assms have "unat w + 1 < 2 ^ 32" by simp
  then have "unat (w + 1) = unat w + 1" by (simp add: unat_word_ariths)
  then show ?thesis by (simp add: unat_mod_distrib)
qed

lemma unat_next_less: "unat w < unat c \<Longrightarrow> unat ((w + 1) mod c) < unat c" for w c :: u32
  by (simp add: unat_next_index)

section \<open>The interface\<close>

fun pop_many :: "('q \<Rightarrow> 'a option \<times> 'q) \<Rightarrow> nat \<Rightarrow> 'q \<Rightarrow> 'a list \<times> 'q" where
  "pop_many pop 0 q = ([], q)"
| "pop_many pop (Suc n) q =
     (case pop q of
        (None, q') \<Rightarrow> ([], q')
      | (Some x, q') \<Rightarrow> (case pop_many pop n q' of (xs, q'') \<Rightarrow> (x # xs, q'')))"

definition push_many :: "('q \<Rightarrow> 'a \<Rightarrow> unit kresult \<times> 'q) \<Rightarrow> 'q \<Rightarrow> 'a list \<Rightarrow> 'q" where
  "push_many push q xs = foldl (\<lambda>q x. snd (push q x)) q xs"

lemma push_many_simps [simp]:
  "push_many push q [] = q"
  "push_many push q (x # xs) = push_many push (snd (push q x)) xs"
  by (simp_all add: push_many_def)

locale bounded_ring =
  fixes wf :: "'q \<Rightarrow> bool"
    and contents :: "'q \<Rightarrow> 'a list"
    and limit :: "'q \<Rightarrow> nat"
    and drops :: "'q \<Rightarrow> u32"
    and is_full :: "'q \<Rightarrow> bool"
    and is_empty :: "'q \<Rightarrow> bool"
    and admissible :: "'a \<Rightarrow> bool"
    and push :: "'q \<Rightarrow> 'a \<Rightarrow> unit kresult \<times> 'q"
    and pop :: "'q \<Rightarrow> 'a option \<times> 'q"
  assumes contents_bound: "wf q \<Longrightarrow> length (contents q) \<le> limit q"
    and is_full_iff: "wf q \<Longrightarrow> is_full q \<longleftrightarrow> length (contents q) = limit q"
    and is_empty_iff: "wf q \<Longrightarrow> is_empty q \<longleftrightarrow> contents q = []"
    and push_full: "wf q \<Longrightarrow> is_full q \<Longrightarrow>
      fst (push q x) = Inl ENOSPC \<and> contents (snd (push q x)) = contents q \<and>
      drops (snd (push q x)) = drops q + 1"
    and push_room: "wf q \<Longrightarrow> \<not> is_full q \<Longrightarrow> admissible x \<Longrightarrow>
      fst (push q x) = ok \<and> contents (snd (push q x)) = contents q @ [x] \<and>
      drops (snd (push q x)) = drops q"
    and push_wf: "wf q \<Longrightarrow> admissible x \<Longrightarrow>
      wf (snd (push q x)) \<and> limit (snd (push q x)) = limit q"
    and pop_empty: "wf q \<Longrightarrow> contents q = [] \<Longrightarrow> pop q = (None, q)"
    and pop_next: "wf q \<Longrightarrow> contents q = x # xs \<Longrightarrow>
      \<exists>q'. pop q = (Some x, q') \<and> wf q' \<and> contents q' = xs \<and> limit q' = limit q \<and>
           drops q' = drops q"
begin

lemma push_contents:
  "wf q \<Longrightarrow> admissible x \<Longrightarrow> contents (snd (push q x)) = take (limit q) (contents q @ [x])"
  using contents_bound [of q] is_full_iff [of q] push_full [of q x] push_room [of q x]
  by (cases "is_full q") auto

lemma push_drops:
  "wf q \<Longrightarrow> admissible x \<Longrightarrow>
     drops (snd (push q x)) = drops q + of_nat (length (contents q) + 1 - limit q)"
  using contents_bound [of q] is_full_iff [of q] push_full [of q x] push_room [of q x]
  by (cases "is_full q") auto

lemma push_many_wf:
  "wf q \<Longrightarrow> \<forall>x \<in> set xs. admissible x \<Longrightarrow>
     wf (push_many push q xs) \<and> limit (push_many push q xs) = limit q"
  by (induction xs arbitrary: q) (auto simp: push_wf)

text \<open>A run of pushes keeps the oldest elements, up to the limit, in order.\<close>

lemma push_many_contents:
  "wf q \<Longrightarrow> \<forall>x \<in> set xs. admissible x \<Longrightarrow>
     contents (push_many push q xs) = take (limit q) (contents q @ xs)"
proof (induction xs arbitrary: q)
  case Nil
  then show ?case using contents_bound [of q] by simp
next
  case (Cons x xs)
  then have "contents (push_many push (snd (push q x)) xs)
             = take (limit q) (take (limit q) (contents q @ [x]) @ xs)"
    by (simp add: push_wf push_contents)
  with Cons show ?case using contents_bound [of q]
    by (cases "length (contents q) = limit q") (auto simp: take_Cons')
qed

text \<open>Every element is either queued or counted as dropped.\<close>

lemma push_many_accounting:
  "wf q \<Longrightarrow> \<forall>x \<in> set xs. admissible x \<Longrightarrow>
     drops (push_many push q xs)
       = drops q + of_nat (length (contents q) + length xs - limit q)"
proof (induction xs arbitrary: q)
  case Nil
  then show ?case using contents_bound [of q] by simp
next
  case (Cons x xs)
  have len: "length (contents q) \<le> limit q" using Cons.prems contents_bound by simp
  have step: "drops (push_many push (snd (push q x)) xs)
        = drops (snd (push q x)) + of_nat (length (contents (snd (push q x))) + length xs - limit q)"
    using Cons by (simp add: push_wf)
  show ?case
  proof (cases "length (contents q) = limit q")
    case True
    with Cons.prems step show ?thesis using push_full [of q x] is_full_iff [of q]
      by (simp add: add.commute)
  next
    case False
    with Cons.prems step show ?thesis using push_room [of q x] is_full_iff [of q] by simp
  qed
qed

text \<open>Popping returns the queued elements oldest first and terminates on the empty buffer.\<close>

lemma pop_many_contents:
  "wf q \<Longrightarrow> \<exists>q'. pop_many pop n q = (take n (contents q), q') \<and> wf q' \<and>
     contents q' = drop n (contents q) \<and> limit q' = limit q \<and> drops q' = drops q"
proof (induction n arbitrary: q)
  case 0
  then show ?case by simp
next
  case (Suc n)
  show ?case
  proof (cases "contents q")
    case Nil
    with Suc.prems show ?thesis by (simp add: pop_empty)
  next
    case (Cons x xs)
    with Suc.prems obtain q1 where q1: "pop q = (Some x, q1)" "wf q1" "contents q1 = xs"
      "limit q1 = limit q" "drops q1 = drops q" using pop_next by blast
    from Suc.IH [OF q1(2)] q1 Cons show ?thesis by auto
  qed
qed

text \<open>First in, first out: what a drained buffer yields after a run of pushes.\<close>

lemma fifo:
  assumes "wf q" "\<forall>x \<in> set xs. admissible x"
  shows "fst (pop_many pop (limit q) (push_many push q xs)) = take (limit q) (contents q @ xs)"
proof -
  obtain q' where "pop_many pop (limit q) (push_many push q xs)
      = (take (limit q) (contents (push_many push q xs)), q')"
    using pop_many_contents push_many_wf [OF assms] by blast
  then show ?thesis using push_many_contents [OF assms] by (simp del: take_append)
qed

end

end
