(* ===== verification/Cdev_Ring.thy ===== *)
theory Cdev_Ring
  imports Crypto_Layer Bounded_Ring
begin

text \<open>
  The frame ring of \<open>comms/cdev_ch.c\<close> and the producer side of the character device:
  \<open>ring_buf_init\<close>, \<open>ring_buf_push\<close>, \<open>ring_buf_pop_locked\<close> and \<open>photon_send_encrypted_event\<close>.  The
  ring is an interpretation of the interface \<open>bounded_ring\<close>.  A \<open>NULL\<close> slot array is the empty
  list; \<open>ring_ok\<close> says that the ring is allocated, and every operation that touches a slot is
  proved under it.
\<close>

section \<open>The ring\<close>

record frame_slot =
  slot_data :: bytes
  slot_len :: u32

record photon_ring_buf =
  rb_slots :: "frame_slot list"
  rb_head :: u32
  rb_tail :: u32
  rb_capacity :: u32
  rb_dropped :: u32

definition empty_slot :: frame_slot where
  "empty_slot = \<lparr>slot_data = zeros PHOTON_FRAME_SLOT_SIZE, slot_len = 0\<rparr>"

definition ring_buf_init :: "bool \<Rightarrow> u32 \<Rightarrow> photon_ring_buf \<Rightarrow> unit kresult \<times> photon_ring_buf" where
  "ring_buf_init kcalloc_ok capacity rb =
     (if \<not> kcalloc_ok then (Inl ENOMEM, rb\<lparr>rb_slots := []\<rparr>)
      else (ok, \<lparr>rb_slots = replicate (unat capacity) empty_slot, rb_head = 0, rb_tail = 0,
                 rb_capacity = capacity, rb_dropped = 0\<rparr>))"

definition ring_buf_free :: "photon_ring_buf \<Rightarrow> photon_ring_buf" where
  "ring_buf_free rb = (if rb_slots rb \<noteq> [] then rb\<lparr>rb_slots := []\<rparr> else rb)"

definition ring_buf_full :: "photon_ring_buf \<Rightarrow> bool" where
  "ring_buf_full rb \<longleftrightarrow> (rb_head rb + 1) mod rb_capacity rb = rb_tail rb"

definition ring_buf_empty :: "photon_ring_buf \<Rightarrow> bool" where
  "ring_buf_empty rb \<longleftrightarrow> rb_head rb = rb_tail rb"

definition ring_buf_push :: "photon_ring_buf \<Rightarrow> bytes \<Rightarrow> u32 \<Rightarrow> unit kresult \<times> photon_ring_buf" where
  "ring_buf_push rb frame total_len =
     (if ring_buf_full rb then (Inl ENOSPC, rb\<lparr>rb_dropped := rb_dropped rb + 1\<rparr>)
      else
        let h = unat (rb_head rb);
            slot = rb_slots rb ! h;
            slot = slot\<lparr>slot_data := memcpy (slot_data slot) frame (unat total_len),
                        slot_len := total_len\<rparr>
        in (ok, rb\<lparr>rb_slots := (rb_slots rb)[h := slot],
                   rb_head := (rb_head rb + 1) mod rb_capacity rb\<rparr>))"

definition ring_buf_pop_locked ::
  "photon_ring_buf \<Rightarrow> bytes \<Rightarrow> u32 \<Rightarrow> u32 \<times> bytes \<times> photon_ring_buf" where
  "ring_buf_pop_locked rb dst dst_len =
     (if ring_buf_empty rb then (0, dst, rb)
      else
        let t = unat (rb_tail rb);
            slot = rb_slots rb ! t;
            copy_len = min (slot_len slot) dst_len;
            dst = memcpy dst (slot_data slot) (unat copy_len);
            slot = slot\<lparr>slot_data := memzero (slot_data slot) (unat (slot_len slot))\<rparr>
        in (copy_len, dst, rb\<lparr>rb_slots := (rb_slots rb)[t := slot],
                             rb_tail := (rb_tail rb + 1) mod rb_capacity rb\<rparr>))"

section \<open>Device state and the producer\<close>

text \<open>
  The static variables of \<open>cdev_ch.c\<close>, and what the kernel has registered for the module: the
  device number region, the cdev, the class and the device node.
\<close>

record 't cdev_state = "'t crypto_state" +
  g_ring :: photon_ring_buf
  g_major :: nat
  g_shutting_down :: bool
  g_is_open :: bool
  g_read_staging :: bytes
  chrdev_region :: bool
  cdev_added :: bool
  class_created :: bool
  device_created :: bool

definition PHOTON_RING_BUF_FRAMES :: u32 where
  "PHOTON_RING_BUF_FRAMES = 256"

text \<open>
  \<open>photon_send_encrypted_event\<close>.  The frame is a stack buffer whose body is overlaid by the message;
  \<open>k_stack\<close> is what the stack held.  The wake-up of a sleeping reader has no effect on the state.
\<close>

definition photon_send_encrypted_event ::
  "'t kenv \<Rightarrow> photon_event \<Rightarrow> ('t, 'z) cdev_state_scheme \<Rightarrow> unit kresult \<times> ('t, 'z) cdev_state_scheme" where
  "photon_send_encrypted_event K event s =
     (if \<not> photon_has_key s then (ok, s)
      else
        let (enc, s) = ext (k_stack K) s;
            enc = enc\<lparr>msg_rotation_num := photon_get_rotation_number s\<rparr>
        in case photon_encrypt_event K event enc s of
             (Inl e, s) \<Rightarrow> (Inl e, s)
           | (Inr enc, s) \<Rightarrow>
               let body_size = 8 + 8 + 12 + 2 + 16 + unat (msg_encrypted_len enc);
                   total_size = of_nat (4 + body_size) :: u32;
                   frame = le_word 4 (of_nat body_size :: u32) @ msg_bytes enc
               in if unat total_size > PHOTON_FRAME_SLOT_SIZE then (Inl EMSGSIZE, s)
                  else case ring_buf_push (g_ring s) frame total_size of
                         (ret, rb) \<Rightarrow>
                           let s = s\<lparr>g_ring := rb\<rparr>
                           in if ret = Inl ENOSPC then (ok, s) else (ok, s))"

section \<open>The ring implements the bounded-ring interface\<close>

definition slot_ok :: "frame_slot \<Rightarrow> bool" where
  "slot_ok sl \<longleftrightarrow> length (slot_data sl) = PHOTON_FRAME_SLOT_SIZE \<and> unat (slot_len sl) \<le> PHOTON_FRAME_SLOT_SIZE"

definition slot_frame :: "frame_slot \<Rightarrow> bytes" where
  "slot_frame sl = take (unat (slot_len sl)) (slot_data sl)"

definition ring_frames :: "photon_ring_buf \<Rightarrow> bytes list" where
  "ring_frames rb = map slot_frame
     (ring_list (rb_slots rb) (unat (rb_capacity rb)) (unat (rb_head rb)) (unat (rb_tail rb)))"

text \<open>The ring is allocated, the indices are in range, and no queued frame is empty or too long.\<close>

definition ring_ok :: "photon_ring_buf \<Rightarrow> bool" where
  "ring_ok rb \<longleftrightarrow> length (rb_slots rb) = unat (rb_capacity rb) \<and>
     unat (rb_head rb) < unat (rb_capacity rb) \<and> unat (rb_tail rb) < unat (rb_capacity rb) \<and>
     (\<forall>sl \<in> set (rb_slots rb). slot_ok sl) \<and> (\<forall>f \<in> set (ring_frames rb). f \<noteq> [])"

definition frame_fits :: "bytes \<Rightarrow> bool" where
  "frame_fits f \<longleftrightarrow> f \<noteq> [] \<and> length f \<le> PHOTON_FRAME_SLOT_SIZE"

definition ring_limit :: "photon_ring_buf \<Rightarrow> nat" where
  "ring_limit rb = unat (rb_capacity rb) - 1"

definition push_frame :: "photon_ring_buf \<Rightarrow> bytes \<Rightarrow> unit kresult \<times> photon_ring_buf" where
  "push_frame rb f = ring_buf_push rb f (of_nat (length f))"

definition pop_frame :: "photon_ring_buf \<Rightarrow> bytes option \<times> photon_ring_buf" where
  "pop_frame rb = (case ring_buf_pop_locked rb (zeros PHOTON_FRAME_SLOT_SIZE) (of_nat PHOTON_FRAME_SLOT_SIZE) of
     (n, dst, rb') \<Rightarrow> if n = 0 then (None, rb') else (Some (take (unat n) dst), rb'))"

lemma unat_frame_length: "length f \<le> PHOTON_FRAME_SLOT_SIZE \<Longrightarrow> unat (of_nat (length f) :: u32) = length f"
  by (simp add: frame_sizes unat_of_nat)

lemma length_ring_frames: "length (ring_frames rb) =
    ring_len (unat (rb_capacity rb)) (unat (rb_head rb)) (unat (rb_tail rb))"
  by (simp add: ring_frames_def)

lemma ring_full_iff: "ring_ok rb \<Longrightarrow> ring_buf_full rb \<longleftrightarrow> length (ring_frames rb) = ring_limit rb"
  unfolding ring_buf_full_def length_ring_frames ring_limit_def ring_ok_def
  by (metis ring_len_full unat_next_index word_unat_eq_iff)

lemma ring_empty_iff: "ring_ok rb \<Longrightarrow> ring_buf_empty rb \<longleftrightarrow> ring_frames rb = []"
  unfolding ring_buf_empty_def length_0_conv [symmetric] length_ring_frames ring_ok_def
  by (metis ring_len_empty word_unat_eq_iff)

lemma push_frame_room:
  assumes "ring_ok rb" "\<not> ring_buf_full rb" "frame_fits f"
  shows "fst (push_frame rb f) = ok" "ring_frames (snd (push_frame rb f)) = ring_frames rb @ [f]"
    "ring_ok (snd (push_frame rb f))" "rb_dropped (snd (push_frame rb f)) = rb_dropped rb"
    "rb_capacity (snd (push_frame rb f)) = rb_capacity rb"
proof -
  let ?h = "unat (rb_head rb)" and ?t = "unat (rb_tail rb)" and ?c = "unat (rb_capacity rb)"
  let ?sl = "(rb_slots rb ! ?h)\<lparr>slot_data := memcpy (slot_data (rb_slots rb ! ?h)) f (length f),
               slot_len := of_nat (length f)\<rparr>"
  have len: "unat (of_nat (length f) :: u32) = length f"
    using assms(3) unat_frame_length [of f] by (simp add: frame_fits_def)
  have p: "push_frame rb f = (ok, rb\<lparr>rb_slots := (rb_slots rb)[?h := ?sl],
      rb_head := (rb_head rb + 1) mod rb_capacity rb\<rparr>)"
    using assms(2) by (simp add: push_frame_def ring_buf_push_def Let_def len)
  have w: "length (rb_slots rb) = ?c" "?h < ?c" "?t < ?c" "\<forall>sl \<in> set (rb_slots rb). slot_ok sl"
    "\<forall>f \<in> set (ring_frames rb). f \<noteq> []" using assms(1) by (auto simp: ring_ok_def)
  have room: "(?h + 1) mod ?c \<noteq> ?t"
    using assms(2) unat_next_index [OF w(2)] unfolding ring_buf_full_def word_unat_eq_iff by simp
  have old: "slot_ok (rb_slots rb ! ?h)" using w by simp
  have sl: "slot_frame ?sl = f" "slot_ok ?sl"
    using old assms(3) len by (simp_all add: slot_frame_def slot_ok_def memcpy_def frame_fits_def)
  show frames: "ring_frames (snd (push_frame rb f)) = ring_frames rb @ [f]"
    using ring_list_push [OF w(1-3) room] sl(1) by (simp add: p ring_frames_def unat_next_index w)
  show "fst (push_frame rb f) = ok" "rb_dropped (snd (push_frame rb f)) = rb_dropped rb"
    "rb_capacity (snd (push_frame rb f)) = rb_capacity rb" by (simp_all add: p)
  have "slot_ok x" if "x \<in> set ((rb_slots rb)[?h := ?sl])" for x
    using that sl(2) w(4) set_update_subset_insert [of "rb_slots rb" ?h ?sl] by blast
  moreover have "f \<noteq> []" using assms(3) by (simp add: frame_fits_def)
  ultimately show "ring_ok (snd (push_frame rb f))"
    using w unat_next_less [OF w(2)] frames unfolding ring_ok_def by (auto simp: p)
qed

lemma push_frame_full:
  assumes "ring_buf_full rb"
  shows "push_frame rb f = (Inl ENOSPC, rb\<lparr>rb_dropped := rb_dropped rb + 1\<rparr>)"
  using assms by (simp add: push_frame_def ring_buf_push_def)

lemma ring_frames_dropped [simp]: "ring_frames (rb\<lparr>rb_dropped := n\<rparr>) = ring_frames rb"
  by (simp add: ring_frames_def)

lemma ring_ok_dropped [simp]: "ring_ok (rb\<lparr>rb_dropped := n\<rparr>) = ring_ok rb"
  by (simp add: ring_ok_def)

text \<open>
  The pop as the device uses it: the destination has the size of a slot, so the frame is never cut.
\<close>

lemma pop_locked_next:
  assumes "ring_ok rb" "ring_frames rb = f # fs" "length dst = PHOTON_FRAME_SLOT_SIZE"
  obtains rb' where
    "ring_buf_pop_locked rb dst (of_nat PHOTON_FRAME_SLOT_SIZE) =
       (of_nat (length f), f @ drop (length f) dst, rb')"
    "ring_ok rb'" "ring_frames rb' = fs" "rb_capacity rb' = rb_capacity rb" "rb_dropped rb' = rb_dropped rb"
    "length f \<le> PHOTON_FRAME_SLOT_SIZE" "f \<noteq> []"
proof -
  let ?h = "unat (rb_head rb)" and ?t = "unat (rb_tail rb)" and ?c = "unat (rb_capacity rb)"
  let ?sl = "rb_slots rb ! ?t"
  let ?sl' = "?sl\<lparr>slot_data := memzero (slot_data ?sl) (unat (slot_len ?sl))\<rparr>"
  let ?rb = "rb\<lparr>rb_slots := (rb_slots rb)[?t := ?sl'], rb_tail := (rb_tail rb + 1) mod rb_capacity rb\<rparr>"
  have w: "length (rb_slots rb) = ?c" "?h < ?c" "?t < ?c" "\<forall>sl \<in> set (rb_slots rb). slot_ok sl"
    "\<forall>f \<in> set (ring_frames rb). f \<noteq> []" using assms(1) by (auto simp: ring_ok_def)
  have ne: "\<not> ring_buf_empty rb" using ring_empty_iff [OF assms(1)] assms(2) by simp
  then have ht: "?h \<noteq> ?t" by (simp add: ring_buf_empty_def word_unat_eq_iff)
  have sl: "slot_ok ?sl" using w by simp
  have split: "ring_frames rb = slot_frame ?sl # map slot_frame (ring_list (rb_slots rb) ?c ?h ((?t + 1) mod ?c))"
    by (simp add: ring_frames_def ring_list_pop [OF w(2,3) ht])
  then have f: "f = slot_frame ?sl"
    and fs: "fs = map slot_frame (ring_list (rb_slots rb) ?c ?h ((?t + 1) mod ?c))" using assms(2) by auto
  have len: "length f = unat (slot_len ?sl)" using sl by (simp add: f slot_frame_def slot_ok_def)
  have bound: "length f \<le> PHOTON_FRAME_SLOT_SIZE" using sl len by (simp add: slot_ok_def)
  have cl: "min (slot_len ?sl) (of_nat PHOTON_FRAME_SLOT_SIZE) = slot_len ?sl"
    using bound len by (simp add: min_def word_le_nat_alt frame_sizes)
  have lf: "of_nat (length f) = slot_len ?sl" by (simp add: len)
  have pop: "ring_buf_pop_locked rb dst (of_nat PHOTON_FRAME_SLOT_SIZE) =
      (of_nat (length f), f @ drop (length f) dst, ?rb)"
    using ne cl by (simp add: ring_buf_pop_locked_def Let_def memcpy_def lf len)
      (simp add: f slot_frame_def)
  have frames: "ring_frames ?rb = fs"
    using ring_list_wipe [OF w(1-3) ht] by (simp add: ring_frames_def fs unat_next_index w)
  have "slot_ok ?sl'" using sl by (simp add: slot_ok_def)
  then have "slot_ok x" if "x \<in> set ((rb_slots rb)[?t := ?sl'])" for x
    using that w(4) set_update_subset_insert [of "rb_slots rb" ?t ?sl'] by blast
  then have "ring_ok ?rb"
    using w unat_next_less [OF w(3)] frames assms(2) unfolding ring_ok_def by auto
  moreover have "f \<noteq> []" using w(5) assms(2) by simp
  ultimately show thesis using that [OF pop] frames bound by simp
qed

lemma pop_frame_next:
  assumes "ring_ok rb" "ring_frames rb = f # fs"
  shows "\<exists>rb'. pop_frame rb = (Some f, rb') \<and> ring_ok rb' \<and> ring_frames rb' = fs \<and>
           ring_limit rb' = ring_limit rb \<and> rb_dropped rb' = rb_dropped rb"
proof -
  obtain rb' where p: "ring_buf_pop_locked rb (zeros PHOTON_FRAME_SLOT_SIZE) (of_nat PHOTON_FRAME_SLOT_SIZE) =
       (of_nat (length f), f @ drop (length f) (zeros PHOTON_FRAME_SLOT_SIZE), rb')"
    and rb': "ring_ok rb'" "ring_frames rb' = fs" "rb_capacity rb' = rb_capacity rb"
      "rb_dropped rb' = rb_dropped rb" and f: "length f \<le> PHOTON_FRAME_SLOT_SIZE" "f \<noteq> []"
    using pop_locked_next [OF assms, of "zeros PHOTON_FRAME_SLOT_SIZE"] by auto
  have "unat (of_nat (length f) :: u32) = length f" using f(1) by (rule unat_frame_length)
  moreover from this have "(of_nat (length f) :: u32) \<noteq> 0" using f(2) by (metis length_0_conv unat_0)
  ultimately show ?thesis using p rb' by (simp add: pop_frame_def ring_limit_def)
qed

interpretation frame_ring: bounded_ring ring_ok ring_frames ring_limit rb_dropped ring_buf_full
  ring_buf_empty frame_fits push_frame pop_frame
proof
  fix rb :: photon_ring_buf and f fs
  show "ring_ok rb \<Longrightarrow> length (ring_frames rb) \<le> ring_limit rb"
    using ring_len_bound [of "unat (rb_head rb)" "unat (rb_capacity rb)" "unat (rb_tail rb)"]
    by (auto simp: ring_ok_def length_ring_frames ring_limit_def)
  show "ring_ok rb \<Longrightarrow> ring_buf_full rb \<longleftrightarrow> length (ring_frames rb) = ring_limit rb"
    by (rule ring_full_iff)
  show "ring_ok rb \<Longrightarrow> ring_buf_empty rb \<longleftrightarrow> ring_frames rb = []"
    by (rule ring_empty_iff)
  show "ring_ok rb \<Longrightarrow> ring_buf_full rb \<Longrightarrow>
      fst (push_frame rb f) = Inl ENOSPC \<and> ring_frames (snd (push_frame rb f)) = ring_frames rb \<and>
      rb_dropped (snd (push_frame rb f)) = rb_dropped rb + 1"
    by (simp add: push_frame_full)
  show "ring_ok rb \<Longrightarrow> \<not> ring_buf_full rb \<Longrightarrow> frame_fits f \<Longrightarrow>
      fst (push_frame rb f) = ok \<and> ring_frames (snd (push_frame rb f)) = ring_frames rb @ [f] \<and>
      rb_dropped (snd (push_frame rb f)) = rb_dropped rb"
    by (simp add: push_frame_room)
  show "ring_ok rb \<Longrightarrow> frame_fits f \<Longrightarrow>
      ring_ok (snd (push_frame rb f)) \<and> ring_limit (snd (push_frame rb f)) = ring_limit rb"
    by (cases "ring_buf_full rb") (simp_all add: push_frame_full push_frame_room ring_limit_def)
  show "ring_ok rb \<Longrightarrow> ring_frames rb = [] \<Longrightarrow> pop_frame rb = (None, rb)"
    using ring_empty_iff [of rb] by (simp add: pop_frame_def ring_buf_pop_locked_def)
  show "ring_ok rb \<Longrightarrow> ring_frames rb = f # fs \<Longrightarrow>
      \<exists>rb'. pop_frame rb = (Some f, rb') \<and> ring_ok rb' \<and> ring_frames rb' = fs \<and>
           ring_limit rb' = ring_limit rb \<and> rb_dropped rb' = rb_dropped rb"
    by (rule pop_frame_next)
qed

lemma ring_buf_init_ok:
  "unat cap \<noteq> 0 \<Longrightarrow> fst (ring_buf_init True cap rb) = ok \<and>
     ring_ok (snd (ring_buf_init True cap rb)) \<and> ring_frames (snd (ring_buf_init True cap rb)) = []"
  by (simp add: ring_buf_init_def ring_ok_def ring_frames_def ring_list_def ring_len_def slot_ok_def
      empty_slot_def)

section \<open>What a sent event puts on the ring\<close>

text \<open>The frame of an event, from the wire format in the head comment of \<open>cdev_ch.c\<close>.\<close>

definition frame_spec ::
  "(bytes \<Rightarrow> bytes \<Rightarrow> bytes \<Rightarrow> bytes) \<Rightarrow> bytes \<Rightarrow> u64 \<Rightarrow> bytes \<Rightarrow> photon_event \<Rightarrow> bytes" where
  "frame_spec seal key rot iv ev =
     (let ct = seal key iv (event_bytes ev) in
      le_word 4 (of_nat PHOTON_FRAME_BODY_MAX :: u32) @ le_word 8 (sequence_num ev) @ le_word 8 rot @
      iv @ le_word 2 (of_nat sizeof_photon_event :: u16) @ drop sizeof_photon_event ct @
      take sizeof_photon_event ct)"

lemma length_frame_spec:
  assumes "aead_laws K has_key seal unseal" "event_ok ev" "length iv = 12"
  shows "length (frame_spec seal key rot iv ev) = PHOTON_FRAME_SLOT_SIZE"
  using aead_lawsD(5) [OF assms(1)] assms(2,3) length_event_bytes [OF assms(2)]
  by (simp add: frame_spec_def Let_def frame_sizes sizeof_photon_event_value)

lemma frame_spec_fits:
  "aead_laws K has_key seal unseal \<Longrightarrow> event_ok ev \<Longrightarrow> length iv = 12 \<Longrightarrow>
     frame_fits (frame_spec seal key rot iv ev)"
  using length_frame_spec [of K has_key seal unseal ev iv key rot]
  by (auto simp: frame_fits_def frame_sizes)

lemma send_no_key: "\<not> g_key_set s \<Longrightarrow> photon_send_encrypted_event K ev s = (ok, s)"
  by (simp add: photon_send_encrypted_event_def photon_has_key_def)

lemma send_cases:
  assumes laws: "aead_laws K has_key seal unseal" and rnd: "random_ok K"
    and inv: "crypto_inv K has_key s" and ev: "event_ok ev" and key: "g_key_set s"
  obtains
    (error) e n where "photon_send_encrypted_event K ev s = (Inl e, s\<lparr>now := n\<rparr>)"
  | (pushed) iv n where "length iv = 12" "photon_send_encrypted_event K ev s =
        (ok, s\<lparr>now := n, g_encryptions := g_encryptions s + 1,
               g_ring := snd (push_frame (g_ring s)
                 (frame_spec seal (g_session_key s) (g_rotation_counter s) iv ev))\<rparr>)"
proof -
  let ?msg = "(k_stack K (now s))\<lparr>msg_rotation_num := g_rotation_counter s\<rparr>"
  let ?s = "s\<lparr>now := Suc (now s)\<rparr>"
  have inv': "crypto_inv K has_key ?s" by (rule crypto_inv_frame [OF inv]) simp_all
  obtain r s1 where r: "photon_encrypt_event K ev ?msg ?s = (r, s1)"
    by (cases "photon_encrypt_event K ev ?msg ?s")
  show thesis
  proof (cases r)
    case (Inl e)
    with r obtain n where "s1 = s\<lparr>now := n\<rparr>"
      by (cases rule: encrypt_cases [of K ev ?msg ?s]) auto
    with r Inl key have "photon_send_encrypted_event K ev s = (Inl e, s\<lparr>now := n\<rparr>)"
      by (simp add: photon_send_encrypted_event_def photon_has_key_def photon_get_rotation_number_def ext_def)
    then show thesis by (rule error)
  next
    case (Inr m)
    note v = encrypt_value [OF laws rnd inv' ev r [unfolded Inr]]
    let ?f = "frame_spec seal (g_session_key s) (g_rotation_counter s) (msg_iv m) ev"
    have tag: "drop 306 (seal (g_session_key s) (msg_iv m) (event_bytes ev)) = msg_auth_tag m"
      and data: "take 306 (seal (g_session_key s) (msg_iv m) (event_bytes ev)) = msg_encrypted_data m"
      using v(3,4) by (simp_all add: v(1) [simplified, symmetric])
    have frame: "le_word 4 (352 :: u32) @ msg_bytes m = ?f"
      using v(5-7) by (simp add: frame_spec_def Let_def msg_bytes_def frame_sizes
          sizeof_photon_event_value tag data)
    have "photon_send_encrypted_event K ev s = (ok, s1\<lparr>g_ring := snd (ring_buf_push (g_ring s1) ?f 356)\<rparr>)"
      using key r Inr v(5) frame
      by (simp add: photon_send_encrypted_event_def photon_has_key_def photon_get_rotation_number_def
          ext_def Let_def frame_sizes split: prod.splits)
    moreover have "ring_buf_push rb ?f 356 = push_frame rb ?f" for rb
      using length_frame_spec [OF laws ev v(2)] by (simp add: push_frame_def frame_sizes)
    moreover obtain n where "s1 = s\<lparr>now := n, g_encryptions := g_encryptions s + 1\<rparr>"
      using v(8) by auto
    ultimately show thesis using pushed [OF v(2), of n] by simp
  qed
qed

section \<open>Properties\<close>


definition demo_ring :: photon_ring_buf where
  "demo_ring = snd (ring_buf_init True 3 \<lparr>rb_slots = [], rb_head = 0, rb_tail = 0, rb_capacity = 0, rb_dropped = 0\<rparr>)"

lemma demo_ring_ok: "ring_ok demo_ring" "ring_frames demo_ring = []" "ring_limit demo_ring = 2"
    "rb_dropped demo_ring = 0"
  unfolding demo_ring_def using ring_buf_init_ok [of 3] by (simp_all add: ring_limit_def ring_buf_init_def)


text \<open>
  \<open>photon_send_encrypted_event\<close> puts exactly one well-formed frame on the ring.  With a key set,
  either the encryption fails and nothing but the clock changed, or the call returns 0 and the
  ring is the old ring after one push of the frame that the wire format prescribes: length prefix
  352, the sequence number of the event, the current rotation number, a 12-byte IV, length 306,
  and tag and ciphertext of the event under the current session key, for every content of the
  uninitialised stack frame.  The frame is 356 bytes, the size of a slot.
\<close>

theorem send_pushes_one_frame:
  assumes "aead_laws K has_key seal unseal" "random_ok K" "crypto_inv K has_key s" "event_ok ev"
    and "g_key_set s"
  shows "(\<exists>e n. photon_send_encrypted_event K ev s = (Inl e, s\<lparr>now := n\<rparr>)) \<or>
    (\<exists>iv n. let f = frame_spec seal (g_session_key s) (g_rotation_counter s) iv ev in
       length iv = 12 \<and> length f = 356 \<and>
       photon_send_encrypted_event K ev s =
         (ok, s\<lparr>now := n, g_encryptions := g_encryptions s + 1, g_ring := snd (ring_buf_push (g_ring s) f 356)\<rparr>))"
proof (cases rule: send_cases [OF assms])
  case (1 e n)
  then show ?thesis by blast
next
  case (2 iv n)
  let ?f = "frame_spec seal (g_session_key s) (g_rotation_counter s) iv ev"
  have len: "length ?f = 356" using length_frame_spec [OF assms(1,4) 2(1)] by (simp add: frame_sizes)
  then have "push_frame (g_ring s) ?f = ring_buf_push (g_ring s) ?f 356" by (simp add: push_frame_def)
  with 2 len show ?thesis unfolding Let_def by auto
qed

definition demo_cdev :: "bytes cdev_state" where
  "demo_cdev = crypto_state.extend keyed_state
     \<lparr>g_ring = demo_ring, g_major = 240, g_shutting_down = False, g_is_open = True,
      g_read_staging = zeros PHOTON_FRAME_SLOT_SIZE, chrdev_region = True, cdev_added = True,
      class_created = True, device_created = True\<rparr>"

lemma demo_cdev_inv: "crypto_inv demo_env (\<lambda>t k. t = k) demo_cdev" "g_key_set demo_cdev"
  using keyed_state_inv
  by (simp_all add: crypto_inv_def demo_cdev_def keyed_state_def initial_crypto_state_def crypto_state.defs)

theorem send_pushes_one_frame_witness:
  "(\<exists>e n. photon_send_encrypted_event demo_env demo_event demo_cdev = (Inl e, demo_cdev\<lparr>now := n\<rparr>)) \<or>
    (\<exists>iv n. let f = frame_spec demo_seal (g_session_key demo_cdev) (g_rotation_counter demo_cdev) iv demo_event in
       length iv = 12 \<and> length f = 356 \<and>
       photon_send_encrypted_event demo_env demo_event demo_cdev =
         (ok, demo_cdev\<lparr>now := n, g_encryptions := g_encryptions demo_cdev + 1,
            g_ring := snd (ring_buf_push (g_ring demo_cdev) f 356)\<rparr>))"
  by (rule send_pushes_one_frame [OF demo_env_aead demo_env_random demo_cdev_inv(1) demo_event_ok
        demo_cdev_inv(2)])

end
