(* ===== verification/Cdev_Channel.thy ===== *)
theory Cdev_Channel
  imports Cdev_Ring
begin

text \<open>
  Bringing the character device up and down: \<open>cdev_channel_init\<close> with its chain of \<open>goto\<close> cleanups and
  \<open>cdev_channel_exit\<close> of \<open>comms/cdev_ch.c\<close>.  The fields \<open>chrdev_region\<close>, \<open>cdev_added\<close>, \<open>class_created\<close>
  and \<open>device_created\<close> are what the kernel holds for the module.
\<close>

definition err_ring :: "('t, 'z) cdev_state_scheme \<Rightarrow> ('t, 'z) cdev_state_scheme" where
  "err_ring s = s\<lparr>g_ring := ring_buf_free (g_ring s)\<rparr>"

definition err_chrdev :: "('t, 'z) cdev_state_scheme \<Rightarrow> ('t, 'z) cdev_state_scheme" where
  "err_chrdev s = err_ring (s\<lparr>chrdev_region := False\<rparr>)"

definition err_cdev :: "('t, 'z) cdev_state_scheme \<Rightarrow> ('t, 'z) cdev_state_scheme" where
  "err_cdev s = err_chrdev (s\<lparr>cdev_added := False\<rparr>)"

definition err_class :: "('t, 'z) cdev_state_scheme \<Rightarrow> ('t, 'z) cdev_state_scheme" where
  "err_class s = err_cdev (s\<lparr>class_created := False\<rparr>)"

definition cdev_channel_init ::
  "'t kenv \<Rightarrow> ('t, 'z) cdev_state_scheme \<Rightarrow> unit kresult \<times> ('t, 'z) cdev_state_scheme" where
  "cdev_channel_init K s =
     (let (slots, s) = kmalloc K s;
          (ret, rb) = ring_buf_init (\<not> failed slots) PHOTON_RING_BUF_FRAMES (g_ring s);
          s = s\<lparr>g_ring := rb\<rparr>
      in if failed ret then (ret, s)
      else case ext (k_alloc_chrdev_region K) s of
        (Inl e, s) \<Rightarrow> (Inl e, err_ring s)
      | (Inr major, s) \<Rightarrow>
        (case ext (k_cdev_add K) (s\<lparr>chrdev_region := True, g_major := major\<rparr>) of
           (Inl e, s) \<Rightarrow> (Inl e, err_chrdev s)
         | (Inr _, s) \<Rightarrow>
           (case ext (k_class_create K) (s\<lparr>cdev_added := True\<rparr>) of
              (Inl e, s) \<Rightarrow> (Inl e, err_cdev s)
            | (Inr _, s) \<Rightarrow>
              (case ext (k_device_create K) (s\<lparr>class_created := True\<rparr>) of
                 (Inl e, s) \<Rightarrow> (Inl e, err_class s)
               | (Inr _, s) \<Rightarrow> (ok, s\<lparr>device_created := True\<rparr>)))))"

definition cdev_channel_exit :: "('t, 'z) cdev_state_scheme \<Rightarrow> ('t, 'z) cdev_state_scheme" where
  "cdev_channel_exit s =
     s\<lparr>g_shutting_down := True, device_created := False, class_created := False, cdev_added := False,
       chrdev_region := False, g_ring := ring_buf_free (g_ring s)\<rparr>"

text \<open>Nothing of the device is registered, nothing is allocated.\<close>

definition cdev_down :: "('t, 'z) cdev_state_scheme \<Rightarrow> bool" where
  "cdev_down s \<longleftrightarrow> rb_slots (g_ring s) = [] \<and> \<not> chrdev_region s \<and> \<not> cdev_added s \<and>
     \<not> class_created s \<and> \<not> device_created s"

text \<open>The device is complete and its ring is empty or holds well-formed frames.\<close>

definition cdev_up :: "('t, 'z) cdev_state_scheme \<Rightarrow> bool" where
  "cdev_up s \<longleftrightarrow> ring_ok (g_ring s) \<and> ring_limit (g_ring s) = 255 \<and> chrdev_region s \<and> cdev_added s \<and>
     class_created s \<and> device_created s"

lemmas cdev_unwind = err_ring_def err_chrdev_def err_cdev_def err_class_def ring_buf_free_def

lemma cdev_init_up_or_down:
  assumes "cdev_down s"
  obtains
    (up) s' where "cdev_channel_init K s = (ok, s')" "cdev_up s'" "ring_frames (g_ring s') = []"
  | (down) e s' where "cdev_channel_init K s = (Inl e, s')" "cdev_down s'"
proof -
  obtain rb where rb: "ring_buf_init True PHOTON_RING_BUF_FRAMES (g_ring s) = (ok, rb)" "ring_ok rb"
    "ring_frames rb = []" "ring_limit rb = 255"
    using ring_buf_init_ok [of PHOTON_RING_BUF_FRAMES "g_ring s"]
    by (simp add: PHOTON_RING_BUF_FRAMES_def ring_limit_def ring_buf_init_def)
  have "case cdev_channel_init K s of
      (Inl e, s') \<Rightarrow> cdev_down s' | (Inr _, s') \<Rightarrow> cdev_up s' \<and> ring_frames (g_ring s') = []"
    using assms rb(2-4)
    by (auto simp: cdev_channel_init_def kmalloc_def ext_def Let_def rb(1) cdev_down_def cdev_up_def
        cdev_unwind ring_buf_init_def [of False] split: sum.splits)
  with that show thesis by (cases "cdev_channel_init K s") (auto split: sum.splits)
qed

lemma cdev_exit_down: "cdev_down (cdev_channel_exit s)"
  by (simp add: cdev_down_def cdev_channel_exit_def ring_buf_free_def)

lemma cdev_channel_frame:
  "g_key_set (snd (cdev_channel_init K s)) = g_key_set s"
  "crypto_inv K' has_key (snd (cdev_channel_init K s)) = crypto_inv K' has_key s"
  "crypto_inv K' has_key (cdev_channel_exit s) = crypto_inv K' has_key s"
  by (auto simp: cdev_channel_init_def cdev_channel_exit_def crypto_inv_def ext_def kmalloc_def Let_def
      cdev_unwind split: sum.splits prod.splits)

text \<open>
  \<open>cdev_channel_init\<close> is all or nothing: started from a clean state, either it returns 0, all four
  kernel objects exist and the ring is allocated, empty and of limit 255; or it returns an error
  and, whichever of the five steps failed, the ring is freed and no kernel object is left behind.
  \<open>cdev_channel_exit\<close> then takes a complete device down to the clean state again.
\<close>

theorem cdev_init_all_or_nothing:
  assumes "cdev_down s"
  shows "\<exists>r s'. cdev_channel_init K s = (r, s') \<and>
     (if r = ok then cdev_up s' \<and> ring_frames (g_ring s') = [] \<and> cdev_down (cdev_channel_exit s')
      else cdev_down s')"
  by (cases rule: cdev_init_up_or_down [OF assms, of K]) (simp_all add: cdev_exit_down)

definition cdev_initial :: "bytes cdev_state" where
  "cdev_initial = crypto_state.extend initial_crypto_state
     \<lparr>g_ring = \<lparr>rb_slots = [], rb_head = 0, rb_tail = 0, rb_capacity = 0, rb_dropped = 0\<rparr>,
      g_major = 0, g_shutting_down = False, g_is_open = False,
      g_read_staging = zeros PHOTON_FRAME_SLOT_SIZE, chrdev_region = False, cdev_added = False,
      class_created = False, device_created = False\<rparr>"

lemma cdev_initial_down: "cdev_down cdev_initial"
  by (simp add: cdev_down_def cdev_initial_def initial_crypto_state_def crypto_state.defs)

theorem cdev_init_all_or_nothing_witness:
  "cdev_down cdev_initial \<and>
   (\<exists>r s'. cdev_channel_init demo_env cdev_initial = (r, s') \<and>
     (if r = ok then cdev_up s' \<and> ring_frames (g_ring s') = [] \<and> cdev_down (cdev_channel_exit s')
      else cdev_down s'))"
  using cdev_init_all_or_nothing [OF cdev_initial_down, of demo_env] cdev_initial_down by blast

end
