(* ===== verification/Event_Manager.thy ===== *)
theory Event_Manager
  imports Cdev_Channel
begin

text \<open>
  \<open>comms/event_manager.c\<close>: the per-CPU event buffers, the statistics, \<open>photon_log_event\<close> and the
  heartbeat, initialisation and shutdown.  The calls of one execution are sequential; the CPU a
  call runs on is chosen by the environment at every \<open>get_cpu_var\<close>.  The flush loop is a
  \<open>partial_function\<close> (on indices out of range it would not end), so that its termination is a
  theorem about well-formed buffers.  A \<open>NULL\<close> event array is the empty list.
\<close>

section \<open>Event buffers\<close>

record event_buffer =
  eb_events :: "photon_event list"
  eb_head :: u32
  eb_tail :: u32
  eb_capacity :: u32
  eb_dropped :: u32

definition EVENT_BUFFER_SIZE :: u32 where
  "EVENT_BUFFER_SIZE = 256"

record 't em_state = "'t cdev_state" +
  g_sequence_counter :: u64
  event_buffers :: "event_buffer list"
  total_events :: u64
  total_dropped :: u64
  total_sent :: u64
  send_failures :: u64

definition init_event_buffer :: "photon_event list option \<Rightarrow> event_buffer \<Rightarrow> unit kresult \<times> event_buffer" where
  "init_event_buffer mem buf =
     (case mem of
        None \<Rightarrow> (Inl ENOMEM, buf\<lparr>eb_events := []\<rparr>)
      | Some es \<Rightarrow> (ok, \<lparr>eb_events = es, eb_head = 0, eb_tail = 0,
                        eb_capacity = EVENT_BUFFER_SIZE, eb_dropped = 0\<rparr>))"

definition free_event_buffer :: "event_buffer \<Rightarrow> event_buffer" where
  "free_event_buffer buf = (if eb_events buf \<noteq> [] then buf\<lparr>eb_events := []\<rparr> else buf)"

definition buffer_is_full :: "event_buffer \<Rightarrow> bool" where
  "buffer_is_full buf \<longleftrightarrow> (eb_head buf + 1) mod eb_capacity buf = eb_tail buf"

definition buffer_is_empty :: "event_buffer \<Rightarrow> bool" where
  "buffer_is_empty buf \<longleftrightarrow> eb_head buf = eb_tail buf"

text \<open>The two halves of the buffer protocol: the body of \<open>enqueue_event\<close> and the head of the flush loop.\<close>

definition buffer_put :: "event_buffer \<Rightarrow> photon_event \<Rightarrow> unit kresult \<times> event_buffer" where
  "buffer_put buf event =
     (if buffer_is_full buf then (Inl ENOSPC, buf\<lparr>eb_dropped := eb_dropped buf + 1\<rparr>)
      else (ok, buf\<lparr>eb_events := (eb_events buf)[unat (eb_head buf) := event],
                    eb_head := (eb_head buf + 1) mod eb_capacity buf\<rparr>))"

definition buffer_take :: "event_buffer \<Rightarrow> photon_event option \<times> event_buffer" where
  "buffer_take buf =
     (if buffer_is_empty buf then (None, buf)
      else (Some (eb_events buf ! unat (eb_tail buf)),
            buf\<lparr>eb_tail := (eb_tail buf + 1) mod eb_capacity buf\<rparr>))"

definition enqueue_event ::
  "'t kenv \<Rightarrow> photon_event \<Rightarrow> ('t, 'z) em_state_scheme \<Rightarrow> unit kresult \<times> ('t, 'z) em_state_scheme" where
  "enqueue_event K event s =
     (let (cpu, s) = ext (k_this_cpu K) s;
          (ret, buf) = buffer_put (event_buffers s ! cpu) event;
          s = s\<lparr>event_buffers := (event_buffers s)[cpu := buf]\<rparr>
      in if failed ret then (ret, s\<lparr>total_dropped := total_dropped s + 1\<rparr>) else (ret, s))"

text \<open>Sending one event and counting the outcome, with the buffer lock released.\<close>

definition send_and_count ::
  "'t kenv \<Rightarrow> photon_event \<Rightarrow> ('t, 'z) em_state_scheme \<Rightarrow> ('t, 'z) em_state_scheme" where
  "send_and_count K event s =
     (case photon_send_encrypted_event K event s of
        (Inl e, s) \<Rightarrow> s\<lparr>send_failures := send_failures s + 1\<rparr>
      | (Inr _, s) \<Rightarrow> s\<lparr>total_sent := total_sent s + 1\<rparr>)"

partial_function (option) flush_event_buffer ::
  "'t kenv \<Rightarrow> nat \<Rightarrow> ('t, 'z) em_state_scheme \<Rightarrow> ('t, 'z) em_state_scheme option" where
  "flush_event_buffer K cpu s =
     (case buffer_take (event_buffers s ! cpu) of
        (None, _) \<Rightarrow> Some s
      | (Some event, buf) \<Rightarrow>
          flush_event_buffer K cpu
            (send_and_count K event (s\<lparr>event_buffers := (event_buffers s)[cpu := buf]\<rparr>)))"

fun flush_cpus ::
  "'t kenv \<Rightarrow> nat list \<Rightarrow> ('t, 'z) em_state_scheme \<Rightarrow> ('t, 'z) em_state_scheme option" where
  "flush_cpus K [] s = Some s"
| "flush_cpus K (cpu # cpus) s = do { s \<leftarrow> flush_event_buffer K cpu s; flush_cpus K cpus s }"

definition flush_all_buffers ::
  "'t kenv \<Rightarrow> ('t, 'z) em_state_scheme \<Rightarrow> ('t, 'z) em_state_scheme option" where
  "flush_all_buffers K s = flush_cpus K [0..<length (event_buffers s)] s"

section \<open>Logging\<close>

text \<open>The envelope \<open>photon_log_event\<close> builds.\<close>

definition build_event ::
  "u64 \<Rightarrow> u64 \<Rightarrow> u32 \<Rightarrow> u32 \<Rightarrow> u8 \<Rightarrow> task \<Rightarrow> bytes option \<Rightarrow> u16 \<Rightarrow> photon_event" where
  "build_event seq time ty det sev current data len =
     \<lparr>sequence_num = seq, timestamp_ns = time, event_type = ty, detector_id = det,
      event_severity = sev, event_pad = zeros 3, caller_pid = task_pid current,
      caller_comm = strncpy_field 16 (task_comm current), data_len = len,
      event_data = (case data of
         None \<Rightarrow> zeros PHOTON_MAX_EVENT_DATA
       | Some d \<Rightarrow> if len > 0 then memcpy (zeros PHOTON_MAX_EVENT_DATA) d (unat len)
                   else zeros PHOTON_MAX_EVENT_DATA)\<rparr>"

definition photon_log_event ::
  "'t kenv \<Rightarrow> task \<Rightarrow> u32 \<Rightarrow> u32 \<Rightarrow> u8 \<Rightarrow> bytes option \<Rightarrow> u16 \<Rightarrow> ('t, 'z) em_state_scheme \<Rightarrow>
   (unit kresult \<times> ('t, 'z) em_state_scheme) option" where
  "photon_log_event K current ty det sev data len s =
     (if unat len > PHOTON_MAX_EVENT_DATA then Some (Inl EINVAL, s)
      else
        let s = s\<lparr>g_sequence_counter := g_sequence_counter s + 1\<rparr>;
            (time, s) = ext (k_ktime_real_ns K) s;
            event = build_event (g_sequence_counter s) time ty det sev current data len;
            s = s\<lparr>total_events := total_events s + 1\<rparr>
        in case enqueue_event K event s of
             (Inr _, s) \<Rightarrow> do { s \<leftarrow> flush_all_buffers K s; Some (ok, s) }
           | (Inl _, s) \<Rightarrow> do {
               s \<leftarrow> flush_all_buffers K s;
               (case enqueue_event K event s of
                  (Inl e, s) \<Rightarrow> Some (Inl e, s)
                | (Inr _, s) \<Rightarrow> do { s \<leftarrow> flush_all_buffers K s; Some (ok, s) })
             })"

definition photon_send_heartbeat ::
  "'t kenv \<Rightarrow> task \<Rightarrow> ('t, 'z) em_state_scheme \<Rightarrow> (unit kresult \<times> ('t, 'z) em_state_scheme) option" where
  "photon_send_heartbeat K current s =
     (let (uptime, s) = ext (k_ktime_ns K) s;
          hb = \<lparr>sd_uptime_ns = uptime, sd_events_sent = total_sent s,
                sd_events_dropped = total_dropped s, sd_new_rotation_num = 0\<rparr>
      in photon_log_event K current (event_type_code PHOTON_EVENT_SYSTEM_HEARTBEAT) 0
           (severity_code PHOTON_SEV_INFO) (Some (system_bytes hb)) 32 s)"

definition photon_get_sequence :: "('t, 'z) em_state_scheme \<Rightarrow> u64" where
  "photon_get_sequence s = g_sequence_counter s"

section \<open>Initialisation and shutdown\<close>

definition free_all_buffers :: "('t, 'z) em_state_scheme \<Rightarrow> ('t, 'z) em_state_scheme" where
  "free_all_buffers s = s\<lparr>event_buffers := map free_event_buffer (event_buffers s)\<rparr>"

fun init_cpus ::
  "'t kenv \<Rightarrow> nat list \<Rightarrow> ('t, 'z) em_state_scheme \<Rightarrow> unit kresult \<times> ('t, 'z) em_state_scheme" where
  "init_cpus K [] s = (ok, s)"
| "init_cpus K (cpu # cpus) s =
     (let (mem, s) = ext (k_new_events K) s;
          (ret, buf) = init_event_buffer mem (event_buffers s ! cpu);
          s = s\<lparr>event_buffers := (event_buffers s)[cpu := buf]\<rparr>
      in if failed ret then (ret, s) else init_cpus K cpus s)"

definition event_manager_init ::
  "'t kenv \<Rightarrow> ('t, 'z) em_state_scheme \<Rightarrow> (unit kresult \<times> ('t, 'z) em_state_scheme) option" where
  "event_manager_init K s =
     (case init_cpus K [0..<length (event_buffers s)] s of
        (Inl e, s) \<Rightarrow> Some (Inl e, free_all_buffers s)
      | (Inr _, s) \<Rightarrow>
          let s = s\<lparr>total_events := 0, total_dropped := 0, total_sent := 0, send_failures := 0\<rparr>
          in case crypto_layer_init K s of
               (Inl e, s) \<Rightarrow> Some (Inl e, free_all_buffers s)
             | (Inr _, s) \<Rightarrow>
                 (case cdev_channel_init K s of
                    (Inl e, s) \<Rightarrow> do { s \<leftarrow> crypto_layer_exit s; Some (Inl e, free_all_buffers s) }
                  | (Inr _, s) \<Rightarrow> Some (ok, s)))"

definition event_manager_exit ::
  "'t kenv \<Rightarrow> ('t, 'z) em_state_scheme \<Rightarrow> ('t, 'z) em_state_scheme option" where
  "event_manager_exit K s = do {
     s \<leftarrow> flush_all_buffers K s;
     s \<leftarrow> crypto_layer_exit (cdev_channel_exit s);
     Some (free_all_buffers s)
   }"

section \<open>The event buffer implements the bounded-ring interface\<close>

definition buffer_events :: "event_buffer \<Rightarrow> photon_event list" where
  "buffer_events buf =
     ring_list (eb_events buf) (unat (eb_capacity buf)) (unat (eb_head buf)) (unat (eb_tail buf))"

definition buffer_ok :: "event_buffer \<Rightarrow> bool" where
  "buffer_ok buf \<longleftrightarrow> length (eb_events buf) = unat (eb_capacity buf) \<and> 2 \<le> unat (eb_capacity buf) \<and>
     unat (eb_head buf) < unat (eb_capacity buf) \<and> unat (eb_tail buf) < unat (eb_capacity buf) \<and>
     (\<forall>e \<in> set (buffer_events buf). event_ok e)"

definition buffer_limit :: "event_buffer \<Rightarrow> nat" where
  "buffer_limit buf = unat (eb_capacity buf) - 1"

lemma length_buffer_events: "length (buffer_events buf) =
    ring_len (unat (eb_capacity buf)) (unat (eb_head buf)) (unat (eb_tail buf))"
  by (simp add: buffer_events_def)

lemma buffer_full_iff: "buffer_ok buf \<Longrightarrow> buffer_is_full buf \<longleftrightarrow> length (buffer_events buf) = buffer_limit buf"
  unfolding buffer_is_full_def length_buffer_events buffer_limit_def buffer_ok_def
  by (metis ring_len_full unat_next_index word_unat_eq_iff)

lemma buffer_empty_iff: "buffer_ok buf \<Longrightarrow> buffer_is_empty buf \<longleftrightarrow> buffer_events buf = []"
  unfolding buffer_is_empty_def length_0_conv [symmetric] length_buffer_events buffer_ok_def
  by (metis ring_len_empty word_unat_eq_iff)

lemma buffer_put_room:
  assumes "buffer_ok buf" "\<not> buffer_is_full buf"
  shows "fst (buffer_put buf e) = ok" "buffer_events (snd (buffer_put buf e)) = buffer_events buf @ [e]"
    "event_ok e \<Longrightarrow> buffer_ok (snd (buffer_put buf e))"
    "eb_dropped (snd (buffer_put buf e)) = eb_dropped buf"
    "eb_capacity (snd (buffer_put buf e)) = eb_capacity buf"
proof -
  let ?h = "unat (eb_head buf)" and ?t = "unat (eb_tail buf)" and ?c = "unat (eb_capacity buf)"
  have w: "length (eb_events buf) = ?c" "?h < ?c" "?t < ?c" using assms(1) by (auto simp: buffer_ok_def)
  have room: "(?h + 1) mod ?c \<noteq> ?t"
    using assms(2) unat_next_index [OF w(2)] unfolding buffer_is_full_def word_unat_eq_iff by simp
  show ev: "buffer_events (snd (buffer_put buf e)) = buffer_events buf @ [e]"
    using ring_list_push [OF w room] assms(2)
    by (simp add: buffer_put_def buffer_events_def unat_next_index w)
  show "fst (buffer_put buf e) = ok" "eb_dropped (snd (buffer_put buf e)) = eb_dropped buf"
    "eb_capacity (snd (buffer_put buf e)) = eb_capacity buf"
    using assms(2) by (simp_all add: buffer_put_def)
  show "event_ok e \<Longrightarrow> buffer_ok (snd (buffer_put buf e))"
    using assms unat_next_less [OF w(2)] ev unfolding buffer_ok_def by (auto simp: buffer_put_def)
qed

lemma buffer_put_full:
  "buffer_is_full buf \<Longrightarrow> buffer_put buf e = (Inl ENOSPC, buf\<lparr>eb_dropped := eb_dropped buf + 1\<rparr>)"
  by (simp add: buffer_put_def)

lemma buffer_dropped [simp]:
  "buffer_events (buf\<lparr>eb_dropped := n\<rparr>) = buffer_events buf" "buffer_ok (buf\<lparr>eb_dropped := n\<rparr>) = buffer_ok buf"
  by (simp_all add: buffer_events_def buffer_ok_def)

lemma buffer_take_next:
  assumes "buffer_ok buf" "buffer_events buf = e # es"
  shows "\<exists>buf'. buffer_take buf = (Some e, buf') \<and> buffer_ok buf' \<and> buffer_events buf' = es \<and>
    buffer_limit buf' = buffer_limit buf \<and> eb_dropped buf' = eb_dropped buf"
proof -
  let ?h = "unat (eb_head buf)" and ?t = "unat (eb_tail buf)" and ?c = "unat (eb_capacity buf)"
  let ?b = "buf\<lparr>eb_tail := (eb_tail buf + 1) mod eb_capacity buf\<rparr>"
  have w: "?h < ?c" "?t < ?c" using assms(1) by (auto simp: buffer_ok_def)
  have ne: "\<not> buffer_is_empty buf" using buffer_empty_iff [OF assms(1)] assms(2) by simp
  then have "?h \<noteq> ?t" by (simp add: buffer_is_empty_def word_unat_eq_iff)
  note split = ring_list_pop [OF w this, of "eb_events buf"]
  have b: "eb_events buf ! ?t = e" "buffer_events ?b = es"
    using assms(2) split by (simp_all add: buffer_events_def unat_next_index w)
  have "buffer_ok ?b"
    using assms b(2) unat_next_less [OF w(2)] unfolding buffer_ok_def by simp
  with ne b show ?thesis by (simp add: buffer_take_def buffer_limit_def)
qed

interpretation event_ring: bounded_ring buffer_ok buffer_events buffer_limit eb_dropped buffer_is_full
  buffer_is_empty event_ok buffer_put buffer_take
proof
  fix buf :: event_buffer and e es
  show "buffer_ok buf \<Longrightarrow> length (buffer_events buf) \<le> buffer_limit buf"
    using ring_len_bound [of "unat (eb_head buf)" "unat (eb_capacity buf)" "unat (eb_tail buf)"]
    by (auto simp: buffer_ok_def length_buffer_events buffer_limit_def)
  show "buffer_ok buf \<Longrightarrow> buffer_is_full buf \<longleftrightarrow> length (buffer_events buf) = buffer_limit buf"
    by (rule buffer_full_iff)
  show "buffer_ok buf \<Longrightarrow> buffer_is_empty buf \<longleftrightarrow> buffer_events buf = []"
    by (rule buffer_empty_iff)
  show "buffer_ok buf \<Longrightarrow> buffer_is_full buf \<Longrightarrow>
      fst (buffer_put buf e) = Inl ENOSPC \<and> buffer_events (snd (buffer_put buf e)) = buffer_events buf \<and>
      eb_dropped (snd (buffer_put buf e)) = eb_dropped buf + 1"
    by (simp add: buffer_put_full)
  show "buffer_ok buf \<Longrightarrow> \<not> buffer_is_full buf \<Longrightarrow> event_ok e \<Longrightarrow>
      fst (buffer_put buf e) = ok \<and> buffer_events (snd (buffer_put buf e)) = buffer_events buf @ [e] \<and>
      eb_dropped (snd (buffer_put buf e)) = eb_dropped buf"
    by (simp add: buffer_put_room)
  show "buffer_ok buf \<Longrightarrow> event_ok e \<Longrightarrow>
      buffer_ok (snd (buffer_put buf e)) \<and> buffer_limit (snd (buffer_put buf e)) = buffer_limit buf"
    by (cases "buffer_is_full buf") (simp_all add: buffer_put_full buffer_put_room buffer_limit_def)
  show "buffer_ok buf \<Longrightarrow> buffer_events buf = [] \<Longrightarrow> buffer_take buf = (None, buf)"
    using buffer_empty_iff [of buf] by (simp add: buffer_take_def)
  show "buffer_ok buf \<Longrightarrow> buffer_events buf = e # es \<Longrightarrow>
      \<exists>buf'. buffer_take buf = (Some e, buf') \<and> buffer_ok buf' \<and> buffer_events buf' = es \<and>
        buffer_limit buf' = buffer_limit buf \<and> eb_dropped buf' = eb_dropped buf"
    by (rule buffer_take_next)
qed

section \<open>Flushing\<close>

text \<open>Sending does not look at the event buffers.\<close>

lemma encrypt_event_buffers:
  "photon_encrypt_event K ev m (s\<lparr>event_buffers := b\<rparr>) =
     apsnd (\<lambda>s. s\<lparr>event_buffers := b\<rparr>) (photon_encrypt_event K ev m s)"
  by (auto simp: photon_encrypt_event_def verify_crypto_transform_def kmalloc_def ext_def Let_def
      split: sum.splits)

lemma send_event_buffers:
  "photon_send_encrypted_event K ev (s\<lparr>event_buffers := b\<rparr>) =
     apsnd (\<lambda>s. s\<lparr>event_buffers := b\<rparr>) (photon_send_encrypted_event K ev s)"
proof -
  have enc: "photon_encrypt_event K ev m (s\<lparr>event_buffers := b, now := n\<rparr>) =
      apsnd (\<lambda>s. s\<lparr>event_buffers := b\<rparr>) (photon_encrypt_event K ev m (s\<lparr>now := n\<rparr>))" for m n
  proof -
    have c: "s\<lparr>event_buffers := b, now := n\<rparr> = (s\<lparr>now := n\<rparr>)\<lparr>event_buffers := b\<rparr>" by simp
    show ?thesis unfolding c by (rule encrypt_event_buffers)
  qed
  show ?thesis
    by (auto simp: photon_send_encrypted_event_def photon_has_key_def photon_get_rotation_number_def
        ext_def Let_def enc split: sum.splits prod.splits)
qed

lemma send_and_count_buffers [simp]:
  "send_and_count K ev (s\<lparr>event_buffers := b\<rparr>) = (send_and_count K ev s)\<lparr>event_buffers := b\<rparr>"
  by (auto simp: send_and_count_def send_event_buffers split: prod.splits sum.splits)

lemma encrypt_keeps_buffers: "event_buffers (snd (photon_encrypt_event K ev m s)) = event_buffers s"
  by (cases rule: encrypt_cases [of K ev m s]) simp_all

lemma send_keeps_buffers [simp]: "event_buffers (send_and_count K ev s) = event_buffers s"
proof -
  have "send_and_count K ev s = send_and_count K ev (s\<lparr>event_buffers := event_buffers s\<rparr>)" by simp
  also have "event_buffers \<dots> = event_buffers s" unfolding send_and_count_buffers by simp
  finally show ?thesis .
qed

lemma send_all_buffers [simp]:
  "fold (send_and_count K) es (s\<lparr>event_buffers := b\<rparr>) = (fold (send_and_count K) es s)\<lparr>event_buffers := b\<rparr>"
  by (induction es arbitrary: s) simp_all

lemma send_all_keeps_buffers [simp]: "event_buffers (fold (send_and_count K) es s) = event_buffers s"
  by (induction es arbitrary: s) simp_all

text \<open>A drained buffer: empty, and otherwise as before.\<close>

definition drained :: "event_buffer \<Rightarrow> event_buffer \<Rightarrow> bool" where
  "drained b b' \<longleftrightarrow> buffer_ok b' \<and> buffer_events b' = [] \<and> buffer_limit b' = buffer_limit b \<and>
     eb_dropped b' = eb_dropped b"

text \<open>
  The loop ends, leaves the buffer empty, and has the effect of sending the queued events one after
  the other, oldest first.
\<close>

lemma flush_one:
  assumes "cpu < length (event_buffers s)" "buffer_ok (event_buffers s ! cpu)"
    and "buffer_events (event_buffers s ! cpu) = es"
  shows "\<exists>b. flush_event_buffer K cpu s =
      Some ((fold (send_and_count K) es s)\<lparr>event_buffers := (event_buffers s)[cpu := b]\<rparr>) \<and>
    drained (event_buffers s ! cpu) b"
  using assms
proof (induction es arbitrary: s)
  case Nil
  then have "flush_event_buffer K cpu s = Some (s\<lparr>event_buffers := (event_buffers s)[cpu := event_buffers s ! cpu]\<rparr>)"
    by (simp add: flush_event_buffer.simps event_ring.pop_empty)
  moreover have "drained (event_buffers s ! cpu) (event_buffers s ! cpu)" using Nil by (simp add: drained_def)
  ultimately show ?case by (metis fold_simps(1))
next
  case (Cons e es)
  obtain b where b: "buffer_take (event_buffers s ! cpu) = (Some e, b)" "buffer_ok b" "buffer_events b = es"
    "buffer_limit b = buffer_limit (event_buffers s ! cpu)" "eb_dropped b = eb_dropped (event_buffers s ! cpu)"
    using buffer_take_next [OF Cons.prems(2,3)] by auto
  let ?s = "(send_and_count K e s)\<lparr>event_buffers := (event_buffers s)[cpu := b]\<rparr>"
  obtain b' where "flush_event_buffer K cpu ?s =
      Some ((fold (send_and_count K) es ?s)\<lparr>event_buffers := (event_buffers ?s)[cpu := b']\<rparr>)"
    "drained (event_buffers ?s ! cpu) b'"
    using Cons.IH [of ?s] Cons.prems(1) b by auto
  moreover have "flush_event_buffer K cpu s = flush_event_buffer K cpu ?s"
    by (subst flush_event_buffer.simps) (simp add: b)
  ultimately show ?case using Cons.prems(1) b(4,5) by (auto simp: drained_def)
qed

lemma flush_many:
  assumes "distinct cpus" "set cpus \<subseteq> {..<length (event_buffers s)}"
    and "\<forall>b \<in> set (event_buffers s). buffer_ok b"
  shows "\<exists>bs. flush_cpus K cpus s =
      Some ((fold (send_and_count K) (concat (map (\<lambda>c. buffer_events (event_buffers s ! c)) cpus)) s)
              \<lparr>event_buffers := bs\<rparr>) \<and>
    length bs = length (event_buffers s) \<and>
    (\<forall>c < length bs. (c \<in> set cpus \<longrightarrow> drained (event_buffers s ! c) (bs ! c)) \<and>
                      (c \<notin> set cpus \<longrightarrow> bs ! c = event_buffers s ! c))"
  using assms
proof (induction cpus arbitrary: s)
  case Nil
  show ?case by (rule exI [of _ "event_buffers s"]) simp
next
  case (Cons c cpus)
  let ?bs = "event_buffers s"
  have c: "c < length ?bs" "buffer_ok (?bs ! c)" using Cons.prems by auto
  obtain b where f: "flush_event_buffer K c s =
      Some ((fold (send_and_count K) (buffer_events (?bs ! c)) s)\<lparr>event_buffers := ?bs[c := b]\<rparr>)"
    and b: "drained (?bs ! c) b" using flush_one [OF c refl, of K] by blast
  let ?s = "(fold (send_and_count K) (buffer_events (?bs ! c)) s)\<lparr>event_buffers := ?bs[c := b]\<rparr>"
  have ok: "\<forall>x \<in> set (event_buffers ?s). buffer_ok x"
    using Cons.prems(3) b set_update_subset_insert [of ?bs c b] by (auto simp: drained_def)
  obtain bs where r: "flush_cpus K cpus ?s =
      Some ((fold (send_and_count K) (concat (map (\<lambda>c. buffer_events (event_buffers ?s ! c)) cpus)) ?s)
              \<lparr>event_buffers := bs\<rparr>)"
    and bs: "length bs = length ?bs" "\<forall>x < length bs. (x \<in> set cpus \<longrightarrow> drained (?bs[c := b] ! x) (bs ! x)) \<and>
                     (x \<notin> set cpus \<longrightarrow> bs ! x = ?bs[c := b] ! x)"
    using Cons.IH [OF _ _ ok] Cons.prems(1,2) by auto
  have same: "map (\<lambda>x. buffer_events (?bs[c := b] ! x)) cpus = map (\<lambda>x. buffer_events (?bs ! x)) cpus"
    using Cons.prems(1) by (intro map_cong refl) (metis distinct.simps(2) nth_list_update_neq)
  have "flush_cpus K (c # cpus) s = Some ((fold (send_and_count K)
      (concat (map (\<lambda>c. buffer_events (?bs ! c)) (c # cpus))) s)\<lparr>event_buffers := bs\<rparr>)"
    using f r same by simp
  moreover have "(x \<in> set (c # cpus) \<longrightarrow> drained (?bs ! x) (bs ! x)) \<and>
      (x \<notin> set (c # cpus) \<longrightarrow> bs ! x = ?bs ! x)" if "x < length bs" for x
    using bs that b c(1) Cons.prems(1) by (cases "x = c") (auto simp: nth_list_update_neq)
  ultimately show ?case using bs(1) by blast
qed

text \<open>All buffers well formed: the invariant of the event manager.\<close>

definition buffers_ok :: "('t, 'z) em_state_scheme \<Rightarrow> bool" where
  "buffers_ok s \<longleftrightarrow> (\<forall>b \<in> set (event_buffers s). buffer_ok b)"

definition pending :: "('t, 'z) em_state_scheme \<Rightarrow> photon_event list" where
  "pending s = concat (map buffer_events (event_buffers s))"

lemma pending_empty: "pending s = [] \<longleftrightarrow> (\<forall>b \<in> set (event_buffers s). buffer_events b = [])"
  by (auto simp: pending_def)

lemma flush_all:
  assumes "buffers_ok s"
  shows "\<exists>bs. flush_all_buffers K s = Some ((fold (send_and_count K) (pending s) s)\<lparr>event_buffers := bs\<rparr>) \<and>
    list_all2 drained (event_buffers s) bs"
proof -
  let ?n = "length (event_buffers s)"
  have "map (\<lambda>c. buffer_events (event_buffers s ! c)) [0..<?n] = map buffer_events (event_buffers s)"
    by (rule nth_equalityI) simp_all
  then have p: "concat (map (\<lambda>c. buffer_events (event_buffers s ! c)) [0..<?n]) = pending s"
    by (simp only: pending_def)
  have sub: "set [0..<?n] \<subseteq> {..<?n}" by auto
  obtain bs where bs: "flush_cpus K [0..<?n] s = Some ((fold (send_and_count K) (pending s) s)\<lparr>event_buffers := bs\<rparr>)"
    "length bs = ?n" "\<forall>c < length bs. c \<in> set [0..<?n] \<longrightarrow> drained (event_buffers s ! c) (bs ! c)"
    using flush_many [OF distinct_upt sub assms [unfolded buffers_ok_def], of K] unfolding p by blast
  then have "list_all2 drained (event_buffers s) bs" by (simp add: list_all2_conv_all_nth)
  with bs(1) show ?thesis unfolding flush_all_buffers_def by blast
qed

lemma drained_buffers:
  assumes "list_all2 drained bs0 bs"
  shows "\<forall>b \<in> set bs. buffer_ok b \<and> buffer_events b = []" "length bs = length bs0"
  using assms by (auto simp: list_all2_conv_all_nth in_set_conv_nth drained_def)

section \<open>Logging one event\<close>

text \<open>The payload argument points to as many bytes as the length says.\<close>

definition payload_ok :: "bytes option \<Rightarrow> u16 \<Rightarrow> bool" where
  "payload_ok data len \<longleftrightarrow> (\<forall>d. data = Some d \<longrightarrow> unat len \<le> length d)"

lemma build_event_ok:
  assumes "unat len \<le> 256" "payload_ok data len"
  shows "event_ok (build_event seq time ty det sev current data len)"
  using assms by (cases data) (auto simp: event_ok_def build_event_def memcpy_def payload_ok_def)

lemma enqueue_room:
  assumes "k_this_cpu K (now s) = cpu" "\<not> buffer_is_full (event_buffers s ! cpu)"
  shows "enqueue_event K ev s = (ok, s\<lparr>now := Suc (now s),
     event_buffers := (event_buffers s)[cpu := snd (buffer_put (event_buffers s ! cpu) ev)]\<rparr>)"
  using assms by (simp add: enqueue_event_def ext_def buffer_put_def)

lemma enqueue_full:
  assumes "k_this_cpu K (now s) = cpu" "buffer_is_full (event_buffers s ! cpu)"
  shows "enqueue_event K ev s = (Inl ENOSPC, s\<lparr>now := Suc (now s),
     event_buffers := (event_buffers s)[cpu := (event_buffers s ! cpu)\<lparr>eb_dropped := eb_dropped (event_buffers s ! cpu) + 1\<rparr>],
     total_dropped := total_dropped s + 1\<rparr>)"
  using assms by (simp add: enqueue_event_def ext_def buffer_put_def)

lemma buffers_ok_update:
  "buffers_ok s \<Longrightarrow> buffer_ok b \<Longrightarrow> \<forall>x \<in> set ((event_buffers s)[cpu := b]). buffer_ok x"
  using set_update_subset_insert [of "event_buffers s" cpu b] by (auto simp: buffers_ok_def)

lemma enqueue_buffers_ok:
  assumes "buffers_ok s" "cpus_ok K (length (event_buffers s))" "event_ok ev"
    and "enqueue_event K ev s = (r, s')"
  shows "buffers_ok s'" "length (event_buffers s') = length (event_buffers s)"
proof -
  let ?cpu = "k_this_cpu K (now s)" and ?b = "event_buffers s ! k_this_cpu K (now s)"
  have b: "buffer_ok ?b" using assms(1,2) by (simp add: buffers_ok_def cpus_ok_def)
  have upd: "event_buffers s' = (event_buffers s)[?cpu := snd (buffer_put ?b ev)]"
    using assms(4) by (auto simp: enqueue_event_def ext_def Let_def split: prod.splits if_splits)
  have "buffer_ok (snd (buffer_put ?b ev))" using event_ring.push_wf [OF b assms(3)] by simp
  then show "buffers_ok s'" using buffers_ok_update [OF assms(1)] by (simp add: buffers_ok_def upd)
  show "length (event_buffers s') = length (event_buffers s)" by (simp add: upd)
qed

lemma empty_not_full: "buffer_ok b \<Longrightarrow> buffer_events b = [] \<Longrightarrow> \<not> buffer_is_full b"
  by (simp add: buffer_full_iff) (simp add: buffer_limit_def buffer_ok_def)

text \<open>With all buffers empty, the event is the only one that is flushed.\<close>

lemma pending_single:
  assumes "buffers_ok s" "pending s = []" "cpu < length (event_buffers s)" "buffer_events b = [ev]"
  shows "concat (map buffer_events ((event_buffers s)[cpu := b])) = [ev]"
proof -
  let ?l = "take cpu (event_buffers s)" and ?r = "drop (Suc cpu) (event_buffers s)"
  have upd: "(event_buffers s)[cpu := b] = ?l @ b # ?r" using assms(3) by (rule upd_conv_take_nth_drop)
  have "\<forall>x \<in> set ?l \<union> set ?r. buffer_events x = []"
    using assms(2) by (auto simp: pending_empty dest!: in_set_takeD in_set_dropD)
  then have lr: "concat (map buffer_events ?l) = []" "concat (map buffer_events ?r) = []" by auto
  show ?thesis unfolding upd map_append concat_append list.map concat.simps lr assms(4) by simp
qed

text \<open>The abstract effect of logging an event: number it, count it, send it.\<close>

definition log_spec ::
  "'t kenv \<Rightarrow> task \<Rightarrow> u32 \<Rightarrow> u32 \<Rightarrow> u8 \<Rightarrow> bytes option \<Rightarrow> u16 \<Rightarrow> ('t, 'z) em_state_scheme \<Rightarrow>
   ('t, 'z) em_state_scheme" where
  "log_spec K current ty det sev data len s =
     send_and_count K
       (build_event (g_sequence_counter s + 1) (k_ktime_real_ns K (now s)) ty det sev current data len)
       (s\<lparr>g_sequence_counter := g_sequence_counter s + 1, total_events := total_events s + 1,
          now := Suc (Suc (now s))\<rparr>)"

lemma log_event_refines:
  assumes "buffers_ok s" "pending s = []" "cpus_ok K (length (event_buffers s))" "unat len \<le> 256"
    and "payload_ok data len"
  shows "\<exists>bs. photon_log_event K current ty det sev data len s =
      Some (ok, (log_spec K current ty det sev data len s)\<lparr>event_buffers := bs\<rparr>) \<and>
    length bs = length (event_buffers s) \<and> (\<forall>b \<in> set bs. buffer_ok b \<and> buffer_events b = [])"
proof -
  let ?ev = "build_event (g_sequence_counter s + 1) (k_ktime_real_ns K (now s)) ty det sev current data len"
  let ?s = "s\<lparr>g_sequence_counter := g_sequence_counter s + 1, now := Suc (now s),
              total_events := total_events s + 1\<rparr>"
  let ?cpu = "k_this_cpu K (Suc (now s))"
  let ?b = "event_buffers s ! ?cpu" and ?b' = "snd (buffer_put (event_buffers s ! ?cpu) ?ev)"
  let ?s1 = "?s\<lparr>now := Suc (Suc (now s)), event_buffers := (event_buffers s)[?cpu := ?b']\<rparr>"
  have cpu: "?cpu < length (event_buffers s)" using assms(3) by (simp add: cpus_ok_def)
  have b: "buffer_ok ?b" "buffer_events ?b = []"
    using assms(1,2) cpu by (simp_all add: buffers_ok_def pending_empty)
  have ev: "event_ok ?ev" using assms(4,5) by (rule build_event_ok)
  have enq: "enqueue_event K ?ev ?s = (ok, ?s1)"
    using enqueue_room [of K ?s ?cpu ?ev] empty_not_full [OF b] by simp
  have b': "buffer_ok ?b'" "buffer_events ?b' = [?ev]"
    using buffer_put_room [OF b(1) empty_not_full [OF b]] ev b(2) by simp_all
  have ok1: "buffers_ok ?s1" using buffers_ok_update [OF assms(1) b'(1)] by (simp add: buffers_ok_def)
  have pend: "pending ?s1 = [?ev]"
    using pending_single [OF assms(1,2) cpu b'(2)] by (simp add: pending_def)
  obtain bs where bs: "flush_all_buffers K ?s1 = Some ((send_and_count K ?ev ?s1)\<lparr>event_buffers := bs\<rparr>)"
    "list_all2 drained (event_buffers ?s1) bs"
    using flush_all [OF ok1, of K] pend by auto
  have order: "?s1 = s\<lparr>g_sequence_counter := g_sequence_counter s + 1, total_events := total_events s + 1,
          now := Suc (Suc (now s)), event_buffers := (event_buffers s)[?cpu := ?b']\<rparr>" by simp
  have "(send_and_count K ?ev ?s1)\<lparr>event_buffers := bs\<rparr> =
      (log_spec K current ty det sev data len s)\<lparr>event_buffers := bs\<rparr>"
    unfolding order log_spec_def send_and_count_buffers by simp
  moreover have "photon_log_event K current ty det sev data len s = Some (ok, (send_and_count K ?ev ?s1)\<lparr>event_buffers := bs\<rparr>)"
    using assms(4) enq bs(1) by (simp add: photon_log_event_def ext_def)
  ultimately show ?thesis using drained_buffers [OF bs(2)] by auto
qed

text \<open>What sending can change.\<close>

lemma send_frame:
  "\<exists>n m rb. snd (photon_send_encrypted_event K ev s) = s\<lparr>now := n, g_encryptions := m, g_ring := rb\<rparr>"
proof (cases "g_key_set s")
  case False
  then have "snd (photon_send_encrypted_event K ev s) =
      s\<lparr>now := now s, g_encryptions := g_encryptions s, g_ring := g_ring s\<rparr>" by (simp add: send_no_key)
  then show ?thesis by blast
next
  case True
  let ?m = "(k_stack K (now s))\<lparr>msg_rotation_num := g_rotation_counter s\<rparr>"
  obtain r s1 where r: "photon_encrypt_event K ev ?m (s\<lparr>now := Suc (now s)\<rparr>) = (r, s1)"
    by (cases "photon_encrypt_event K ev ?m (s\<lparr>now := Suc (now s)\<rparr>)")
  obtain n m where s1: "s1 = s\<lparr>now := n, g_encryptions := m\<rparr>"
  proof (cases rule: encrypt_cases [of K ev ?m "s\<lparr>now := Suc (now s)\<rparr>"])
    case (error e n)
    with r have "s1 = s\<lparr>now := n, g_encryptions := g_encryptions s\<rparr>" by auto
    then show thesis by (rule that)
  next
    case (encrypted t n n' n'' ct)
    with r that [where n = n'' and m = "g_encryptions s + 1"] show thesis by simp
  qed
  have "\<exists>rb. snd (photon_send_encrypted_event K ev s) = s1\<lparr>g_ring := rb\<rparr>"
  proof -
    have same: "\<exists>rb. s1 = s1\<lparr>g_ring := rb\<rparr>" by (rule exI [of _ "g_ring s1"]) simp
    from True r show ?thesis
      by (cases r) (auto simp: photon_send_encrypted_event_def photon_has_key_def same
          photon_get_rotation_number_def ext_def Let_def split: prod.splits)
  qed
  then show ?thesis using s1 by auto
qed

lemma send_and_count_frame:
  "\<exists>n m rb a b. send_and_count K ev s =
     s\<lparr>now := n, g_encryptions := m, g_ring := rb, total_sent := a, send_failures := b\<rparr> \<and>
     a + b = total_sent s + send_failures s + 1"
proof -
  obtain r s1 where r: "photon_send_encrypted_event K ev s = (r, s1)"
    by (cases "photon_send_encrypted_event K ev s")
  obtain n m rb where s1: "s1 = s\<lparr>now := n, g_encryptions := m, g_ring := rb\<rparr>"
    using send_frame [of K ev s] r by auto
  show ?thesis
  proof (cases r)
    case (Inl e)
    have "send_and_count K ev s = s\<lparr>now := n, g_encryptions := m, g_ring := rb,
        total_sent := total_sent s, send_failures := send_failures s + 1\<rparr>"
      using r s1 Inl by (simp add: send_and_count_def)
    moreover have "total_sent s + (send_failures s + 1) = total_sent s + send_failures s + 1" by simp
    ultimately show ?thesis by blast
  next
    case (Inr u)
    have "send_and_count K ev s = s\<lparr>now := n, g_encryptions := m, g_ring := rb,
        total_sent := total_sent s + 1, send_failures := send_failures s\<rparr>"
      using r s1 Inr by (simp add: send_and_count_def)
    moreover have "(total_sent s + 1) + send_failures s = total_sent s + send_failures s + 1" by simp
    ultimately show ?thesis by blast
  qed
qed

lemma send_and_count_keeps [simp]:
  "g_sequence_counter (send_and_count K ev s) = g_sequence_counter s"
  "total_events (send_and_count K ev s) = total_events s"
  "total_dropped (send_and_count K ev s) = total_dropped s"
  "g_key_set (send_and_count K ev s) = g_key_set s"
  "g_session_key (send_and_count K ev s) = g_session_key s"
  "g_rotation_counter (send_and_count K ev s) = g_rotation_counter s"
  using send_and_count_frame [of K ev s] by auto

lemma send_and_count_total:
  "total_sent (send_and_count K ev s) + send_failures (send_and_count K ev s)
     = total_sent s + send_failures s + 1"
  using send_and_count_frame [of K ev s] by auto

lemma send_all_keeps [simp]:
  "g_sequence_counter (fold (send_and_count K) es s) = g_sequence_counter s"
  "total_events (fold (send_and_count K) es s) = total_events s"
  by (induction es arbitrary: s) simp_all

lemma send_all_total:
  "total_sent (fold (send_and_count K) es s) + send_failures (fold (send_and_count K) es s)
     = total_sent s + send_failures s + of_nat (length es)"
  by (induction es arbitrary: s) (simp_all add: send_and_count_total)

lemma flush_all_result:
  assumes "buffers_ok s"
  obtains s' where "flush_all_buffers K s = Some s'" "buffers_ok s'" "pending s' = []"
    "length (event_buffers s') = length (event_buffers s)"
    "g_sequence_counter s' = g_sequence_counter s" "total_events s' = total_events s"
    "total_sent s' + send_failures s' = total_sent s + send_failures s + of_nat (length (pending s))"
proof -
  obtain bs where bs: "flush_all_buffers K s = Some ((fold (send_and_count K) (pending s) s)\<lparr>event_buffers := bs\<rparr>)"
    "list_all2 drained (event_buffers s) bs" using flush_all [OF assms] by blast
  show thesis
    by (rule that [OF bs(1)]) (use drained_buffers [OF bs(2)] in \<open>simp_all add: buffers_ok_def pending_def send_all_total\<close>)
qed

lemma log_event_total:
  assumes "buffers_ok s" "cpus_ok K (length (event_buffers s))" "payload_ok data len" "unat len \<le> 256"
  shows "\<exists>s'. photon_log_event K current ty det sev data len s = Some (ok, s') \<and> buffers_ok s' \<and>
    pending s' = [] \<and> length (event_buffers s') = length (event_buffers s) \<and>
    g_sequence_counter s' = g_sequence_counter s + 1 \<and> total_events s' = total_events s + 1"
proof -
  let ?ev = "build_event (g_sequence_counter s + 1) (k_ktime_real_ns K (now s)) ty det sev current data len"
  let ?s = "s\<lparr>g_sequence_counter := g_sequence_counter s + 1, now := Suc (now s),
              total_events := total_events s + 1\<rparr>"
  have ev: "event_ok ?ev" using assms(3,4) by (simp add: build_event_ok)
  have ok0: "buffers_ok ?s" using assms(1) by (simp add: buffers_ok_def)
  obtain r s1 where e1: "enqueue_event K ?ev ?s = (r, s1)" by (cases "enqueue_event K ?ev ?s")
  note b1 = enqueue_buffers_ok [OF ok0 _ ev e1]
  have keep: "g_sequence_counter x' = g_sequence_counter x \<and> total_events x' = total_events x"
    if "enqueue_event K ?ev x = (q, x')" for q x x'
    using that by (auto simp: enqueue_event_def ext_def Let_def split: prod.splits if_splits)
  obtain s2 where f2: "flush_all_buffers K s1 = Some s2" "buffers_ok s2" "pending s2 = []"
    "length (event_buffers s2) = length (event_buffers s)"
    "g_sequence_counter s2 = g_sequence_counter s + 1" "total_events s2 = total_events s + 1"
    using flush_all_result [of s1 K] b1 keep [OF e1] assms(2) by auto
  show ?thesis
  proof (cases r)
    case (Inr u)
    then show ?thesis using assms(4) e1 f2 by (simp add: photon_log_event_def ext_def)
  next
    case (Inl e)
    let ?cpu = "k_this_cpu K (now s2)"
    have "?cpu < length (event_buffers s2)" using assms(2) f2(4) by (simp add: cpus_ok_def)
    then have "\<not> buffer_is_full (event_buffers s2 ! ?cpu)"
      using f2(2,3) by (intro empty_not_full) (simp_all add: buffers_ok_def pending_empty)
    then obtain s3 where e3: "enqueue_event K ?ev s2 = (ok, s3)" using enqueue_room [OF refl] by blast
    note b3 = enqueue_buffers_ok [OF f2(2) _ ev e3]
    obtain s4 where f4: "flush_all_buffers K s3 = Some s4" "buffers_ok s4" "pending s4 = []"
      "length (event_buffers s4) = length (event_buffers s)"
      "g_sequence_counter s4 = g_sequence_counter s + 1" "total_events s4 = total_events s + 1"
      using flush_all_result [of s3 K] b3 keep [OF e3] assms(2) f2 by auto
    show ?thesis using assms(4) e1 Inl f2(1) e3 f4 by (simp add: photon_log_event_def ext_def)
  qed
qed

section \<open>The invariant of the running module\<close>

text \<open>
  Between calls: the crypto invariant, a complete device, well-formed event buffers, and no event
  waiting in them, because every logged event is flushed before the call returns.
\<close>

definition em_inv :: "'t kenv \<Rightarrow> ('t \<Rightarrow> bytes \<Rightarrow> bool) \<Rightarrow> ('t, 'z) em_state_scheme \<Rightarrow> bool" where
  "em_inv K has_key s \<longleftrightarrow> crypto_inv K has_key s \<and> cdev_up s \<and> buffers_ok s \<and> pending s = []"

text \<open>The environment in which the module runs on \<open>n\<close> CPUs.\<close>

definition env_ok ::
  "'t kenv \<Rightarrow> ('t \<Rightarrow> bytes \<Rightarrow> bool) \<Rightarrow> (bytes \<Rightarrow> bytes \<Rightarrow> bytes \<Rightarrow> bytes) \<Rightarrow>
   (bytes \<Rightarrow> bytes \<Rightarrow> bytes \<Rightarrow> bytes option) \<Rightarrow> nat \<Rightarrow> bool" where
  "env_ok K has_key seal unseal n \<longleftrightarrow>
     hmac_ok K \<and> random_ok K \<and> events_ok K \<and> cpus_ok K n \<and> aead_laws K has_key seal unseal"

lemma env_okD:
  assumes "env_ok K has_key seal unseal n"
  shows "hmac_ok K" "random_ok K" "events_ok K" "cpus_ok K n" "aead_laws K has_key seal unseal"
  using assms by (simp_all add: env_ok_def)

lemma demo_env_all: "env_ok demo_env (\<lambda>t k. t = k) demo_seal demo_unseal 2"
  using demo_env_ok by (simp add: env_ok_def)

lemma cdev_up_push:
  assumes "cdev_up s" "frame_fits f"
  shows "cdev_up (s\<lparr>g_ring := snd (push_frame (g_ring s) f)\<rparr>)"
  using assms frame_ring.push_wf [of "g_ring s" f] by (simp add: cdev_up_def)

lemma cdev_up_frame:
  "cdev_up s \<Longrightarrow> g_ring s' = g_ring s \<Longrightarrow> chrdev_region s' = chrdev_region s \<Longrightarrow>
   cdev_added s' = cdev_added s \<Longrightarrow> class_created s' = class_created s \<Longrightarrow>
   device_created s' = device_created s \<Longrightarrow> cdev_up s'"
  by (simp add: cdev_up_def)

text \<open>
  One send: the crypto state stays, and the ring gets the frame of the event or, when encryption
  fails or no key is set, nothing.
\<close>

lemma send_and_count_effect:
  assumes env: "env_ok K has_key seal unseal n" and inv: "crypto_inv K has_key s" "cdev_up s"
    and ev: "event_ok ev"
  shows "crypto_inv K has_key (send_and_count K ev s)" "cdev_up (send_and_count K ev s)"
    and "\<not> g_key_set s \<Longrightarrow> g_ring (send_and_count K ev s) = g_ring s \<and>
      total_sent (send_and_count K ev s) = total_sent s + 1"
    and "g_key_set s \<Longrightarrow>
      (send_failures (send_and_count K ev s) = send_failures s + 1 \<and> g_ring (send_and_count K ev s) = g_ring s) \<or>
      (\<exists>iv. length iv = 12 \<and> total_sent (send_and_count K ev s) = total_sent s + 1 \<and>
         ring_frames (g_ring (send_and_count K ev s)) =
           take 255 (ring_frames (g_ring s) @ [frame_spec seal (g_session_key s) (g_rotation_counter s) iv ev]))"
proof -
  show "crypto_inv K has_key (send_and_count K ev s)"
    using send_and_count_frame [of K ev s] by (auto intro: crypto_inv_frame [OF inv(1)])
  show nokey: "\<not> g_key_set s \<Longrightarrow> g_ring (send_and_count K ev s) = g_ring s \<and>
      total_sent (send_and_count K ev s) = total_sent s + 1"
    by (simp add: send_and_count_def send_no_key)
  have main: "cdev_up (send_and_count K ev s) \<and>
      ((send_failures (send_and_count K ev s) = send_failures s + 1 \<and> g_ring (send_and_count K ev s) = g_ring s) \<or>
      (\<exists>iv. length iv = 12 \<and> total_sent (send_and_count K ev s) = total_sent s + 1 \<and>
         ring_frames (g_ring (send_and_count K ev s)) =
           take 255 (ring_frames (g_ring s) @ [frame_spec seal (g_session_key s) (g_rotation_counter s) iv ev])))"
    if key: "g_key_set s"
  proof (cases rule: send_cases [OF env_okD(5,2) [OF env] inv(1) ev key])
    case (1 e m)
    then have "send_and_count K ev s = s\<lparr>now := m, send_failures := send_failures s + 1\<rparr>"
      by (simp add: send_and_count_def)
    with inv(2) show ?thesis by (simp add: cdev_up_def)
  next
    case (2 iv m)
    let ?f = "frame_spec seal (g_session_key s) (g_rotation_counter s) iv ev"
    have fits: "frame_fits ?f" by (rule frame_spec_fits [OF env_okD(5) [OF env] ev 2(1)])
    have eq: "send_and_count K ev s = s\<lparr>now := m, g_encryptions := g_encryptions s + 1,
        g_ring := snd (push_frame (g_ring s) ?f), total_sent := total_sent s + 1\<rparr>"
      using 2(2) by (simp add: send_and_count_def)
    have "cdev_up (send_and_count K ev s)"
      using cdev_up_push [OF inv(2) fits] by (simp add: eq cdev_up_def)
    moreover have "ring_frames (g_ring (send_and_count K ev s)) = take 255 (ring_frames (g_ring s) @ [?f])"
      using inv(2) frame_ring.push_contents [OF _ fits, of "g_ring s"] by (simp add: eq cdev_up_def)
    ultimately show ?thesis using 2(1) by (auto simp: eq)
  qed
  then show "cdev_up (send_and_count K ev s)"
    using inv(2) nokey send_and_count_frame [of K ev s] by (cases "g_key_set s") (auto simp: cdev_up_def)
  show "g_key_set s \<Longrightarrow>
      (send_failures (send_and_count K ev s) = send_failures s + 1 \<and> g_ring (send_and_count K ev s) = g_ring s) \<or>
      (\<exists>iv. length iv = 12 \<and> total_sent (send_and_count K ev s) = total_sent s + 1 \<and>
         ring_frames (g_ring (send_and_count K ev s)) =
           take 255 (ring_frames (g_ring s) @ [frame_spec seal (g_session_key s) (g_rotation_counter s) iv ev]))"
    using main by blast
qed

lemma buffers_irrelevant:
  "crypto_inv K has_key (s\<lparr>event_buffers := bs\<rparr>) = crypto_inv K has_key s"
  "cdev_up (s\<lparr>event_buffers := bs\<rparr>) = cdev_up s"
  by (simp_all add: crypto_inv_def cdev_up_def)

lemma log_spec_inv:
  assumes "env_ok K has_key seal unseal n" "crypto_inv K has_key s" "cdev_up s"
    and "unat len \<le> 256" "payload_ok data len"
  shows "crypto_inv K has_key (log_spec K current ty det sev data len s)"
    "cdev_up (log_spec K current ty det sev data len s)"
proof -
  let ?s = "s\<lparr>g_sequence_counter := g_sequence_counter s + 1, total_events := total_events s + 1,
          now := Suc (Suc (now s))\<rparr>"
  have "crypto_inv K has_key ?s" "cdev_up ?s"
    using assms(2,3) by (auto simp: crypto_inv_def cdev_up_def)
  from send_and_count_effect(1,2) [OF assms(1) this build_event_ok [OF assms(4,5)]]
  show "crypto_inv K has_key (log_spec K current ty det sev data len s)"
    "cdev_up (log_spec K current ty det sev data len s)" by (simp_all add: log_spec_def)
qed

lemma log_event_inv:
  assumes "env_ok K has_key seal unseal (length (event_buffers s))" "em_inv K has_key s"
    and "payload_ok data len" "photon_log_event K current ty det sev data len s = Some (r, s')"
  shows "em_inv K has_key s' \<and> length (event_buffers s') = length (event_buffers s)"
proof (cases "unat len \<le> 256")
  case False
  with assms(2,4) show ?thesis by (simp add: photon_log_event_def)
next
  case True
  have s: "crypto_inv K has_key s" "cdev_up s" "buffers_ok s" "pending s = []"
    using assms(2) by (simp_all add: em_inv_def)
  obtain bs where bs: "photon_log_event K current ty det sev data len s =
      Some (ok, (log_spec K current ty det sev data len s)\<lparr>event_buffers := bs\<rparr>)"
    "length bs = length (event_buffers s)" "\<forall>b \<in> set bs. buffer_ok b \<and> buffer_events b = []"
    using log_event_refines [OF s(3,4) env_okD(4) [OF assms(1)] True assms(3)] by blast
  then have "s' = (log_spec K current ty det sev data len s)\<lparr>event_buffers := bs\<rparr>" using assms(4) by simp
  then show ?thesis
    using bs(2,3) log_spec_inv [OF assms(1) s(1,2) True assms(3), of current ty det sev]
    by (simp add: em_inv_def buffers_irrelevant) (simp add: buffers_ok_def pending_empty)
qed

text \<open>The static variables that logging never touches.\<close>

definition same_statics :: "('t, 'z) em_state_scheme \<Rightarrow> ('t, 'z) em_state_scheme \<Rightarrow> bool" where
  "same_statics s s' \<longleftrightarrow> g_is_open s' = g_is_open s \<and> g_shutting_down s' = g_shutting_down s \<and>
     g_read_staging s' = g_read_staging s \<and> g_master_key s' = g_master_key s \<and>
     g_key_set s' = g_key_set s \<and> g_session_key s' = g_session_key s \<and>
     g_rotation_counter s' = g_rotation_counter s \<and> g_tfm s' = g_tfm s"

lemma log_spec_statics: "same_statics s ((log_spec K current ty det sev data len s)\<lparr>event_buffers := bs\<rparr>)"
proof -
  have "same_statics s (send_and_count K ev (s\<lparr>g_sequence_counter := a, total_events := b, now := c\<rparr>))" for ev a b c
    using send_and_count_frame [of K ev "s\<lparr>g_sequence_counter := a, total_events := b, now := c\<rparr>"]
    by (auto simp: same_statics_def)
  then show ?thesis by (simp add: log_spec_def same_statics_def)
qed

lemma log_event_statics:
  assumes "buffers_ok s" "pending s = []" "cpus_ok K (length (event_buffers s))" "payload_ok data len"
    and "photon_log_event K current ty det sev data len s = Some (r, s')"
  shows "same_statics s s'"
proof (cases "unat len \<le> 256")
  case True
  from log_event_refines [OF assms(1-3) True assms(4), of current ty det sev] assms(5)
  show ?thesis using log_spec_statics by auto
next
  case False
  with assms(5) show ?thesis by (simp add: photon_log_event_def same_statics_def)
qed

section \<open>Bringing the module's core up and down\<close>

definition em_down :: "('t, 'z) em_state_scheme \<Rightarrow> bool" where
  "em_down s \<longleftrightarrow> cdev_down s \<and> (\<forall>b \<in> set (event_buffers s). eb_events b = []) \<and> g_tfm s = None \<and>
     \<not> g_key_set s \<and> \<not> crypto_mutex s"

lemma init_event_buffer_ok:
  assumes "events_ok K" "k_new_events K n = Some es"
  shows "buffer_ok (snd (init_event_buffer (Some es) buf))"
    "buffer_events (snd (init_event_buffer (Some es) buf)) = []"
  using assms by (auto simp: init_event_buffer_def buffer_ok_def events_ok_def EVENT_BUFFER_SIZE_def
      buffer_events_def ring_list_def ring_len_def)

lemma init_cpus_frame:
  "\<exists>n bs. snd (init_cpus K cpus s) = s\<lparr>now := n, event_buffers := bs\<rparr> \<and> length bs = length (event_buffers s)"
proof (induction cpus arbitrary: s)
  case Nil
  have "s = s\<lparr>now := now s, event_buffers := event_buffers s\<rparr>" by simp
  then show ?case by (metis init_cpus.simps(1) snd_conv)
next
  case (Cons cpu cpus)
  obtain ret buf where i: "init_event_buffer (k_new_events K (now s)) (event_buffers s ! cpu) = (ret, buf)"
    by (cases "init_event_buffer (k_new_events K (now s)) (event_buffers s ! cpu)")
  let ?s = "s\<lparr>now := Suc (now s), event_buffers := (event_buffers s)[cpu := buf]\<rparr>"
  have eq: "init_cpus K (cpu # cpus) s = (if failed ret then (ret, ?s) else init_cpus K cpus ?s)"
    using i by (simp add: ext_def)
  obtain n bs where "snd (init_cpus K cpus ?s) = ?s\<lparr>now := n, event_buffers := bs\<rparr>"
    "length bs = length (event_buffers ?s)" using Cons.IH by blast
  moreover have "\<exists>n bs. ?s = s\<lparr>now := n, event_buffers := bs\<rparr> \<and> length bs = length (event_buffers s)"
    by (intro exI [of _ "Suc (now s)"] exI [of _ "(event_buffers s)[cpu := buf]"]) simp
  ultimately show ?case unfolding eq by (cases "failed ret") auto
qed

lemma init_cpus_ok:
  assumes "events_ok K" "init_cpus K cpus s = (Inr u, s')" "set cpus \<subseteq> {..<length (event_buffers s)}"
    and "c \<in> set cpus \<or>
      (c < length (event_buffers s) \<and> buffer_ok (event_buffers s ! c) \<and> buffer_events (event_buffers s ! c) = [])"
  shows "buffer_ok (event_buffers s' ! c) \<and> buffer_events (event_buffers s' ! c) = []"
  using assms(2-)
proof (induction cpus arbitrary: s)
  case (Cons cpu cpus)
  obtain es where mem: "k_new_events K (now s) = Some es"
    using Cons.prems(1) by (cases "k_new_events K (now s)") (auto simp: ext_def init_event_buffer_def)
  let ?buf = "snd (init_event_buffer (Some es) (event_buffers s ! cpu))"
  let ?s = "s\<lparr>now := Suc (now s), event_buffers := (event_buffers s)[cpu := ?buf]\<rparr>"
  have step: "init_cpus K cpus ?s = (Inr u, s')"
    using Cons.prems(1) mem by (simp add: ext_def init_event_buffer_def)
  have c: "c < length (event_buffers s)" using Cons.prems(2,3) by auto
  have "c \<in> set cpus \<or> (c < length (event_buffers ?s) \<and> buffer_ok (event_buffers ?s ! c) \<and>
      buffer_events (event_buffers ?s ! c) = [])"
    using Cons.prems(3) c init_event_buffer_ok [OF assms(1) mem] by (cases "c = cpu") auto
  then show ?case using Cons.IH [OF step] Cons.prems(2) by simp
qed auto

lemma free_all_down: "\<forall>b \<in> set (event_buffers (free_all_buffers s)). eb_events b = []"
  by (auto simp: free_all_buffers_def free_event_buffer_def)

lemma free_all_frame:
  "em_down (free_all_buffers s) \<longleftrightarrow> cdev_down s \<and> g_tfm s = None \<and> \<not> g_key_set s \<and> \<not> crypto_mutex s"
  using free_all_down [of s] by (simp add: em_down_def cdev_down_def free_all_buffers_def)

lemma crypto_exit_idle: "\<not> g_key_set s \<Longrightarrow> crypto_layer_exit s = Some (s\<lparr>g_tfm := None\<rparr>)"
  by (cases "g_tfm s") (simp_all add: crypto_layer_exit_def)

lemma crypto_exit_keyed:
  "g_key_set s \<Longrightarrow> \<not> crypto_mutex s \<Longrightarrow> crypto_layer_exit s = Some (s\<lparr>g_tfm := None,
     g_master_key := zeros 32, g_session_key := zeros 32, g_key_set := False\<rparr>)"
  by (cases "g_tfm s") (simp_all add: crypto_layer_exit_def mutex_lock_free mutex_unlock_def
      forget_keys_def mutex_idle)

lemma em_init_cases:
  assumes ev: "events_ok K" and down: "em_down s"
  obtains
    (up) s' where "event_manager_init K s = Some (ok, s')" "em_inv K has_key s'" "\<not> g_key_set s'"
      "length (event_buffers s') = length (event_buffers s)" "ring_frames (g_ring s') = []"
      "total_events s' = 0" "total_dropped s' = 0" "total_sent s' = 0" "send_failures s' = 0"
  | (failed) e s' where "event_manager_init K s = Some (Inl e, s')" "em_down s'"
proof -
  let ?n = "length (event_buffers s)"
  obtain r s1 where i: "init_cpus K [0..<?n] s = (r, s1)" by (cases "init_cpus K [0..<?n] s")
  obtain m bs where s1: "s1 = s\<lparr>now := m, event_buffers := bs\<rparr>" "length bs = ?n"
    using init_cpus_frame [of K "[0..<?n]" s] i by auto
  have d: "cdev_down s1" "g_tfm s1 = None" "\<not> g_key_set s1" "\<not> crypto_mutex s1"
    using down s1 by (simp_all add: em_down_def cdev_down_def)
  show thesis
  proof (cases r)
    case (Inl e)
    with i have "event_manager_init K s = Some (Inl e, free_all_buffers s1)"
      by (simp add: event_manager_init_def)
    with d show thesis using failed free_all_frame by blast
  next
    case (Inr u)
    have bufs: "\<forall>b \<in> set bs. buffer_ok b \<and> buffer_events b = []"
    proof
      fix b assume "b \<in> set bs"
      then obtain c where c: "c < ?n" "b = event_buffers s1 ! c" using s1 by (auto simp: in_set_conv_nth)
      have "set [0..<?n] \<subseteq> {..<?n}" by auto
      from init_cpus_ok [OF ev i [unfolded Inr] this, of c] c
      show "buffer_ok b \<and> buffer_events b = []" by simp
    qed
    let ?s1 = "s1\<lparr>total_events := 0, total_dropped := 0, total_sent := 0, send_failures := 0\<rparr>"
    show thesis
    proof (cases "k_alloc_aead K (now s1)")
      case Inl2: (Inl e)
      have "event_manager_init K s = Some (Inl e, free_all_buffers (?s1\<lparr>now := Suc (now s1), g_tfm := None\<rparr>))"
        using i Inr Inl2 by (simp add: event_manager_init_def crypto_layer_init_def ext_def)
      moreover have "em_down (free_all_buffers (?s1\<lparr>now := Suc (now s1), g_tfm := None\<rparr>))"
        using d by (simp add: free_all_frame) (simp add: cdev_down_def)
      ultimately show thesis by (rule failed)
    next
      case Inr2: (Inr t)
      let ?s2 = "?s1\<lparr>now := Suc (now s1), g_tfm := Some t\<rparr>"
      have i2: "crypto_layer_init K ?s1 = (ok, ?s2)" using Inr2 by (simp add: crypto_layer_init_def ext_def)
      have down2: "cdev_down ?s2" using d(1) by (simp add: cdev_down_def)
      have keep: "g_key_set s3 = False \<and> crypto_mutex s3 = False \<and> event_buffers s3 = bs \<and>
          total_events s3 = 0 \<and> total_dropped s3 = 0 \<and> total_sent s3 = 0 \<and> send_failures s3 = 0"
        if "cdev_channel_init K ?s2 = (q, s3)" for q s3
        using that d s1 by (auto simp: cdev_channel_init_def ext_def kmalloc_def Let_def cdev_unwind
            split: sum.splits prod.splits if_splits)
      from down2 show thesis
      proof (cases rule: cdev_init_up_or_down [where K = K])
        case (up s3)
        have "event_manager_init K s = Some (ok, s3)"
          using i Inr i2 up(1) by (simp add: event_manager_init_def)
        moreover have "em_inv K has_key s3"
          using keep [OF up(1)] up(2) bufs
          by (simp add: em_inv_def crypto_inv_def buffers_ok_def pending_empty)
        ultimately show thesis using that(1) keep [OF up(1)] up(3) s1(2) by auto
      next
        case (down e s3)
        have "event_manager_init K s = Some (Inl e, free_all_buffers (s3\<lparr>g_tfm := None\<rparr>))"
          using i Inr i2 down(1) crypto_exit_idle [of s3] keep [OF down(1)]
          by (simp add: event_manager_init_def)
        moreover have "em_down (free_all_buffers (s3\<lparr>g_tfm := None\<rparr>))"
          using down(2) keep [OF down(1)] by (simp add: free_all_frame) (simp add: cdev_down_def)
        ultimately show thesis by (rule failed)
      qed
    qed
  qed
qed

lemma em_exit_down:
  assumes "em_inv K has_key s"
  shows "\<exists>s'. event_manager_exit K s = Some s' \<and> em_down s' \<and>
    (g_key_set s \<longrightarrow> g_master_key s' = zeros 32 \<and> g_session_key s' = zeros 32)"
proof -
  have s: "crypto_inv K has_key s" "buffers_ok s" "pending s = []"
    using assms by (simp_all add: em_inv_def)
  obtain bs where f: "flush_all_buffers K s = Some (s\<lparr>event_buffers := bs\<rparr>)"
    using flush_all [OF s(2), of K] s(3) by auto
  let ?s = "cdev_channel_exit (s\<lparr>event_buffers := bs\<rparr>)"
  have d: "cdev_down ?s" by (rule cdev_exit_down)
  have k: "g_key_set ?s = g_key_set s" "\<not> crypto_mutex ?s"
    using s(1) by (simp_all add: cdev_channel_exit_def crypto_inv_def)
  show ?thesis
  proof (cases "g_key_set s")
    case True
    have "event_manager_exit K s = Some (free_all_buffers (?s\<lparr>g_tfm := None,
     g_master_key := zeros 32, g_session_key := zeros 32, g_key_set := False\<rparr>))"
      using f crypto_exit_keyed [of ?s] True k by (simp add: event_manager_exit_def)
    moreover have "em_down (free_all_buffers (?s\<lparr>g_tfm := None,
     g_master_key := zeros 32, g_session_key := zeros 32, g_key_set := False\<rparr>))"
      using d k by (simp add: free_all_frame) (simp add: cdev_down_def)
    ultimately show ?thesis by (simp add: free_all_buffers_def)
  next
    case False
    have "event_manager_exit K s = Some (free_all_buffers (?s\<lparr>g_tfm := None\<rparr>))"
      using f crypto_exit_idle [of ?s] False k by (simp add: event_manager_exit_def)
    moreover have "em_down (free_all_buffers (?s\<lparr>g_tfm := None\<rparr>))"
      using d k False by (simp add: free_all_frame) (simp add: cdev_down_def)
    ultimately show ?thesis using False by simp
  qed
qed

section \<open>Properties\<close>

text \<open>A state of the running module in the concrete environment, with two CPUs and a key.\<close>

definition demo_buffer :: event_buffer where
  "demo_buffer = snd (init_event_buffer (Some (replicate 256 demo_event))
     \<lparr>eb_events = [], eb_head = 0, eb_tail = 0, eb_capacity = 0, eb_dropped = 0\<rparr>)"

definition demo_em :: "bytes em_state" where
  "demo_em = cdev_state.extend
     (demo_cdev\<lparr>g_ring := snd (ring_buf_init True PHOTON_RING_BUF_FRAMES (g_ring demo_cdev))\<rparr>)
     \<lparr>g_sequence_counter = 0, event_buffers = [demo_buffer, demo_buffer], total_events = 0,
      total_dropped = 0, total_sent = 0, send_failures = 0\<rparr>"

lemma demo_buffer_ok: "buffer_ok demo_buffer" "buffer_events demo_buffer = []"
  using init_event_buffer_ok [OF demo_env_events, of 0 "replicate 256 demo_event"]
  by (simp_all add: demo_buffer_def demo_env_def)

lemma demo_em_inv: "em_inv demo_env (\<lambda>t k. t = k) demo_em"
  using demo_buffer_ok demo_cdev_inv ring_buf_init_ok [of PHOTON_RING_BUF_FRAMES "g_ring demo_cdev"]
  by (auto simp: em_inv_def crypto_inv_def cdev_up_def buffers_ok_def pending_def demo_em_def
      cdev_state.defs demo_cdev_def crypto_state.defs keyed_state_def initial_crypto_state_def
      PHOTON_RING_BUF_FRAMES_def ring_limit_def ring_buf_init_def)

lemma demo_em_parts: "length (event_buffers demo_em) = 2" "g_key_set demo_em"
  "buffers_ok demo_em" "pending demo_em = []"
  using demo_em_inv demo_cdev_inv(2)
  by (simp_all add: em_inv_def) (simp_all add: demo_em_def cdev_state.defs demo_cdev_def crypto_state.defs
      keyed_state_def)

text \<open>
  C16. \<open>photon_log_event\<close> always returns.  From every state with well-formed event buffers, however
  full they are, the flush loops end, a payload of more than 256 bytes is refused with \<open>EINVAL\<close>
  and changes nothing, and every other call returns 0, leaves every per-CPU buffer empty and
  well formed, and takes exactly one sequence number.
\<close>

theorem log_event_always_returns:
  assumes "buffers_ok s" "cpus_ok K (length (event_buffers s))" "payload_ok data len"
  shows "\<exists>s'. photon_log_event K current ty det sev data len s =
      Some (if unat len > 256 then Inl EINVAL else ok, s') \<and>
    (if unat len > 256 then s' = s
     else buffers_ok s' \<and> pending s' = [] \<and> photon_get_sequence s' = photon_get_sequence s + 1 \<and>
       total_events s' = total_events s + 1)"
proof (cases "unat len \<le> 256")
  case True
  then show ?thesis
    using log_event_total [OF assms True, of current ty det sev] by (auto simp: photon_get_sequence_def)
next
  case False
  then show ?thesis by (simp add: photon_log_event_def)
qed

theorem log_event_always_returns_witness:
  "\<exists>s'. photon_log_event demo_env \<lparr>task_pid = 7, task_comm = ''sh''\<rparr> 1 1 0 (Some [1, 2]) 2 demo_em = Some (ok, s') \<and>
     buffers_ok s' \<and> pending s' = [] \<and> photon_get_sequence s' = photon_get_sequence demo_em + 1 \<and>
     total_events s' = total_events demo_em + 1"
proof -
  have "payload_ok (Some [1, 2]) 2" by (simp add: payload_ok_def)
  from log_event_always_returns [OF demo_em_parts(3) _ this, of demo_env] show ?thesis
    using demo_env_cpus by (simp add: demo_em_parts(1))
qed

text \<open>
  C5. The event buffers are transparent: in the running module \<open>photon_log_event\<close> refines the
  abstract operation \<open>log_spec\<close> (number the event, count it, send it once), whichever CPUs the two
  halves run on; only the contents of the drained buffers differ.
\<close>

theorem log_event_refines_spec:
  assumes "em_inv K has_key s" "cpus_ok K (length (event_buffers s))" "unat len \<le> 256" "payload_ok data len"
  shows "\<exists>bs. photon_log_event K current ty det sev data len s =
      Some (ok, (log_spec K current ty det sev data len s)\<lparr>event_buffers := bs\<rparr>) \<and>
    length bs = length (event_buffers s) \<and> (\<forall>b \<in> set bs. buffer_ok b \<and> buffer_events b = [])"
  using log_event_refines [OF _ _ assms(2-4)] assms(1) by (simp add: em_inv_def)

theorem log_event_refines_spec_witness:
  "\<exists>bs. photon_log_event demo_env \<lparr>task_pid = 7, task_comm = ''sh''\<rparr> 1 1 0 None 0 demo_em =
      Some (ok, (log_spec demo_env \<lparr>task_pid = 7, task_comm = ''sh''\<rparr> 1 1 0 None 0 demo_em)\<lparr>event_buffers := bs\<rparr>) \<and>
    length bs = 2 \<and> (\<forall>b \<in> set bs. buffer_ok b \<and> buffer_events b = [])"
proof -
  have "payload_ok None 0" by (simp add: payload_ok_def)
  from log_event_refines_spec [OF demo_em_inv _ _ this] show ?thesis
    using demo_env_cpus by (simp add: demo_em_parts(1))
qed



text \<open>
  C38. Before the key exchange events are lost: while no key is set \<open>photon_log_event\<close> returns 0 and
  counts the event as sent, but nothing reaches the frame ring and nothing stays in the event
  buffers (the comments of \<open>cdev_ch.c\<close> and \<open>main.c\<close> say such events are buffered until encryption
  is active).
\<close>

theorem log_event_without_key_is_lost:
  assumes "env_ok K has_key seal unseal (length (event_buffers s))" "em_inv K has_key s" "\<not> g_key_set s"
    and "unat len \<le> 256" "payload_ok data len"
  shows "\<exists>s'. photon_log_event K current ty det sev data len s = Some (ok, s') \<and>
    g_ring s' = g_ring s \<and> pending s' = [] \<and> total_sent s' = total_sent s + 1"
proof -
  have s: "crypto_inv K has_key s" "cdev_up s" "buffers_ok s" "pending s = []"
    using assms(2) by (simp_all add: em_inv_def)
  obtain bs where r: "photon_log_event K current ty det sev data len s =
      Some (ok, (log_spec K current ty det sev data len s)\<lparr>event_buffers := bs\<rparr>)"
    "\<forall>b \<in> set bs. buffer_ok b \<and> buffer_events b = []"
    using log_event_refines [OF s(3,4) env_okD(4) [OF assms(1)] assms(4,5)] by blast
  let ?s = "s\<lparr>g_sequence_counter := g_sequence_counter s + 1, total_events := total_events s + 1,
          now := Suc (Suc (now s))\<rparr>"
  have "crypto_inv K has_key ?s" "cdev_up ?s" "\<not> g_key_set ?s"
    using s(1,2) assms(3) by (auto simp: crypto_inv_def cdev_up_def)
  from send_and_count_effect(3) [OF assms(1) this(1,2) build_event_ok [OF assms(4,5)] this(3)]
  show ?thesis using r by (auto simp: log_spec_def pending_empty)
qed

definition demo_keyless :: "bytes em_state" where
  "demo_keyless = demo_em\<lparr>g_key_set := False\<rparr>"

lemma demo_keyless_inv: "em_inv demo_env (\<lambda>t k. t = k) demo_keyless" "\<not> g_key_set demo_keyless"
  "length (event_buffers demo_keyless) = 2"
  using demo_em_inv demo_em_parts(1)
  by (auto simp: em_inv_def demo_keyless_def crypto_inv_def cdev_up_def buffers_ok_def pending_def)

theorem log_event_without_key_is_lost_witness:
  "\<exists>s'. photon_log_event demo_env \<lparr>task_pid = 7, task_comm = ''sh''\<rparr> 1 1 0 None 0 demo_keyless = Some (ok, s') \<and>
    g_ring s' = g_ring demo_keyless \<and> pending s' = [] \<and> total_sent s' = total_sent demo_keyless + 1"
proof -
  have "payload_ok None 0" by (simp add: payload_ok_def)
  from log_event_without_key_is_lost [OF _ demo_keyless_inv(1,2) _ this] show ?thesis
    using demo_env_all by (simp add: demo_keyless_inv(3))
qed

text \<open>
  \<open>event_manager_init\<close> is all or nothing: from the unloaded state it either returns 0 with the
  module's invariant established, no key set, an empty ring and all statistics 0, or it returns
  an error with every event buffer, the transform and the device released, whichever allocation
  or registration failed.
\<close>

theorem event_manager_init_all_or_nothing:
  assumes "events_ok K" "em_down s"
  shows "\<exists>r s'. event_manager_init K s = Some (r, s') \<and>
    (if r = ok then em_inv K has_key s' \<and> \<not> g_key_set s' \<and> ring_frames (g_ring s') = [] \<and>
       total_events s' = 0 \<and> total_sent s' = 0 \<and> total_dropped s' = 0 \<and> send_failures s' = 0
     else em_down s')"
  by (cases rule: em_init_cases [OF assms, of has_key]) simp_all

definition em_initial :: "bytes em_state" where
  "em_initial = cdev_state.extend cdev_initial
     \<lparr>g_sequence_counter = 0,
      event_buffers = replicate 2 \<lparr>eb_events = [], eb_head = 0, eb_tail = 0, eb_capacity = 0, eb_dropped = 0\<rparr>,
      total_events = 0, total_dropped = 0, total_sent = 0, send_failures = 0\<rparr>"

lemma em_initial_down: "em_down em_initial"
  by (simp add: em_down_def cdev_down_def em_initial_def cdev_initial_def initial_crypto_state_def
      crypto_state.defs cdev_state.defs)

theorem event_manager_init_all_or_nothing_witness:
  "em_down em_initial \<and> (\<exists>r s'. event_manager_init demo_env em_initial = Some (r, s') \<and>
    (if r = ok then em_inv demo_env (\<lambda>t k. t = k) s' \<and> \<not> g_key_set s' \<and> ring_frames (g_ring s') = [] \<and>
       total_events s' = 0 \<and> total_sent s' = 0 \<and> total_dropped s' = 0 \<and> send_failures s' = 0
     else em_down s'))"
  using event_manager_init_all_or_nothing [OF demo_env_events em_initial_down] em_initial_down by blast

text \<open>
  \<open>event_manager_exit\<close> always returns and releases everything: the device, the frame ring, the
  event buffers and the transform are gone, and if a key was set both the master key and the
  session key are wiped.
\<close>

theorem event_manager_exit_releases_all:
  assumes "em_inv K has_key s"
  shows "\<exists>s'. event_manager_exit K s = Some s' \<and> em_down s' \<and>
    (g_key_set s \<longrightarrow> g_master_key s' = zeros 32 \<and> g_session_key s' = zeros 32)"
  by (rule em_exit_down [OF assms])

theorem event_manager_exit_releases_all_witness:
  "g_key_set demo_em \<and> (\<exists>s'. event_manager_exit demo_env demo_em = Some s' \<and> em_down s' \<and>
     g_master_key s' = zeros 32 \<and> g_session_key s' = zeros 32)"
  using event_manager_exit_releases_all [OF demo_em_inv] demo_em_parts(2) by blast

end
