(* ===== verification/Key_Rotation.thy ===== *)
theory Key_Rotation
  imports Event_Manager
begin

text \<open>
  \<open>photon_rotate_key\<close> of \<open>comms/crypto.c\<close>, which derives the next session key, installs it and logs a
  notice of the rotation.  The result \<open>None\<close> is a call that never returns: the restore path takes
  \<open>crypto_mutex\<close> a second time.
\<close>

definition photon_rotate_key ::
  "'t kenv \<Rightarrow> task \<Rightarrow> ('t, 'z) em_state_scheme \<Rightarrow> (unit kresult \<times> ('t, 'z) em_state_scheme) option" where
  "photon_rotate_key K current s =
     (if \<not> g_key_set s then Some (Inl ENOKEY, s)
      else do {
        let s = s\<lparr>g_rotation_counter := g_rotation_counter s + 1\<rparr>;
        let new_rotation = g_rotation_counter s;
        (r, s) \<leftarrow> photon_derive_session_key K new_rotation s;
        (case r of
           Inl e \<Rightarrow> Some (Inl e, s\<lparr>g_rotation_counter := g_rotation_counter s - 1\<rparr>)
         | Inr new_session_key \<Rightarrow> do {
             s \<leftarrow> mutex_lock s;
             let s = s\<lparr>g_session_key := new_session_key\<rparr>;
             (case crypto_aead_setkey K (g_session_key s) s of
                (Inl e, s) \<Rightarrow> do {
                  let s = s\<lparr>g_rotation_counter := g_rotation_counter s - 1\<rparr>;
                  (old, s) \<leftarrow> photon_derive_session_key K (g_rotation_counter s) s;
                  let s = (case old of Inl _ \<Rightarrow> s | Inr k \<Rightarrow> s\<lparr>g_session_key := k\<rparr>);
                  let (_, s) = crypto_aead_setkey K (g_session_key s) s;
                  Some (Inl e, mutex_unlock s)
                }
              | (Inr _, s) \<Rightarrow> do {
                  let s = mutex_unlock s;
                  let (uptime, s) = ext (k_ktime_ns K) s;
                  let rot_event = \<lparr>sd_uptime_ns = uptime, sd_events_sent = 0, sd_events_dropped = 0,
                                   sd_new_rotation_num = new_rotation\<rparr>;
                  (_, s) \<leftarrow> photon_log_event K current (event_type_code PHOTON_EVENT_SYSTEM_KEY_ROTATION) 0
                             (severity_code PHOTON_SEV_INFO) (Some (system_bytes rot_event)) 32 s;
                  Some (ok, s)
                })
           })
      })"

section \<open>The three outcomes\<close>

lemma payload_system: "payload_ok (Some (system_bytes d)) 32"
  by (simp add: payload_ok_def)

lemma rotate_cases:
  assumes key: "g_key_set s" and free: "\<not> crypto_mutex s" and tfm: "g_tfm s = Some t"
  obtains
    (underived) e n where "photon_rotate_key K current s = Some (Inl e, s\<lparr>now := n\<rparr>)"
      "\<not> shash_available K"
  | (stuck) n k e t' where "photon_rotate_key K current s = None" "k_aead_setkey K n k t = (Inl e, t')"
  | (rotated) n k t' s1 d where "k_aead_setkey K n k t = (ok, t')"
      "hmac_ok K \<Longrightarrow> k = session_key_spec (k_hmac_sha256 K) (g_master_key s) (g_rotation_counter s + 1)"
      "s1 = s\<lparr>g_rotation_counter := g_rotation_counter s + 1, g_session_key := k, g_tfm := Some t', now := Suc (Suc n)\<rparr>"
      "sd_new_rotation_num d = g_rotation_counter s + 1"
      "photon_rotate_key K current s = do {
         (_, s) \<leftarrow> photon_log_event K current (event_type_code PHOTON_EVENT_SYSTEM_KEY_ROTATION) 0
                    (severity_code PHOTON_SEV_INFO) (Some (system_bytes d)) 32 s1;
         Some (ok, s)
       }"
proof -
  let ?r = "g_rotation_counter s + 1"
  let ?s = "s\<lparr>g_rotation_counter := ?r\<rparr>"
  obtain r n where d: "photon_derive_session_key K ?r ?s = Some (r, ?s\<lparr>now := n\<rparr>)"
    and val: "\<forall>key. hmac_ok K \<longrightarrow> r = Inr key \<longrightarrow>
          key = session_key_spec (k_hmac_sha256 K) (g_master_key s) ?r"
    and avail: "shash_available K \<longrightarrow> \<not> failed r"
    using derive_ex [of ?s K ?r] key free by auto
  show thesis
  proof (cases r)
    case (Inl e)
    have "photon_rotate_key K current s = Some (Inl e, s\<lparr>now := n\<rparr>)"
      using key d Inl by (simp add: photon_rotate_key_def)
    with avail Inl show thesis using underived by simp
  next
    case (Inr k)
    obtain q t' where k: "k_aead_setkey K n k t = (q, t')" by (cases "k_aead_setkey K n k t")
    note unfold = photon_rotate_key_def mutex_lock_free crypto_aead_setkey_def
    show thesis
    proof (cases q)
      case Inl2: (Inl e)
      have "photon_rotate_key K current s = None"
        using key free tfm d Inr k Inl2 by (simp add: unfold derive_deadlock)
      with k Inl2 show thesis using stuck by blast
    next
      case Inr2: (Inr u)
      let ?d = "\<lparr>sd_uptime_ns = k_ktime_ns K (Suc n), sd_events_sent = 0, sd_events_dropped = 0,
                 sd_new_rotation_num = ?r\<rparr>"
      let ?s1 = "s\<lparr>g_rotation_counter := ?r, g_session_key := k, g_tfm := Some t', now := Suc (Suc n)\<rparr>"
      have "photon_rotate_key K current s = do {
         (_, s) \<leftarrow> photon_log_event K current (event_type_code PHOTON_EVENT_SYSTEM_KEY_ROTATION) 0
                    (severity_code PHOTON_SEV_INFO) (Some (system_bytes ?d)) 32 ?s1;
         Some (ok, s)
       }"
        using key free tfm d Inr k Inr2 by (simp add: unfold mutex_unlock_def mutex_idle ext_def Let_def)
      from rotated [OF _ _ refl _ this] show thesis using k Inr2 val Inr by simp
    qed
  qed
qed

section \<open>Properties\<close>

lemma rotated_crypto_inv:
  assumes "hmac_ok K" "aead_laws K has_key seal unseal" "crypto_inv K has_key s"
    and "k_aead_setkey K n k t = (ok, t')"
    and "hmac_ok K \<Longrightarrow> k = session_key_spec (k_hmac_sha256 K) (g_master_key s) (g_rotation_counter s + 1)"
  shows "crypto_inv K has_key (s\<lparr>g_rotation_counter := g_rotation_counter s + 1, g_session_key := k, g_tfm := Some t', now := m\<rparr>)"
  using assms(3) assms(5) [OF assms(1)] aead_lawsD(1) [OF assms(2,4)] by (auto simp: crypto_inv_def)

lemma rotate_result:
  assumes env: "env_ok K has_key seal unseal (length (event_buffers s))" and inv: "em_inv K has_key s"
    and key: "g_key_set s" and ret: "photon_rotate_key K current s = Some (r, s')"
  shows "em_inv K has_key s' \<and> g_key_set s' \<and> g_master_key s' = g_master_key s \<and>
    (if r = ok
     then g_rotation_counter s' = g_rotation_counter s + 1 \<and>
       g_session_key s' = session_key_spec (k_hmac_sha256 K) (g_master_key s) (g_rotation_counter s + 1)
     else g_rotation_counter s' = g_rotation_counter s \<and> g_session_key s' = g_session_key s \<and>
       g_ring s' = g_ring s) \<and>
    length (event_buffers s') = length (event_buffers s) \<and> g_is_open s' = g_is_open s \<and>
    g_shutting_down s' = g_shutting_down s \<and> g_read_staging s' = g_read_staging s"
proof -
  obtain t where t: "g_tfm s = Some t" "\<not> crypto_mutex s"
    using inv key by (auto simp: em_inv_def crypto_inv_def)
  show ?thesis
  proof (rule rotate_cases [OF key t(2,1), of K current])
    fix e n assume "photon_rotate_key K current s = Some (Inl e, s\<lparr>now := n\<rparr>)"
    then have "s' = s\<lparr>now := n\<rparr>" "r = Inl e" using ret by simp_all
    with inv key show ?thesis
      by (auto simp: em_inv_def crypto_inv_def cdev_up_def buffers_ok_def pending_def)
  next
    assume "photon_rotate_key K current s = None"
    with ret show ?thesis by simp
  next
    fix n k t' s1 d
    assume k: "k_aead_setkey K n k t = (ok, t')"
      "hmac_ok K \<Longrightarrow> k = session_key_spec (k_hmac_sha256 K) (g_master_key s) (g_rotation_counter s + 1)"
      and s1: "s1 = s\<lparr>g_rotation_counter := g_rotation_counter s + 1, g_session_key := k, g_tfm := Some t', now := Suc (Suc n)\<rparr>"
      and run: "photon_rotate_key K current s = do {
         (_, s) \<leftarrow> photon_log_event K current (event_type_code PHOTON_EVENT_SYSTEM_KEY_ROTATION) 0
                    (severity_code PHOTON_SEV_INFO) (Some (system_bytes d)) 32 s1;
         Some (ok, s)
       }"
    have inv1: "em_inv K has_key s1"
      using rotated_crypto_inv [OF env_okD(1,5) [OF env] _ k] inv
      unfolding s1 em_inv_def by (simp add: cdev_up_def buffers_ok_def pending_def)
    have env1: "env_ok K has_key seal unseal (length (event_buffers s1))" using env s1 by simp
    have bufs: "buffers_ok s1" "pending s1 = []" using inv1 by (simp_all add: em_inv_def)
    obtain bs where log: "photon_log_event K current (event_type_code PHOTON_EVENT_SYSTEM_KEY_ROTATION) 0
                    (severity_code PHOTON_SEV_INFO) (Some (system_bytes d)) 32 s1 =
      Some (ok, (log_spec K current (event_type_code PHOTON_EVENT_SYSTEM_KEY_ROTATION) 0
                    (severity_code PHOTON_SEV_INFO) (Some (system_bytes d)) 32 s1)\<lparr>event_buffers := bs\<rparr>)"
      using log_event_refines [OF bufs env_okD(4) [OF env1] _ payload_system] by fastforce
    have r: "r = ok" "s' = (log_spec K current (event_type_code PHOTON_EVENT_SYSTEM_KEY_ROTATION) 0
                    (severity_code PHOTON_SEV_INFO) (Some (system_bytes d)) 32 s1)\<lparr>event_buffers := bs\<rparr>"
      using ret run log by simp_all
    have "em_inv K has_key s'" "length (event_buffers s') = length (event_buffers s1)"
      using log_event_inv [OF env1 inv1 payload_system log] r(2) by blast+
    moreover have "same_statics s1 s'" unfolding r(2) by (rule log_spec_statics)
    ultimately show ?thesis
      using key k(2) env_okD(1) [OF env] r(1) by (simp add: same_statics_def s1)
  qed
qed


lemma system_len: "unat (32 :: u16) \<le> 256"
  by simp

lemma demo_em_keyed: "\<not> crypto_mutex demo_em" "g_tfm demo_em \<noteq> None"
  using demo_em_inv demo_em_parts(2) by (auto simp: em_inv_def crypto_inv_def)

text \<open>Rotation succeeds when derivation is possible and the transform accepts keys.\<close>

definition setkey_accepts :: "'t kenv \<Rightarrow> bool" where
  "setkey_accepts K \<longleftrightarrow> (\<forall>n k t. fst (k_aead_setkey K n k t) = ok)"

lemma rotate_succeeds:
  assumes "shash_available K" "setkey_accepts K" "hmac_ok K"
    and key: "g_key_set s" and free: "\<not> crypto_mutex s" and tfm: "g_tfm s = Some t"
  obtains n k t' s1 d where "k_aead_setkey K n k t = (ok, t')"
    "k = session_key_spec (k_hmac_sha256 K) (g_master_key s) (g_rotation_counter s + 1)"
    "s1 = s\<lparr>g_rotation_counter := g_rotation_counter s + 1, g_session_key := k, g_tfm := Some t', now := Suc (Suc n)\<rparr>"
    "sd_new_rotation_num d = g_rotation_counter s + 1"
    "photon_rotate_key K current s = do {
         (_, s) \<leftarrow> photon_log_event K current (event_type_code PHOTON_EVENT_SYSTEM_KEY_ROTATION) 0
                    (severity_code PHOTON_SEV_INFO) (Some (system_bytes d)) 32 s1;
         Some (ok, s)
       }"
proof (rule rotate_cases [OF key free tfm, of K current])
  fix e n assume "\<not> shash_available K"
  with assms(1) show thesis by simp
next
  fix n k e t' assume "k_aead_setkey K n k t = (Inl e, t')"
  then show thesis using assms(2) unfolding setkey_accepts_def by (metis fst_conv sum.distinct(1))
next
  fix n k t' s1 d
  assume "k_aead_setkey K n k t = (ok, t')"
    "hmac_ok K \<Longrightarrow> k = session_key_spec (k_hmac_sha256 K) (g_master_key s) (g_rotation_counter s + 1)"
    "s1 = s\<lparr>g_rotation_counter := g_rotation_counter s + 1, g_session_key := k, g_tfm := Some t', now := Suc (Suc n)\<rparr>"
    "sd_new_rotation_num d = g_rotation_counter s + 1"
    "photon_rotate_key K current s = do {
         (_, s) \<leftarrow> photon_log_event K current (event_type_code PHOTON_EVENT_SYSTEM_KEY_ROTATION) 0
                    (severity_code PHOTON_SEV_INFO) (Some (system_bytes d)) 32 s1;
         Some (ok, s)
       }"
  with that assms(3) show thesis by blast
qed

lemma demo_setkey: "setkey_accepts demo_env"
  by (simp add: setkey_accepts_def demo_env_def)

text \<open>
  C37. The notice of a rotation is encrypted under the new key.  When derivation and key
  installation succeed, \<open>photon_rotate_key\<close> returns 0, and its \<open>SYSTEM_KEY_ROTATION\<close> event, which
  carries the new rotation number, is either counted as a send failure or put on the ring as a
  frame with the new rotation number, sealed with the new session key (the comment in the code
  says it is encrypted with the old key).
\<close>

theorem rotation_notice_under_new_key:
  assumes env: "env_ok K has_key seal unseal (length (event_buffers s))" and inv: "em_inv K has_key s"
    and key: "g_key_set s" and avail: "shash_available K" "setkey_accepts K"
  shows "\<exists>s' d time. photon_rotate_key K current s = Some (ok, s') \<and>
    sd_new_rotation_num d = g_rotation_counter s + 1 \<and>
    (let new_rot = g_rotation_counter s + 1;
         new_key = session_key_spec (k_hmac_sha256 K) (g_master_key s) new_rot;
         ev = build_event (g_sequence_counter s + 1) time (event_type_code PHOTON_EVENT_SYSTEM_KEY_ROTATION) 0
                (severity_code PHOTON_SEV_INFO) current (Some (system_bytes d)) 32 in
     (send_failures s' = send_failures s + 1 \<and> ring_frames (g_ring s') = ring_frames (g_ring s)) \<or>
     (\<exists>iv. length iv = 12 \<and> ring_frames (g_ring s') =
        take 255 (ring_frames (g_ring s) @ [frame_spec seal new_key new_rot iv ev])))"
proof -
  obtain t where t: "g_tfm s = Some t" "\<not> crypto_mutex s"
    using inv key by (auto simp: em_inv_def crypto_inv_def)
  let ?rot = "g_rotation_counter s + 1"
  let ?key = "session_key_spec (k_hmac_sha256 K) (g_master_key s) ?rot"
  let ?ty = "event_type_code PHOTON_EVENT_SYSTEM_KEY_ROTATION" and ?sev = "severity_code PHOTON_SEV_INFO"
  obtain n t' s1 d where k: "k_aead_setkey K n ?key t = (ok, t')"
    and s1: "s1 = s\<lparr>g_rotation_counter := ?rot, g_session_key := ?key, g_tfm := Some t', now := Suc (Suc n)\<rparr>"
    and d: "sd_new_rotation_num d = ?rot"
    and run: "photon_rotate_key K current s = do {
         (_, s) \<leftarrow> photon_log_event K current ?ty 0 ?sev (Some (system_bytes d)) 32 s1;
         Some (ok, s)
       }"
    by (rule rotate_succeeds [OF avail env_okD(1) [OF env] key t(2,1), of current]) blast
  have inv1: "crypto_inv K has_key s1" "cdev_up s1" "buffers_ok s1" "pending s1 = []" "g_key_set s1"
    using rotated_crypto_inv [OF env_okD(1,5) [OF env] _ k refl, where m = "Suc (Suc n)"] inv key
    unfolding s1 em_inv_def by (simp_all add: cdev_up_def buffers_ok_def pending_def)
  have env1: "env_ok K has_key seal unseal (length (event_buffers s1))" using env s1 by simp
  obtain bs where log: "photon_log_event K current ?ty 0 ?sev (Some (system_bytes d)) 32 s1 =
      Some (ok, (log_spec K current ?ty 0 ?sev (Some (system_bytes d)) 32 s1)\<lparr>event_buffers := bs\<rparr>)"
    using log_event_refines [OF inv1(3,4) env_okD(4) [OF env1] _ payload_system] by fastforce
  let ?s2 = "s1\<lparr>g_sequence_counter := g_sequence_counter s1 + 1, total_events := total_events s1 + 1,
          now := Suc (Suc (now s1))\<rparr>"
  let ?ev = "build_event (g_sequence_counter s + 1) (k_ktime_real_ns K (now s1)) ?ty 0 ?sev current (Some (system_bytes d)) 32"
  have inv2: "crypto_inv K has_key ?s2" "cdev_up ?s2" "g_key_set ?s2"
    using inv1 by (auto simp: crypto_inv_def cdev_up_def)
  have evok: "event_ok ?ev" by (rule build_event_ok [OF _ payload_system]) simp
  from send_and_count_effect(4) [OF env1 inv2(1,2) evok inv2(3)]
  have "let s' = (log_spec K current ?ty 0 ?sev (Some (system_bytes d)) 32 s1)\<lparr>event_buffers := bs\<rparr> in
    (send_failures s' = send_failures s + 1 \<and> ring_frames (g_ring s') = ring_frames (g_ring s)) \<or>
     (\<exists>iv. length iv = 12 \<and> ring_frames (g_ring s') =
        take 255 (ring_frames (g_ring s) @ [frame_spec seal ?key ?rot iv ?ev]))"
    unfolding Let_def by (elim disjE) (auto simp: log_spec_def s1 simp del: take_append)
  moreover have "photon_rotate_key K current s =
      Some (ok, (log_spec K current ?ty 0 ?sev (Some (system_bytes d)) 32 s1)\<lparr>event_buffers := bs\<rparr>)"
    using run log by simp
  ultimately show ?thesis using d unfolding Let_def by blast
qed

theorem rotation_notice_under_new_key_witness:
  "\<exists>s' (d :: system_data). photon_rotate_key demo_env \<lparr>task_pid = 1, task_comm = ''agent''\<rparr> demo_em = Some (ok, s') \<and>
     sd_new_rotation_num d = g_rotation_counter demo_em + 1"
proof -
  have "env_ok demo_env (\<lambda>t k. t = k) demo_seal demo_unseal (length (event_buffers demo_em))"
    using demo_env_all demo_em_parts(1) by simp
  from rotation_notice_under_new_key [OF this demo_em_inv demo_em_parts(2) demo_env_shash demo_setkey,
      of "\<lparr>task_pid = 1, task_comm = ''agent''\<rparr>"]
  show ?thesis by blast
qed


text \<open>
  The restore path of \<open>photon_rotate_key\<close> deadlocks.  If the derivation succeeds and
  \<open>crypto_aead_setkey\<close> rejects the new key, the call never returns: it holds \<open>crypto_mutex\<close> when it
  calls \<open>photon_derive_session_key\<close>, which takes the same mutex.
\<close>

theorem rotate_key_setkey_failure_deadlocks:
  assumes "shash_available K" "\<forall>n k t. failed (fst (k_aead_setkey K n k t))"
    and "g_key_set s" "\<not> crypto_mutex s" "g_tfm s \<noteq> None"
  shows "photon_rotate_key K current s = None"
proof -
  obtain t where t: "g_tfm s = Some t" using assms(5) by blast
  show ?thesis
  proof (rule rotate_cases [OF assms(3,4) t, of K current])
    fix e n assume "\<not> shash_available K"
    with assms(1) show ?thesis by simp
  next
    fix n k t' s1 d assume "k_aead_setkey K n k t = (ok, t')"
    then show ?thesis using assms(2) by (metis failed_simps(2) fst_conv)
  qed
qed

theorem rotate_key_setkey_failure_deadlocks_witness:
  "photon_rotate_key (demo_env\<lparr>k_aead_setkey := \<lambda>_ _ t. (Inl ENOMEM, t)\<rparr>)
     \<lparr>task_pid = 1, task_comm = ''agent''\<rparr> demo_em = None"
  by (rule rotate_key_setkey_failure_deadlocks)
    (use demo_env_shash demo_em_parts(2) demo_em_keyed in \<open>simp_all add: shash_available_def\<close>)

end
