(* ===== verification/Cdev_Fops.thy ===== *)
theory Cdev_Fops
  imports Key_Rotation
begin

text \<open>
  The file operations of \<open>/dev/photon_ring\<close> (\<open>comms/cdev_ch.c\<close>) and the running module as a step
  relation.  What the caller and the VFS decide is an argument of each operation: whether the
  task has \<open>CAP_SYS_ADMIN\<close>, whether a signal is pending, whether the user pointers are valid, what
  they point to.  A \<open>read\<close> that keeps waiting for a frame is the result \<open>None\<close>.
\<close>

section \<open>File operations\<close>

definition photon_cdev_open :: "bool \<Rightarrow> ('t, 'z) cdev_state_scheme \<Rightarrow> unit kresult \<times> ('t, 'z) cdev_state_scheme" where
  "photon_cdev_open cap_sys_admin s =
     (if \<not> cap_sys_admin then (Inl EPERM, s)
      else if g_is_open s then (Inl EBUSY, s)
      else (ok, s\<lparr>g_is_open := True\<rparr>))"

definition photon_cdev_release :: "('t, 'z) cdev_state_scheme \<Rightarrow> ('t, 'z) cdev_state_scheme" where
  "photon_cdev_release s = s\<lparr>g_is_open := False\<rparr>"

definition photon_cdev_read ::
  "bool \<Rightarrow> bool \<Rightarrow> u64 \<Rightarrow> ('t, 'z) cdev_state_scheme \<Rightarrow> (bytes kresult \<times> ('t, 'z) cdev_state_scheme) option" where
  "photon_cdev_read signal_pending buf_ok count s =
     (if ring_buf_empty (g_ring s) \<and> \<not> g_shutting_down s
      then (if signal_pending then Some (Inl EINTR, s) else None)
      else if g_shutting_down s then Some (Inl EIO, s)
      else
        let (frame_len, staging, rb) =
              ring_buf_pop_locked (g_ring s) (g_read_staging s) (of_nat PHOTON_FRAME_SLOT_SIZE);
            s = s\<lparr>g_ring := rb, g_read_staging := staging\<rparr>
        in if frame_len = 0 then Some (Inr [], s)
           else if count < 4 then Some (Inl EINVAL, s)
           else
             let frame_len = min frame_len (ucast count);
                 data = take (unat frame_len) (g_read_staging s);
                 s = s\<lparr>g_read_staging := zeros PHOTON_FRAME_SLOT_SIZE\<rparr>
             in if \<not> buf_ok then Some (Inl EFAULT, s) else Some (Inr data, s))"

text \<open>\<open>_IOW(0xBE, 1, __u8[32])\<close>: direction, size, magic and number in their bit fields.\<close>

definition PHOTON_IOC_SET_KEY :: u32 where
  "PHOTON_IOC_SET_KEY = or (push_bit 30 1) (or (push_bit 16 32) (or (push_bit 8 0xBE) 1))"

lemma PHOTON_IOC_SET_KEY_value: "PHOTON_IOC_SET_KEY = 0x4020BE01"
  by (simp add: PHOTON_IOC_SET_KEY_def push_bit_eq_mult)

definition photon_cdev_ioctl ::
  "'t kenv \<Rightarrow> task \<Rightarrow> bool \<Rightarrow> u32 \<Rightarrow> bytes option \<Rightarrow> ('t, 'z) em_state_scheme \<Rightarrow>
   (unit kresult \<times> ('t, 'z) em_state_scheme) option" where
  "photon_cdev_ioctl K current cap_sys_admin cmd arg s =
     (if \<not> cap_sys_admin then Some (Inl EPERM, s)
      else if cmd = PHOTON_IOC_SET_KEY then
        if photon_has_key s then Some (Inl EEXIST, s)
        else (case arg of
          None \<Rightarrow> Some (Inl EFAULT, s)
        | Some user \<Rightarrow> do {
            let key = take PHOTON_KEY_SIZE user;
            (ret, s) \<leftarrow> photon_set_encryption_key K (Some key) s;
            (if failed ret then Some (ret, s)
             else do { (_, s) \<leftarrow> photon_send_heartbeat K current s; Some (ok, s) })
          })
      else Some (Inl ENOTTY, s))"

section \<open>The running module\<close>

text \<open>
  A state of the running module is the module's state with the number of open files on the device.
  The VFS calls \<open>read\<close>, \<open>ioctl\<close> and \<open>release\<close> on an open file only; detectors log events at any time.
\<close>

inductive module_step :: "'t kenv \<Rightarrow> 't em_state \<times> nat \<Rightarrow> 't em_state \<times> nat \<Rightarrow> bool" for K where
  open_ok: "photon_cdev_open cap s = (ok, s') \<Longrightarrow> module_step K (s, h) (s', Suc h)"
| open_fail: "photon_cdev_open cap s = (Inl e, s') \<Longrightarrow> module_step K (s, h) (s', h)"
| release: "module_step K (s, Suc h) (photon_cdev_release s, h)"
| read: "photon_cdev_read sig buf count s = Some (r, s') \<Longrightarrow> module_step K (s, Suc h) (s', Suc h)"
| ioctl: "photon_cdev_ioctl K current cap cmd arg s = Some (r', s') \<Longrightarrow> module_step K (s, Suc h) (s', Suc h)"
| log: "payload_ok data len \<Longrightarrow> photon_log_event K current ty det sev data len s = Some (r', s') \<Longrightarrow>
    module_step K (s, h) (s', h)"
| heartbeat: "photon_send_heartbeat K current s = Some (r', s') \<Longrightarrow> module_step K (s, h) (s', h)"
| rotate: "photon_rotate_key K current s = Some (r', s') \<Longrightarrow> module_step K (s, h) (s', h)"

inductive_cases module_stepE: "module_step K st st'"

text \<open>The unloaded module, with its static variables as the loader leaves them.\<close>

definition fresh :: "('t, 'z) em_state_scheme \<Rightarrow> bool" where
  "fresh s \<longleftrightarrow> em_down s \<and> \<not> g_is_open s \<and> \<not> g_shutting_down s \<and>
     length (g_read_staging s) = PHOTON_FRAME_SLOT_SIZE \<and>
     g_master_key s = zeros PHOTON_KEY_SIZE \<and> g_session_key s = zeros PHOTON_KEY_SIZE"

inductive reachable :: "'t kenv \<Rightarrow> 't em_state \<Rightarrow> 't em_state \<times> nat \<Rightarrow> bool" for K s0 where
  loaded: "event_manager_init K s0 = Some (ok, s) \<Longrightarrow> reachable K s0 (s, 0)"
| step: "reachable K s0 st \<Longrightarrow> module_step K st st' \<Longrightarrow> reachable K s0 st'"

text \<open>
  The invariant: what the core keeps, exclusive opening, and no key material while no key is set.
\<close>

definition module_inv :: "'t kenv \<Rightarrow> ('t \<Rightarrow> bytes \<Rightarrow> bool) \<Rightarrow> nat \<Rightarrow> 't em_state \<times> nat \<Rightarrow> bool" where
  "module_inv K has_key n st \<longleftrightarrow> (case st of (s, h) \<Rightarrow>
     em_inv K has_key s \<and> length (event_buffers s) = n \<and> \<not> g_shutting_down s \<and>
     length (g_read_staging s) = PHOTON_FRAME_SLOT_SIZE \<and>
     h = (if g_is_open s then 1 else 0) \<and>
     g_tfm s \<noteq> None \<and>
     (\<not> g_key_set s \<longrightarrow> g_master_key s = zeros 32 \<and> g_session_key s = zeros 32))"

section \<open>Reading\<close>

lemma read_next:
  assumes "ring_ok (g_ring s)" "ring_frames (g_ring s) = f # fs" "\<not> g_shutting_down s"
    and "length (g_read_staging s) = PHOTON_FRAME_SLOT_SIZE"
  obtains rb where "ring_ok rb" "ring_frames rb = fs" "rb_capacity rb = rb_capacity (g_ring s)"
    "photon_cdev_read sig buf count s =
       (if count < 4 then Some (Inl EINVAL, s\<lparr>g_ring := rb, g_read_staging := f @ drop (length f) (g_read_staging s)\<rparr>)
        else Some (if buf then Inr (take (unat (min (of_nat (length f)) (ucast count :: u32))) f) else Inl EFAULT,
                   s\<lparr>g_ring := rb, g_read_staging := zeros PHOTON_FRAME_SLOT_SIZE\<rparr>))"
    "length f \<le> PHOTON_FRAME_SLOT_SIZE"
proof -
  obtain rb where rb: "ring_buf_pop_locked (g_ring s) (g_read_staging s) (of_nat PHOTON_FRAME_SLOT_SIZE) =
       (of_nat (length f), f @ drop (length f) (g_read_staging s), rb)"
    "ring_ok rb" "ring_frames rb = fs" "rb_capacity rb = rb_capacity (g_ring s)"
    "length f \<le> PHOTON_FRAME_SLOT_SIZE" "f \<noteq> []"
    by (rule pop_locked_next [OF assms(1,2,4)]) blast
  have ne: "\<not> ring_buf_empty (g_ring s)" using ring_empty_iff [OF assms(1)] assms(2) by simp
  have len: "unat (of_nat (length f) :: u32) = length f" by (rule unat_frame_length [OF rb(5)])
  then have nz: "(of_nat (length f) :: u32) \<noteq> 0" using rb(6) by (metis length_0_conv unat_0)
  have cut: "take (unat (min (of_nat (length f)) c)) (f @ xs) = take (unat (min (of_nat (length f)) c)) f"
    for c :: u32 and xs
    using len by (simp add: min_def word_le_nat_alt)
  have "photon_cdev_read sig buf count s =
       (if count < 4 then Some (Inl EINVAL, s\<lparr>g_ring := rb, g_read_staging := f @ drop (length f) (g_read_staging s)\<rparr>)
        else Some (if buf then Inr (take (unat (min (of_nat (length f)) (ucast count :: u32))) f) else Inl EFAULT,
                   s\<lparr>g_ring := rb, g_read_staging := zeros PHOTON_FRAME_SLOT_SIZE\<rparr>))"
    using ne assms(3) nz by (simp add: photon_cdev_read_def rb(1) cut del: take_append)
  with rb that show thesis by blast
qed

lemma read_empty:
  assumes "ring_ok (g_ring s)" "ring_frames (g_ring s) = []" "\<not> g_shutting_down s"
  shows "photon_cdev_read sig buf count s = (if sig then Some (Inl EINTR, s) else None)"
  using assms ring_empty_iff [OF assms(1)] by (simp add: photon_cdev_read_def)

lemma read_result:
  assumes "cdev_up s" "\<not> g_shutting_down s" "length (g_read_staging s) = PHOTON_FRAME_SLOT_SIZE"
    and "photon_cdev_read sig buf count s = Some (r, s')"
  shows "\<exists>rb st. s' = s\<lparr>g_ring := rb, g_read_staging := st\<rparr> \<and> ring_ok rb \<and>
    ring_limit rb = ring_limit (g_ring s) \<and> length st = PHOTON_FRAME_SLOT_SIZE"
proof -
  have ring: "ring_ok (g_ring s)" using assms(1) by (simp add: cdev_up_def)
  show ?thesis
  proof (cases "ring_frames (g_ring s)")
    case Nil
    with assms ring have "s' = s\<lparr>g_ring := g_ring s, g_read_staging := g_read_staging s\<rparr>"
      by (simp add: read_empty split: if_splits)
    with ring assms(3) show ?thesis by blast
  next
    case (Cons f fs)
    obtain rb where rb: "ring_ok rb" "rb_capacity rb = rb_capacity (g_ring s)"
      and f: "length f \<le> PHOTON_FRAME_SLOT_SIZE"
      and r: "photon_cdev_read sig buf count s =
       (if count < 4 then Some (Inl EINVAL, s\<lparr>g_ring := rb, g_read_staging := f @ drop (length f) (g_read_staging s)\<rparr>)
        else Some (if buf then Inr (take (unat (min (of_nat (length f)) (ucast count :: u32))) f) else Inl EFAULT,
                   s\<lparr>g_ring := rb, g_read_staging := zeros PHOTON_FRAME_SLOT_SIZE\<rparr>))"
      by (rule read_next [OF ring Cons assms(2,3), of sig buf count]) blast
    let ?st = "if count < 4 then f @ drop (length f) (g_read_staging s) else zeros PHOTON_FRAME_SLOT_SIZE"
    have "s' = s\<lparr>g_ring := rb, g_read_staging := ?st\<rparr>" using assms(4) r by (simp split: if_splits)
    moreover have "length ?st = PHOTON_FRAME_SLOT_SIZE" using f assms(3) by simp
    moreover have "ring_limit rb = ring_limit (g_ring s)" using rb(2) by (simp add: ring_limit_def)
    ultimately show ?thesis using rb(1) by blast
  qed
qed

section \<open>Every step keeps the invariant\<close>

lemma em_inv_frame:
  assumes "em_inv K has_key s" "crypto_inv K has_key s'" "ring_ok (g_ring s')"
    and "ring_limit (g_ring s') = ring_limit (g_ring s)" "chrdev_region s' = chrdev_region s"
    and "cdev_added s' = cdev_added s" "class_created s' = class_created s"
    and "device_created s' = device_created s" "event_buffers s' = event_buffers s"
  shows "em_inv K has_key s'"
  using assms by (simp add: em_inv_def cdev_up_def buffers_ok_def pending_def)

lemma em_inv_now: "em_inv K has_key s \<Longrightarrow> em_inv K has_key (s\<lparr>now := n\<rparr>)"
  by (rule em_inv_frame) (auto simp: em_inv_def crypto_inv_def cdev_up_def)

lemma log_step:
  assumes "env_ok K has_key seal unseal n" "module_inv K has_key n (s, h)" "payload_ok data len"
    and "photon_log_event K current ty det sev data len s = Some (r, s')"
  shows "module_inv K has_key n (s', h)" "same_statics s s'"
proof -
  have s: "em_inv K has_key s" "length (event_buffers s) = n" using assms(2) by (simp_all add: module_inv_def)
  have env: "env_ok K has_key seal unseal (length (event_buffers s))" using assms(1) s(2) by simp
  show st: "same_statics s s'"
    using s(1) log_event_statics [OF _ _ env_okD(4) [OF env] assms(3,4)] by (simp add: em_inv_def)
  from log_event_inv [OF env s(1) assms(3,4)] s(2) have "em_inv K has_key s'" "length (event_buffers s') = n"
    by simp_all
  with assms(2) st show "module_inv K has_key n (s', h)" by (simp add: module_inv_def same_statics_def)
qed

lemma heartbeat_step:
  assumes "env_ok K has_key seal unseal n" "module_inv K has_key n (s, h)"
    and "photon_send_heartbeat K current s = Some (r, s')"
  shows "module_inv K has_key n (s', h)" "same_statics s s'"
proof -
  let ?s = "s\<lparr>now := Suc (now s)\<rparr>"
  obtain d where d: "photon_log_event K current (event_type_code PHOTON_EVENT_SYSTEM_HEARTBEAT) 0
           (severity_code PHOTON_SEV_INFO) (Some (system_bytes d)) 32 ?s = Some (r, s')"
    using assms(3) unfolding photon_send_heartbeat_def ext_def Let_def by auto
  have inv: "module_inv K has_key n (?s, h)"
    using assms(2) em_inv_now [of K has_key s] by (simp add: module_inv_def)
  show "module_inv K has_key n (s', h)" by (rule log_step(1) [OF assms(1) inv payload_system d])
  show "same_statics s s'"
    using log_step(2) [OF assms(1) inv payload_system d] by (simp add: same_statics_def)
qed

lemma set_key_step:
  assumes "env_ok K has_key seal unseal n" "module_inv K has_key n (s, h)" "\<not> g_key_set s"
    and "photon_set_encryption_key K (Some k) s = Some (r, s')"
  shows "module_inv K has_key n (s', h)" "g_key_set s' \<longleftrightarrow> r = ok" "r = ok \<Longrightarrow> g_master_key s' = take 32 k"
proof -
  have inv: "em_inv K has_key s" "crypto_inv K has_key s"
    using assms(2) by (simp_all add: module_inv_def em_inv_def)
  then have free: "\<not> crypto_mutex s" by (simp add: crypto_inv_def)
  have crypto: "crypto_inv K has_key s'"
    using set_key_invariant [OF env_okD(1,5) [OF assms(1)] inv(2) assms(4)] .
  obtain t0 where t0: "g_tfm s = Some t0" using assms(2) by (auto simp: module_inv_def)
  from t0 free have "\<exists>m t mk sk ks rc. s' = s\<lparr>now := m, g_tfm := Some t, g_master_key := mk, g_session_key := sk,
      g_key_set := ks, g_rotation_counter := rc\<rparr> \<and> ks = (r = ok) \<and>
      (if ks then mk = take 32 k else mk = zeros 32 \<and> sk = zeros 32)"
  proof (cases rule: set_key_cases [where K = K and k = k])
    case (installed t' key m)
    then have "s' = s\<lparr>now := m, g_tfm := Some t', g_master_key := take 32 k, g_session_key := key,
        g_key_set := True, g_rotation_counter := 0\<rparr>" "r = ok" using assms(4) by simp_all
    then show ?thesis by (intro exI conjI) (assumption, simp_all)
  next
    case (rejected e t' key m)
    then have "s' = s\<lparr>now := m, g_tfm := Some t', g_master_key := zeros 32, g_session_key := key,
        g_key_set := False, g_rotation_counter := g_rotation_counter s\<rparr>" "r \<noteq> ok" using assms(4) by simp_all
    moreover have "key = zeros 32" using rejected(2) assms(2,3) by (auto simp: module_inv_def)
    ultimately show ?thesis by (intro exI conjI) (assumption, simp_all)
  qed
  then obtain m t mk sk ks rc where s': "s' = s\<lparr>now := m, g_tfm := Some t, g_master_key := mk,
      g_session_key := sk, g_key_set := ks, g_rotation_counter := rc\<rparr>" "ks = (r = ok)"
    "if ks then mk = take 32 k else mk = zeros 32 \<and> sk = zeros 32" by blast
  have "em_inv K has_key s'"
    by (rule em_inv_frame [OF inv(1) crypto]) (use inv(1) in \<open>simp_all add: s'(1) em_inv_def cdev_up_def\<close>)
  then show "module_inv K has_key n (s', h)"
    using assms(2) s'(3) unfolding module_inv_def by (simp add: s'(1) split: if_splits)
  show "g_key_set s' \<longleftrightarrow> r = ok" "r = ok \<Longrightarrow> g_master_key s' = take 32 k" using s' by simp_all
qed

text \<open>A successful \<open>SET_KEY\<close> needs privilege and an unset key, and installs the caller's key.\<close>

lemma ioctl_step:
  assumes "env_ok K has_key seal unseal n" "module_inv K has_key n (s, h)"
    and "photon_cdev_ioctl K current cap cmd arg s = Some (r, s')"
  shows "module_inv K has_key n (s', h)"
    and "g_key_set s \<Longrightarrow> s' = s"
    and "\<not> g_key_set s \<Longrightarrow> g_key_set s' \<longleftrightarrow> r = ok"
    and "r = ok \<Longrightarrow> cap \<and> cmd = PHOTON_IOC_SET_KEY \<and> \<not> g_key_set s \<and>
           (\<exists>key. arg = Some key \<and> g_master_key s' = take 32 key)"
proof -
  let ?R = "module_inv K has_key n (s', h) \<and> (g_key_set s \<longrightarrow> s' = s) \<and>
    (\<not> g_key_set s \<longrightarrow> (g_key_set s' \<longleftrightarrow> r = ok)) \<and>
    (r = ok \<longrightarrow> cap \<and> cmd = PHOTON_IOC_SET_KEY \<and> \<not> g_key_set s \<and>
       (\<exists>key. arg = Some key \<and> g_master_key s' = take 32 key))"
  have ?R
  proof (cases "cap \<and> cmd = PHOTON_IOC_SET_KEY \<and> \<not> g_key_set s \<and> arg \<noteq> None")
    case False
    then have "s' = s \<and> r \<noteq> ok"
      using assms(3) by (cases arg) (auto simp: photon_cdev_ioctl_def photon_has_key_def split: if_splits)
    with assms(2) show ?thesis by (auto simp: module_inv_def)
  next
    case True
    then obtain key where key: "arg = Some key" by blast
    obtain r1 s1 where set: "photon_set_encryption_key K (Some (take 32 key)) s = Some (r1, s1)"
      and rest: "(if failed r1 then Some (r1, s1)
             else do { (_, s) \<leftarrow> photon_send_heartbeat K current s1; Some (ok, s) }) = Some (r, s')"
      using assms(3) True key
      by (auto simp: photon_cdev_ioctl_def photon_has_key_def split: bind_splits)
    have nk: "\<not> g_key_set s" using True by simp
    note set_s1 = set_key_step [OF assms(1,2) nk set]
    show ?thesis
    proof (cases "failed r1")
      case F: True
      then have "r = r1" "s' = s1" "r1 \<noteq> ok" using rest by auto
      with set_s1 nk show ?thesis by simp
    next
      case F: False
      then have ok1: "r1 = ok" by (simp add: not_failed_unit)
      obtain q where hb: "photon_send_heartbeat K current s1 = Some (q, s')" and r: "r = ok"
        using rest F by (auto split: bind_splits)
      note hb_s = heartbeat_step [OF assms(1) set_s1(1) hb]
      show ?thesis using hb_s set_s1(2,3) ok1 r True key by (simp add: same_statics_def)
    qed
  qed
  then show "module_inv K has_key n (s', h)" "g_key_set s \<Longrightarrow> s' = s"
    "\<not> g_key_set s \<Longrightarrow> g_key_set s' \<longleftrightarrow> r = ok"
    "r = ok \<Longrightarrow> cap \<and> cmd = PHOTON_IOC_SET_KEY \<and> \<not> g_key_set s \<and>
           (\<exists>key. arg = Some key \<and> g_master_key s' = take 32 key)" by blast+
qed

lemma rotate_step:
  assumes "env_ok K has_key seal unseal n" "module_inv K has_key n (s, h)"
    and "photon_rotate_key K current s = Some (r, s')"
  shows "module_inv K has_key n (s', h)" "g_key_set s' = g_key_set s" "g_master_key s' = g_master_key s"
proof -
  have "module_inv K has_key n (s', h) \<and> g_key_set s' = g_key_set s \<and> g_master_key s' = g_master_key s"
  proof (cases "g_key_set s")
    case False
    with assms show ?thesis by (simp add: photon_rotate_key_def)
  next
    case True
    have "em_inv K has_key s" "env_ok K has_key seal unseal (length (event_buffers s))"
      using assms(1,2) by (simp_all add: module_inv_def)
    note rr = rotate_result [OF this(2,1) True assms(3)]
    then have "g_tfm s' \<noteq> None" by (auto simp: em_inv_def crypto_inv_def)
    with rr assms(2) True show ?thesis by (auto simp: module_inv_def)
  qed
  then show "module_inv K has_key n (s', h)" "g_key_set s' = g_key_set s" "g_master_key s' = g_master_key s"
    by blast+
qed

lemma read_step:
  assumes "module_inv K has_key n (s, h)" "photon_cdev_read sig buf count s = Some (r, s')"
  shows "module_inv K has_key n (s', h)" "g_key_set s' = g_key_set s" "g_master_key s' = g_master_key s"
proof -
  have s: "em_inv K has_key s" "cdev_up s" "\<not> g_shutting_down s"
    "length (g_read_staging s) = PHOTON_FRAME_SLOT_SIZE"
    using assms(1) by (simp_all add: module_inv_def em_inv_def)
  obtain rb st where s': "s' = s\<lparr>g_ring := rb, g_read_staging := st\<rparr>" "ring_ok rb"
    "ring_limit rb = ring_limit (g_ring s)" "length st = PHOTON_FRAME_SLOT_SIZE"
    using read_result [OF s(2-4) assms(2)] by blast
  have "em_inv K has_key s'"
    by (rule em_inv_frame [OF s(1)]) (use s(1) s'(2,3) in \<open>auto simp: s'(1) em_inv_def crypto_inv_def\<close>)
  with assms(1) s'(4) show "module_inv K has_key n (s', h)" by (simp add: module_inv_def s'(1))
  show "g_key_set s' = g_key_set s" "g_master_key s' = g_master_key s" by (simp_all add: s'(1))
qed

lemma em_inv_is_open: "em_inv K has_key (s\<lparr>g_is_open := b\<rparr>) = em_inv K has_key s"
  by (simp add: em_inv_def crypto_inv_def cdev_up_def buffers_ok_def pending_def)

lemma open_release_step:
  assumes "module_inv K has_key n (s, h)"
  shows "photon_cdev_open cap s = (ok, s') \<Longrightarrow> module_inv K has_key n (s', Suc h)"
    and "photon_cdev_open cap s = (Inl e, s') \<Longrightarrow> s' = s"
    and "h = Suc h' \<Longrightarrow> module_inv K has_key n (photon_cdev_release s, h')"
  using assms
  by (auto simp: photon_cdev_open_def photon_cdev_release_def module_inv_def em_inv_is_open
      split: if_splits)

lemma module_step_inv:
  assumes "env_ok K has_key seal unseal n" "module_step K st st'" "module_inv K has_key n st"
  shows "module_inv K has_key n st'"
  using assms(2,3)
proof cases
  case (open_ok cap s s' h)
  then show ?thesis using open_release_step(1) assms(3) by blast
next
  case (open_fail cap s e s' h)
  then show ?thesis using open_release_step(2) [of K has_key n s h cap e s'] assms(3) by simp
next
  case (release s h)
  then show ?thesis using open_release_step(3) [of K has_key n s "Suc h" h] assms(3) by simp
next
  case (read sig buf count s r s' h)
  then show ?thesis using read_step(1) assms(3) by blast
next
  case (ioctl current cap cmd arg s r' s' h)
  then show ?thesis using ioctl_step(1) [OF assms(1)] assms(3) by blast
next
  case (log data len current ty det sev s r' s' h)
  then show ?thesis using log_step(1) [OF assms(1)] assms(3) by blast
next
  case (heartbeat current s r' s' h)
  then show ?thesis using heartbeat_step(1) [OF assms(1)] assms(3) by blast
next
  case (rotate current s r' s' h)
  then show ?thesis using rotate_step(1) [OF assms(1)] assms(3) by blast
qed

text \<open>Once set, the master key never changes.\<close>

lemma module_step_key:
  assumes "env_ok K has_key seal unseal n" "module_step K st st'" "module_inv K has_key n st"
    and "g_key_set (fst st)"
  shows "g_key_set (fst st') \<and> g_master_key (fst st') = g_master_key (fst st)"
  using assms(2-)
proof cases
  case (log data len current ty det sev s r' s' h)
  then show ?thesis using log_step(2) [OF assms(1) _ log(3,4), of h] assms(3,4) by (simp add: same_statics_def)
next
  case (heartbeat current s r' s' h)
  then show ?thesis using heartbeat_step(2) [OF assms(1) _ heartbeat(3), of h] assms(3,4)
    by (simp add: same_statics_def)
next
  case (ioctl current cap cmd arg s r' s' h)
  then show ?thesis using ioctl_step(2) [OF assms(1) _ ioctl(3), of "Suc h"] assms(3,4) by simp
next
  case (rotate current s r' s' h)
  then show ?thesis using rotate_step(2,3) [OF assms(1) _ rotate(3), of h] assms(3,4) by simp
next
  case (read sig buf count s r s' h)
  then show ?thesis using read_step(2,3) [OF _ read(3), of K has_key n "Suc h"] assms(3,4) by simp
qed (auto simp: photon_cdev_open_def photon_cdev_release_def split: if_splits)

lemma init_statics:
  assumes "event_manager_init K s = Some (ok, s')"
  shows "g_is_open s' = g_is_open s \<and> g_shutting_down s' = g_shutting_down s \<and>
    g_read_staging s' = g_read_staging s \<and> g_master_key s' = g_master_key s \<and> g_session_key s' = g_session_key s \<and>
    g_tfm s' \<noteq> None"
proof -
  obtain r s1 where i: "init_cpus K [0..<length (event_buffers s)] s = (r, s1)"
    by (cases "init_cpus K [0..<length (event_buffers s)] s")
  obtain m bs where s1: "s1 = s\<lparr>now := m, event_buffers := bs\<rparr>"
    using init_cpus_frame [of K "[0..<length (event_buffers s)]" s] i by auto
  show ?thesis
    using assms i s1
    by (auto simp: event_manager_init_def crypto_layer_init_def cdev_channel_init_def kmalloc_def ext_def Let_def
        cdev_unwind split: sum.splits prod.splits if_splits bind_splits)
qed

lemma loaded_inv:
  assumes "env_ok K has_key seal unseal (length (event_buffers s0))" "fresh s0"
    and "event_manager_init K s0 = Some (ok, s)"
  shows "module_inv K has_key (length (event_buffers s0)) (s, 0)"
proof -
  have down: "em_down s0" using assms(2) by (simp add: fresh_def)
  have "em_inv K has_key s \<and> \<not> g_key_set s \<and> length (event_buffers s) = length (event_buffers s0)"
    by (cases rule: em_init_cases [OF env_okD(3) [OF assms(1)] down, of has_key]) (use assms(3) in simp_all)
  with init_statics [OF assms(3)] assms(2) show ?thesis by (simp add: module_inv_def fresh_def)
qed

lemma reachable_inv:
  assumes "env_ok K has_key seal unseal (length (event_buffers s0))" "fresh s0" "reachable K s0 st"
  shows "module_inv K has_key (length (event_buffers s0)) st"
  using assms(3)
proof induction
  case (loaded s)
  then show ?case by (rule loaded_inv [OF assms(1,2)])
next
  case (step st st')
  then show ?case using module_step_inv [OF assms(1)] by blast
qed

lemma reachable_steps: "reachable K s0 st \<Longrightarrow> (module_step K)\<^sup>*\<^sup>* st st' \<Longrightarrow> reachable K s0 st'"
  by (rotate_tac, induction rule: rtranclp_induct) (auto intro: reachable.step)

section \<open>Properties\<close>

text \<open>
  C4. The invariant of the running module: in every state the loaded module can reach through file
  operations, logged events, heartbeats and key rotations, in any order and on any CPUs, the
  ring, the buffers, the keys and the device are consistent, no event is left behind in a
  buffer, the device is open at most once, the mutex is free, and while no key is set both key
  buffers are zero.
\<close>

theorem module_invariant:
  assumes "env_ok K has_key seal unseal (length (event_buffers s0))" "fresh s0" "reachable K s0 (s, h)"
  shows "em_inv K has_key s \<and> h = (if g_is_open s then 1 else 0) \<and> \<not> crypto_mutex s \<and>
    (\<not> g_key_set s \<longrightarrow> g_master_key s = zeros 32 \<and> g_session_key s = zeros 32)"
proof -
  have inv: "module_inv K has_key (length (event_buffers s0)) (s, h)" by (rule reachable_inv [OF assms])
  then have em: "em_inv K has_key s" by (simp add: module_inv_def)
  then have "\<not> crypto_mutex s" by (simp add: em_inv_def crypto_inv_def)
  with em inv show ?thesis by (simp add: module_inv_def)
qed

lemma em_initial_fresh: "fresh em_initial"
  using em_initial_down by (simp add: fresh_def em_initial_def cdev_initial_def initial_crypto_state_def
      crypto_state.defs cdev_state.defs)

lemma em_initial_env: "env_ok demo_env (\<lambda>t k. t = k) demo_seal demo_unseal (length (event_buffers em_initial))"
  using demo_env_all by (simp add: em_initial_def cdev_state.defs)

lemma em_initial_loads: "\<exists>s. event_manager_init demo_env em_initial = Some (ok, s)"
proof -
  have two: "[0..<2 :: nat] = [0, 1]" by (simp add: upt_rec)
  have cpus: "\<exists>s1. init_cpus demo_env [0, 1] em_initial = (ok, s1)"
    by (simp add: ext_def init_event_buffer_def demo_env_def)
  then show ?thesis
    using two by (auto simp: event_manager_init_def em_initial_def cdev_state.defs crypto_layer_init_def
        cdev_channel_init_def kmalloc_def ext_def Let_def ring_buf_init_def init_event_buffer_def demo_env_def)
qed

theorem module_invariant_witness:
  "\<exists>s. reachable demo_env em_initial (s, 0) \<and> em_inv demo_env (\<lambda>t k. t = k) s \<and>
     \<not> g_is_open s \<and> \<not> crypto_mutex s"
proof -
  obtain s where "event_manager_init demo_env em_initial = Some (ok, s)" using em_initial_loads by blast
  then have r: "reachable demo_env em_initial (s, 0)" by (rule reachable.loaded)
  from module_invariant [OF em_initial_env em_initial_fresh this] r show ?thesis
    by (metis zero_neq_one)
qed

text \<open>
  C21. The master key is set once: after a run of the module that reached a state with a key, every
  later state has a key, with the same master key, whatever \<open>SET_KEY\<close> calls, rotations and other
  operations follow.
\<close>

theorem master_key_is_set_once:
  assumes "env_ok K has_key seal unseal (length (event_buffers s0))" "fresh s0" "reachable K s0 (s, h)"
    and "g_key_set s" "(module_step K)\<^sup>*\<^sup>* (s, h) (s', h')"
  shows "g_key_set s' \<and> g_master_key s' = g_master_key s"
proof -
  have "(module_step K)\<^sup>*\<^sup>* (s, h) st \<Longrightarrow> g_key_set (fst st) \<and> g_master_key (fst st) = g_master_key s" for st
  proof (induction rule: rtranclp_induct)
    case base
    then show ?case using assms(4) by simp
  next
    case (step x y)
    have "module_inv K has_key (length (event_buffers s0)) x"
      using reachable_inv [OF assms(1,2) reachable_steps [OF assms(3) step(1)]] .
    from module_step_key [OF assms(1) step(2) this] step.IH show ?case by simp
  qed
  from this [OF assms(5)] show ?thesis by simp
qed

definition setauthsize_accepts :: "'t kenv \<Rightarrow> bool" where
  "setauthsize_accepts K \<longleftrightarrow> (\<forall>n a t. fst (k_aead_setauthsize K n a t) = ok)"

lemma demo_authsize: "setauthsize_accepts demo_env"
  by (simp add: setauthsize_accepts_def demo_env_def)

lemma set_key_succeeds:
  assumes "shash_available K" "setkey_accepts K" "setauthsize_accepts K" "g_tfm s = Some t" "\<not> crypto_mutex s"
  shows "\<exists>s'. photon_set_encryption_key K (Some k) s = Some (ok, s')"
proof -
  let ?s1 = "s\<lparr>g_master_key := take 32 k, g_key_set := True\<rparr>"
  obtain r n where d: "photon_derive_session_key K 0 ?s1 = Some (r, ?s1\<lparr>now := n\<rparr>)"
    and "\<not> failed r" using derive_ex [of ?s1 K 0] assms(1,5) by auto
  then obtain dk where dk: "r = Inr dk" by (cases r) auto
  obtain t1 where k1: "k_aead_setkey K n dk t = (ok, t1)"
    using assms(2) unfolding setkey_accepts_def by (metis prod.collapse)
  obtain t2 where k2: "k_aead_setauthsize K (Suc n) 16 t1 = (ok, t2)"
    using assms(3) unfolding setauthsize_accepts_def by (metis prod.collapse)
  show ?thesis
    using assms(4,5) dk k1 k2
    by (simp add: photon_set_encryption_key_def mutex_lock_free mutex_idle d mutex_unlock_def
        crypto_aead_setkey_def crypto_aead_setauthsize_def Let_def)
qed

lemma heartbeat_returns:
  assumes "buffers_ok s" "cpus_ok K (length (event_buffers s))"
  shows "\<exists>s'. photon_send_heartbeat K current s = Some (ok, s')"
proof -
  have "buffers_ok (s\<lparr>now := m\<rparr>)" "cpus_ok K (length (event_buffers (s\<lparr>now := m\<rparr>)))" for m
    using assms by (simp_all add: buffers_ok_def)
  from log_event_total [OF this payload_system system_len] show ?thesis
    unfolding photon_send_heartbeat_def ext_def Let_def by (simp del: event_type_code.simps severity_code.simps) blast
qed

lemma ioctl_succeeds:
  assumes env: "env_ok K has_key seal unseal n" and inv: "module_inv K has_key n (s, h)" and nk: "\<not> g_key_set s"
    and avail: "shash_available K" "setkey_accepts K" "setauthsize_accepts K"
  shows "\<exists>s'. photon_cdev_ioctl K current True PHOTON_IOC_SET_KEY (Some key) s = Some (ok, s')"
proof -
  have free: "\<not> crypto_mutex s" using inv by (simp add: module_inv_def em_inv_def crypto_inv_def)
  obtain t where t: "g_tfm s = Some t" using inv by (auto simp: module_inv_def)
  obtain s1 where s1: "photon_set_encryption_key K (Some (take 32 key)) s = Some (ok, s1)"
    using set_key_succeeds [OF avail t free] by blast
  have inv1: "module_inv K has_key n (s1, h)" by (rule set_key_step(1) [OF env inv nk s1])
  have "buffers_ok s1" "cpus_ok K (length (event_buffers s1))"
    using inv1 env_okD(4) [OF env] by (simp_all add: module_inv_def em_inv_def)
  then obtain s2 where "photon_send_heartbeat K current s1 = Some (ok, s2)" using heartbeat_returns by blast
  with s1 nk show ?thesis by (simp add: photon_cdev_ioctl_def photon_has_key_def)
qed

text \<open>
  Key exchange.  In the running module without a key, \<open>SET_KEY\<close> by a task with
  \<open>CAP_SYS_ADMIN\<close> and a readable key buffer succeeds when no kernel call fails; the master key is then
  the 32 bytes the caller passed and the session key is their HKDF key of rotation 0.
\<close>

theorem ioctl_set_key_succeeds:
  assumes "env_ok K has_key seal unseal (length (event_buffers s0))" "fresh s0" "reachable K s0 (s, h)"
    and "\<not> g_key_set s" "shash_available K" "setkey_accepts K" "setauthsize_accepts K" "length key = 32"
  shows "\<exists>s'. photon_cdev_ioctl K current True PHOTON_IOC_SET_KEY (Some key) s = Some (ok, s') \<and>
    g_key_set s' \<and> g_master_key s' = key \<and>
    g_session_key s' = session_key_spec (k_hmac_sha256 K) key (g_rotation_counter s')"
proof -
  note inv = reachable_inv [OF assms(1-3)]
  obtain s' where s': "photon_cdev_ioctl K current True PHOTON_IOC_SET_KEY (Some key) s = Some (ok, s')"
    using ioctl_succeeds [OF assms(1) inv assms(4-7)] by blast
  note st = ioctl_step [OF assms(1) inv s']
  have k: "g_key_set s'" "g_master_key s' = key" using st(3) [OF assms(4)] st(4) [OF refl] assms(8) by auto
  then have "g_session_key s' = session_key_spec (k_hmac_sha256 K) key (g_rotation_counter s')"
    using st(1) by (auto simp: module_inv_def em_inv_def crypto_inv_def)
  with s' k show ?thesis by blast
qed

theorem ioctl_set_key_succeeds_witness:
  "\<exists>s s'. reachable demo_env em_initial (s, 0) \<and> \<not> g_key_set s \<and>
     photon_cdev_ioctl demo_env \<lparr>task_pid = 1, task_comm = ''agent''\<rparr> True PHOTON_IOC_SET_KEY
       (Some (replicate 32 5)) s = Some (ok, s') \<and> g_key_set s' \<and> g_master_key s' = replicate 32 5"
proof -
  obtain s where load: "event_manager_init demo_env em_initial = Some (ok, s)" using em_initial_loads by blast
  then have r: "reachable demo_env em_initial (s, 0)" by (rule reachable.loaded)
  have nk: "\<not> g_key_set s"
    by (cases rule: em_init_cases [OF demo_env_events em_initial_down, of "\<lambda>t k. t = k"]) (use load in simp_all)
  have "length (replicate 32 (5 :: u8)) = 32" by simp
  from ioctl_set_key_succeeds [OF em_initial_env em_initial_fresh r nk demo_env_shash demo_setkey demo_authsize this]
  show ?thesis using r nk by blast
qed

text \<open>A reachable state of the concrete environment with a key.\<close>

lemma keyed_reachable: "\<exists>s. reachable demo_env em_initial (s, 1) \<and> g_key_set s"
proof -
  obtain s where load: "event_manager_init demo_env em_initial = Some (ok, s)" using em_initial_loads by blast
  have nk: "\<not> g_key_set s"
    by (cases rule: em_init_cases [OF demo_env_events em_initial_down, of "\<lambda>t k. t = k"]) (use load in simp_all)
  have inv: "module_inv demo_env (\<lambda>t k. t = k) (length (event_buffers em_initial)) (s, 0)"
    by (rule loaded_inv [OF em_initial_env em_initial_fresh load])
  then have closed: "\<not> g_is_open s" by (simp add: module_inv_def split: if_splits)
  let ?s = "s\<lparr>g_is_open := True\<rparr>"
  have "photon_cdev_open True s = (ok, ?s)" using closed by (simp add: photon_cdev_open_def)
  then have r1: "reachable demo_env em_initial (?s, Suc 0)"
    by (rule reachable.step [OF reachable.loaded [OF load] module_step.open_ok])
  note inv1 = reachable_inv [OF em_initial_env em_initial_fresh r1]
  obtain s' where s': "photon_cdev_ioctl demo_env \<lparr>task_pid = 1, task_comm = ''agent''\<rparr> True PHOTON_IOC_SET_KEY
      (Some (zeros 32)) ?s = Some (ok, s')"
    using ioctl_succeeds [OF em_initial_env inv1 _ demo_env_shash demo_setkey demo_authsize] nk by auto
  have "g_key_set s'" using ioctl_step(3) [OF em_initial_env inv1 s'] nk by simp
  moreover have "reachable demo_env em_initial (s', Suc 0)"
    by (rule reachable.step [OF r1 module_step.ioctl [OF s']])
  ultimately show ?thesis by auto
qed

theorem master_key_is_set_once_witness:
  "\<exists>s s'. reachable demo_env em_initial (s, 1) \<and> g_key_set s \<and>
     (module_step demo_env)\<^sup>*\<^sup>* (s, 1) (s', 0) \<and> g_key_set s' \<and> g_master_key s' = g_master_key s"
proof -
  obtain s where s: "reachable demo_env em_initial (s, 1)" "g_key_set s" using keyed_reachable by blast
  have run: "(module_step demo_env)\<^sup>*\<^sup>* (s, 1) (photon_cdev_release s, 0)"
    using module_step.release [of demo_env s 0] by simp
  from master_key_is_set_once [OF em_initial_env em_initial_fresh s run] s run show ?thesis by blast
qed

lemma read_oldest:
  assumes "module_inv K has_key n (s, h)" "ring_frames (g_ring s) = f # fs" "356 \<le> unat count" "unat count < 2 ^ 32"
  shows "\<exists>s'. photon_cdev_read sig True count s = Some (Inr f, s') \<and> ring_frames (g_ring s') = fs \<and>
    g_read_staging s' = zeros PHOTON_FRAME_SLOT_SIZE \<and> module_inv K has_key n (s', h)"
proof -
  have s: "ring_ok (g_ring s)" "\<not> g_shutting_down s" "length (g_read_staging s) = PHOTON_FRAME_SLOT_SIZE"
    using assms(1) by (simp_all add: module_inv_def em_inv_def cdev_up_def)
  obtain rb where rb: "ring_frames rb = fs" "length f \<le> PHOTON_FRAME_SLOT_SIZE"
    and r: "photon_cdev_read sig True count s =
       (if count < 4 then Some (Inl EINVAL, s\<lparr>g_ring := rb, g_read_staging := f @ drop (length f) (g_read_staging s)\<rparr>)
        else Some (if True then Inr (take (unat (min (of_nat (length f)) (ucast count :: u32))) f) else Inl EFAULT,
                   s\<lparr>g_ring := rb, g_read_staging := zeros PHOTON_FRAME_SLOT_SIZE\<rparr>))"
    by (rule read_next [OF s(1) assms(2) s(2,3), of sig True count]) blast
  have "\<not> count < 4" using assms(3) by (simp add: word_less_nat_alt)
  have len: "unat (of_nat (length f) :: u32) = length f" by (rule unat_frame_length [OF rb(2)])
  have "unat (ucast count :: u32) = unat count" using assms(4) by (simp add: unsigned_ucast_eq take_bit_nat_eq_self)
  then have "(of_nat (length f) :: u32) \<le> ucast count"
    using rb(2) assms(3) len by (simp add: word_le_nat_alt frame_sizes)
  then have "unat (min (of_nat (length f)) (ucast count :: u32)) = length f" using len by (simp add: min_def)
  with r \<open>\<not> count < 4\<close> have res: "photon_cdev_read sig True count s =
      Some (Inr f, s\<lparr>g_ring := rb, g_read_staging := zeros PHOTON_FRAME_SLOT_SIZE\<rparr>)" by simp
  with read_step(1) [OF assms(1) res] rb(1) show ?thesis by simp
qed

text \<open>
  C29. Reading.  A read of at least 356 bytes into a valid buffer on a device with queued frames returns
  exactly the oldest frame and removes it from the ring; the staging buffer is wiped.
\<close>

theorem read_returns_oldest_frame:
  assumes "module_inv K has_key n (s, h)" "ring_frames (g_ring s) = f # fs" "356 \<le> unat count" "unat count < 2 ^ 32"
  shows "\<exists>s'. photon_cdev_read sig True count s = Some (Inr f, s') \<and> ring_frames (g_ring s') = fs \<and>
    g_read_staging s' = zeros PHOTON_FRAME_SLOT_SIZE \<and> module_inv K has_key n (s', h)"
  by (rule read_oldest [OF assms])

text \<open>A running module with one frame queued.\<close>

definition demo_queued :: "bytes em_state" where
  "demo_queued = demo_em\<lparr>g_ring := snd (push_frame (g_ring demo_em) (replicate 356 1))\<rparr>"

lemma demo_frame_fits: "frame_fits (replicate 356 1)"
  by (simp add: frame_fits_def frame_sizes)

lemma demo_em_ring: "ring_ok (g_ring demo_em)" "ring_frames (g_ring demo_em) = []" "ring_limit (g_ring demo_em) = 255"
proof -
  show "ring_ok (g_ring demo_em)" "ring_limit (g_ring demo_em) = 255"
    using demo_em_inv by (simp_all add: em_inv_def cdev_up_def)
  have "g_ring demo_em = snd (ring_buf_init True PHOTON_RING_BUF_FRAMES (g_ring demo_cdev))"
    by (simp add: demo_em_def cdev_state.defs)
  then show "ring_frames (g_ring demo_em) = []"
    using ring_buf_init_ok [of PHOTON_RING_BUF_FRAMES] by (simp add: PHOTON_RING_BUF_FRAMES_def)
qed

lemma demo_queued_inv: "module_inv demo_env (\<lambda>t k. t = k) 2 (demo_queued, 1)"
  "ring_frames (g_ring demo_queued) = [replicate 356 1]"
proof -
  have ring: "ring_ok (g_ring demo_queued)" "ring_limit (g_ring demo_queued) = ring_limit (g_ring demo_em)"
    using frame_ring.push_wf [OF demo_em_ring(1) demo_frame_fits] by (simp_all add: demo_queued_def)
  have crypto: "crypto_inv demo_env (\<lambda>t k. t = k) demo_queued"
    by (rule crypto_inv_frame [of _ _ demo_em]) (use demo_em_inv in \<open>simp_all add: demo_queued_def em_inv_def\<close>)
  have em: "em_inv demo_env (\<lambda>t k. t = k) demo_queued"
    by (rule em_inv_frame [OF demo_em_inv crypto ring]) (simp_all add: demo_queued_def)
  have "g_is_open demo_em" "\<not> g_shutting_down demo_em" "length (g_read_staging demo_em) = PHOTON_FRAME_SLOT_SIZE"
    by (simp_all add: demo_em_def cdev_state.defs demo_cdev_def crypto_state.defs)
  then show "module_inv demo_env (\<lambda>t k. t = k) 2 (demo_queued, 1)"
    using em demo_em_parts(1,2) demo_em_keyed by (simp add: module_inv_def demo_queued_def)
  show "ring_frames (g_ring demo_queued) = [replicate 356 1]"
    using frame_ring.push_contents [OF demo_em_ring(1) demo_frame_fits] demo_em_ring(2,3)
    by (simp add: demo_queued_def)
qed

theorem read_returns_oldest_frame_witness:
  "\<exists>s'. photon_cdev_read False True 4096 demo_queued = Some (Inr (replicate 356 1), s') \<and>
     ring_frames (g_ring s') = []"
  using read_returns_oldest_frame [OF demo_queued_inv, of 4096] by auto



end
