(* ===== verification/Probe_Detectors.thy ===== *)
theory Probe_Detectors
  imports Watchlists Cdev_Fops
begin

text \<open>
  The detectors that watch probe registration and symbol lookup: \<open>modules/kprobe_detector.c\<close>,
  \<open>modules/kretprobe_detector.c\<close> and \<open>modules/kallsyms_detector.c\<close>.  A handler is its decision (which
  report it makes, if any) followed by \<open>photon_log_event\<close>; the text that \<open>printk\<close> writes carries no
  further state and is left out.
\<close>

unbundle bit_operations_syntax

section \<open>Reports\<close>

text \<open>The arguments of one \<open>photon_log_event\<close> call of a detector.\<close>

record report =
  rep_type :: photon_event_type
  rep_detector :: photon_detector_id
  rep_severity :: severity
  rep_payload :: bytes

definition send_report ::
  "'t kenv \<Rightarrow> task \<Rightarrow> report \<Rightarrow> ('t, 'z) em_state_scheme \<Rightarrow> ('t, 'z) em_state_scheme option" where
  "send_report K current r s = do {
     (_, s) \<leftarrow> photon_log_event K current (event_type_code (rep_type r)) (detector_code (rep_detector r))
                 (severity_code (rep_severity r)) (Some (rep_payload r)) (of_nat (length (rep_payload r))) s;
     Some s
   }"

definition send_optional ::
  "'t kenv \<Rightarrow> task \<Rightarrow> report option \<Rightarrow> ('t, 'z) em_state_scheme \<Rightarrow> ('t, 'z) em_state_scheme option" where
  "send_optional K current r s = (case r of None \<Rightarrow> Some s | Some r \<Rightarrow> send_report K current r s)"

fun send_reports ::
  "'t kenv \<Rightarrow> task \<Rightarrow> report list \<Rightarrow> ('t, 'z) em_state_scheme \<Rightarrow> ('t, 'z) em_state_scheme option" where
  "send_reports K current [] s = Some s"
| "send_reports K current (r # rs) s = do { s \<leftarrow> send_report K current r s; send_reports K current rs s }"

text \<open>\<open>PROBE_FLAG_*\<close>.\<close>

definition PROBE_FLAG_WATCHLISTED :: u32 where "PROBE_FLAG_WATCHLISTED = 0x01"
definition PROBE_FLAG_ANON_HANDLER :: u32 where "PROBE_FLAG_ANON_HANDLER = 0x02"
definition PROBE_FLAG_HIGH_ACTIVE :: u32 where "PROBE_FLAG_HIGH_ACTIVE = 0x04"
definition PROBE_FLAG_BATCH :: u32 where "PROBE_FLAG_BATCH = 0x08"

lemmas probe_flags = PROBE_FLAG_WATCHLISTED_def PROBE_FLAG_ANON_HANDLER_def PROBE_FLAG_HIGH_ACTIVE_def
  PROBE_FLAG_BATCH_def

text \<open>\<open>struct kprobe\<close> and \<open>struct kretprobe\<close>, as far as the handlers read them.\<close>

record kprobe =
  kp_symbol_name :: "string option"
  kp_address :: ulong
  kp_pre_handler :: ulong

record kretprobe =
  rp_kp :: kprobe
  rp_handler :: ulong
  rp_entry_handler :: ulong
  rp_maxactive :: "32 word"

section \<open>kprobe\_detector.c\<close>

definition kprobe_report :: "tenv \<Rightarrow> ulong \<Rightarrow> kprobe option \<Rightarrow> report option" where
  "kprobe_report E parent_ip kp =
     (if t_within_module E parent_ip then None
      else case kp of
        None \<Rightarrow> None
      | Some kp \<Rightarrow> (case kp_symbol_name kp of
          None \<Rightarrow> None
        | Some name \<Rightarrow>
            let watched = photon_is_watchlisted (Some name);
                payload = \<lparr>ph_symbol_name = strncpy_field 64 name, ph_target_addr = kp_address kp,
                  ph_handler_addr = 0, ph_entry_addr = 0, ph_maxactive = 0, ph_batch_count = 1,
                  ph_flags = (if watched then 0 OR PROBE_FLAG_WATCHLISTED else 0)\<rparr>
            in Some \<lparr>rep_type = PHOTON_EVENT_PROBE_KPROBE, rep_detector = PHOTON_DETECTOR_KPROBE,
                 rep_severity = (if watched then PHOTON_SEV_CRITICAL else PHOTON_SEV_SUSPICIOUS),
                 rep_payload = probe_hook_bytes payload\<rparr>))"

definition hook_kprobe_register ::
  "'t kenv \<Rightarrow> tenv \<Rightarrow> task \<Rightarrow> ulong \<Rightarrow> kprobe option \<Rightarrow> ('t, 'z) em_state_scheme \<Rightarrow>
   ('t, 'z) em_state_scheme option" where
  "hook_kprobe_register K E current parent_ip kp s =
     send_optional K current (kprobe_report E parent_ip kp) s"

definition kprobe_detector_get_kallsyms_addr :: "tstate \<Rightarrow> ulong" where
  "kprobe_detector_get_kallsyms_addr s = g_kallsyms_addr s"

definition kprobe_detector_init :: "tenv \<Rightarrow> tstate \<Rightarrow> unit kresult \<times> tstate" where
  "kprobe_detector_init E s =
     (case probe_symbol E s of
        (Inl e, s) \<Rightarrow> (Inl e, s)
      | (Inr addr, s) \<Rightarrow>
          let s = s\<lparr>g_kallsyms_addr := addr\<rparr>
          in case install_ops E OPS_KPROBE (t_exported E ''register_kprobe'') s of
               (Inl e, s) \<Rightarrow> (Inl e, s\<lparr>g_kallsyms_addr := 0\<rparr>)
             | (Inr _, s) \<Rightarrow> (ok, s))"

definition kprobe_detector_exit :: "tstate \<Rightarrow> tstate" where
  "kprobe_detector_exit s =
     (ftrace_filter_remove OPS_KPROBE 0 (unregister_ftrace_function OPS_KPROBE s))\<lparr>g_kallsyms_addr := 0\<rparr>"

section \<open>kretprobe\_detector.c\<close>

text \<open>\<open>sprint_symbol_no_offset\<close> prints an address outside the symbol table as a hex number.\<close>

definition handler_is_anonymous :: "tenv \<Rightarrow> ulong \<Rightarrow> bool" where
  "handler_is_anonymous E addr = (if addr = 0 then False else take 2 (t_symbol E addr) = ''0x'')"

definition build_and_emit ::
  "string option \<Rightarrow> ulong \<Rightarrow> ulong \<Rightarrow> ulong \<Rightarrow> 32 word \<Rightarrow> 32 word \<Rightarrow> u32 \<Rightarrow> report" where
  "build_and_emit symbol_name target_addr handler_addr entry_addr maxactive batch_count flags =
     (let payload = \<lparr>ph_symbol_name = (case symbol_name of None \<Rightarrow> zeros 64 | Some n \<Rightarrow> strncpy_field 64 n),
            ph_target_addr = target_addr, ph_handler_addr = handler_addr, ph_entry_addr = entry_addr,
            ph_maxactive = maxactive, ph_batch_count = batch_count, ph_flags = flags\<rparr>;
          sev = (if flags AND (PROBE_FLAG_ANON_HANDLER OR PROBE_FLAG_WATCHLISTED) \<noteq> 0
                 then PHOTON_SEV_CRITICAL else PHOTON_SEV_SUSPICIOUS)
      in \<lparr>rep_type = PHOTON_EVENT_PROBE_KRETPROBE, rep_detector = PHOTON_DETECTOR_KRETPROBE,
          rep_severity = sev, rep_payload = probe_hook_bytes payload\<rparr>)"

definition KRETPROBE_MAXACTIVE_THRESHOLD :: int where
  "KRETPROBE_MAXACTIVE_THRESHOLD = 512"

definition kretprobe_flags :: "tenv \<Rightarrow> kretprobe \<Rightarrow> u32" where
  "kretprobe_flags E rp =
     (let flags = 0;
          flags = (if photon_is_watchlisted (kp_symbol_name (rp_kp rp)) then flags OR PROBE_FLAG_WATCHLISTED else flags);
          flags = (if handler_is_anonymous E (rp_handler rp) then flags OR PROBE_FLAG_ANON_HANDLER else flags);
          flags = (if rp_entry_handler rp \<noteq> 0 \<and> handler_is_anonymous E (rp_entry_handler rp)
                   then flags OR PROBE_FLAG_ANON_HANDLER else flags)
      in if sint (rp_maxactive rp) > KRETPROBE_MAXACTIVE_THRESHOLD then flags OR PROBE_FLAG_HIGH_ACTIVE else flags)"

definition kretprobe_report :: "tenv \<Rightarrow> ulong \<Rightarrow> kretprobe option \<Rightarrow> report option" where
  "kretprobe_report E parent_ip rp =
     (case rp of
        None \<Rightarrow> None
      | Some rp \<Rightarrow>
          if t_within_module E parent_ip then None
          else let flags = kretprobe_flags E rp
               in if flags = 0 then None
                  else Some (build_and_emit (kp_symbol_name (rp_kp rp)) (kp_address (rp_kp rp)) (rp_handler rp)
                               (rp_entry_handler rp) (rp_maxactive rp) 1 flags))"

definition hook_register_kretprobe ::
  "'t kenv \<Rightarrow> tenv \<Rightarrow> task \<Rightarrow> ulong \<Rightarrow> kretprobe option \<Rightarrow> ('t, 'z) em_state_scheme \<Rightarrow>
   ('t, 'z) em_state_scheme option" where
  "hook_register_kretprobe K E current parent_ip rp s =
     send_optional K current (kretprobe_report E parent_ip rp) s"

text \<open>One element of a batch.\<close>

definition batch_entry_report :: "tenv \<Rightarrow> ulong \<Rightarrow> kprobe option \<Rightarrow> report option" where
  "batch_entry_report E num_ul kp =
     (case kp of
        None \<Rightarrow> None
      | Some kp \<Rightarrow>
          let flags = PROBE_FLAG_BATCH;
              flags = (if photon_is_watchlisted (kp_symbol_name kp) then flags OR PROBE_FLAG_WATCHLISTED else flags);
              flags = (if handler_is_anonymous E (kp_pre_handler kp) then flags OR PROBE_FLAG_ANON_HANDLER else flags)
          in if flags AND NOT PROBE_FLAG_BATCH = 0 then None
             else Some (build_and_emit (kp_symbol_name kp) (kp_address kp) (kp_pre_handler kp) 0 0 (ucast num_ul) flags))"

text \<open>
  \<open>kps\<close> is the array the first argument points to; the loop covers at most 64 elements.
\<close>

definition batch_reports :: "tenv \<Rightarrow> ulong \<Rightarrow> kprobe option list option \<Rightarrow> ulong \<Rightarrow> report list" where
  "batch_reports E parent_ip kps num_ul =
     (case kps of
        None \<Rightarrow> []
      | Some kps \<Rightarrow>
          if num_ul = 0 then []
          else if t_within_module E parent_ip then []
          else let num = unat (min num_ul 64)
               in List.map_filter (batch_entry_report E num_ul) (take num kps))"

definition hook_register_kprobes ::
  "'t kenv \<Rightarrow> tenv \<Rightarrow> task \<Rightarrow> ulong \<Rightarrow> kprobe option list option \<Rightarrow> ulong \<Rightarrow> ('t, 'z) em_state_scheme \<Rightarrow>
   ('t, 'z) em_state_scheme option" where
  "hook_register_kprobes K E current parent_ip kps num_ul s =
     send_reports K current (batch_reports E parent_ip kps num_ul) s"

definition kretprobe_detector_init :: "tenv \<Rightarrow> tstate \<Rightarrow> unit kresult \<times> tstate" where
  "kretprobe_detector_init E s =
     (case install_ops E OPS_KRETPROBE (t_exported E ''register_kretprobe'') s of
        (Inl e, s) \<Rightarrow> (Inl e, s)
      | (Inr _, s) \<Rightarrow>
          (case install_ops E OPS_KPROBES_BATCH (t_exported E ''register_kprobes'') s of
             (Inl e, s) \<Rightarrow>
               (Inl e, ftrace_filter_remove OPS_KRETPROBE (t_exported E ''register_kretprobe'')
                         (unregister_ftrace_function OPS_KRETPROBE s))
           | (Inr _, s) \<Rightarrow> (ok, s)))"

definition kretprobe_detector_exit :: "tstate \<Rightarrow> tstate" where
  "kretprobe_detector_exit s =
     ftrace_filter_remove OPS_KRETPROBE 0 (unregister_ftrace_function OPS_KRETPROBE
       (ftrace_filter_remove OPS_KPROBES_BATCH 0 (unregister_ftrace_function OPS_KPROBES_BATCH s)))"

section \<open>kallsyms\_detector.c\<close>

text \<open>\<open>snprintf(buf, 64, "%s  (%s/%d)", ...)\<close>, for a non-negative pid.\<close>

definition snprintf_field :: "nat \<Rightarrow> string \<Rightarrow> bytes" where
  "snprintf_field sz txt = (let b = take (sz - 1) (char_bytes txt) in b @ zeros (sz - length b))"

definition kallsyms_report :: "tenv \<Rightarrow> task \<Rightarrow> ulong \<Rightarrow> string option \<Rightarrow> report option" where
  "kallsyms_report E current parent_ip symname =
     (if t_within_module E parent_ip then None
      else case symname of
        None \<Rightarrow> None
      | Some name \<Rightarrow>
          if \<not> photon_is_watchlisted (Some name) then None
          else
            let annotated = cstr name @ ''  ('' @ cstr (task_comm current) @ ''/'' @
                              dec_digits (unat (task_pid current)) @ '')'';
                payload = \<lparr>ph_symbol_name = snprintf_field 64 annotated, ph_target_addr = parent_ip,
                  ph_handler_addr = 0, ph_entry_addr = 0, ph_maxactive = 0, ph_batch_count = 1,
                  ph_flags = PROBE_FLAG_WATCHLISTED\<rparr>
            in Some \<lparr>rep_type = PHOTON_EVENT_PROBE_KALLSYMS, rep_detector = PHOTON_DETECTOR_KPROBE,
                 rep_severity = PHOTON_SEV_CRITICAL, rep_payload = probe_hook_bytes payload\<rparr>)"

definition hook_kallsyms_lookup ::
  "'t kenv \<Rightarrow> tenv \<Rightarrow> task \<Rightarrow> ulong \<Rightarrow> string option \<Rightarrow> ('t, 'z) em_state_scheme \<Rightarrow>
   ('t, 'z) em_state_scheme option" where
  "hook_kallsyms_lookup K E current parent_ip symname s =
     send_optional K current (kallsyms_report E current parent_ip symname) s"

definition kallsyms_detector_init :: "tenv \<Rightarrow> tstate \<Rightarrow> unit kresult \<times> tstate" where
  "kallsyms_detector_init E s =
     (let addr = kprobe_detector_get_kallsyms_addr s
      in if addr = 0 then (Inl ENOENT, s) else install_ops E OPS_KALLSYMS addr s)"

definition kallsyms_detector_exit :: "tstate \<Rightarrow> tstate" where
  "kallsyms_detector_exit s =
     ftrace_filter_remove OPS_KALLSYMS 0 (unregister_ftrace_function OPS_KALLSYMS s)"

section \<open>Every report is logged\<close>

definition report_fits :: "report \<Rightarrow> bool" where
  "report_fits r \<longleftrightarrow> length (rep_payload r) \<le> 256"

lemma report_len: "report_fits r \<Longrightarrow> unat (of_nat (length (rep_payload r)) :: u16) = length (rep_payload r)"
  by (simp add: report_fits_def unat_of_nat)

lemma send_report_returns:
  assumes env: "env_ok K has_key seal unseal n" and inv: "module_inv K has_key n (s, h)" and fits: "report_fits r"
  shows "\<exists>s'. send_report K current r s = Some s' \<and> module_inv K has_key n (s', h) \<and>
    photon_get_sequence s' = photon_get_sequence s + 1"
proof -
  let ?len = "of_nat (length (rep_payload r)) :: u16"
  have len: "unat ?len \<le> 256" "payload_ok (Some (rep_payload r)) ?len"
    using report_len [OF fits] fits by (simp_all add: report_fits_def payload_ok_def)
  have b: "buffers_ok s" "cpus_ok K (length (event_buffers s))"
    using inv env_okD(4) [OF env] by (simp_all add: module_inv_def em_inv_def)
  obtain s' where s': "photon_log_event K current (event_type_code (rep_type r)) (detector_code (rep_detector r))
      (severity_code (rep_severity r)) (Some (rep_payload r)) ?len s = Some (ok, s')"
    "g_sequence_counter s' = g_sequence_counter s + 1"
    using log_event_total [OF b len(2,1)] by blast
  have "module_inv K has_key n (s', h)" by (rule log_step(1) [OF env inv len(2) s'(1)])
  with s' show ?thesis by (simp add: send_report_def photon_get_sequence_def)
qed

lemma send_optional_returns:
  assumes "env_ok K has_key seal unseal n" "module_inv K has_key n (s, h)" "\<forall>x. r = Some x \<longrightarrow> report_fits x"
  shows "\<exists>s'. send_optional K current r s = Some s' \<and> module_inv K has_key n (s', h) \<and>
    photon_get_sequence s' = photon_get_sequence s + (if r = None then 0 else 1)"
  using assms send_report_returns [OF assms(1,2)] by (cases r) (auto simp: send_optional_def)

lemma send_reports_returns:
  assumes "env_ok K has_key seal unseal n" "module_inv K has_key n (s, h)" "\<forall>r \<in> set rs. report_fits r"
  shows "\<exists>s'. send_reports K current rs s = Some s' \<and> module_inv K has_key n (s', h) \<and>
    photon_get_sequence s' = photon_get_sequence s + of_nat (length rs)"
  using assms(2,3)
proof (induction rs arbitrary: s)
  case (Cons r rs)
  obtain s1 where "send_report K current r s = Some s1" "module_inv K has_key n (s1, h)"
    "photon_get_sequence s1 = photon_get_sequence s + 1"
    using send_report_returns [OF assms(1) Cons.prems(1)] Cons.prems(2) by fastforce
  with Cons.IH [of s1] Cons.prems(2) show ?case by (auto simp: add.assoc)
qed simp

section \<open>Probe registration: what is reported\<close>

lemma probe_report_fits:
  "kprobe_report E ip kp = Some r \<Longrightarrow> report_fits r"
  "kretprobe_report E ip rp = Some r \<Longrightarrow> report_fits r"
  "batch_entry_report E m kp = Some r \<Longrightarrow> report_fits r"
  "kallsyms_report E current ip name = Some r \<Longrightarrow> report_fits r"
  by (auto simp: kprobe_report_def kretprobe_report_def batch_entry_report_def kallsyms_report_def
      build_and_emit_def report_fits_def length_probe_hook_bytes snprintf_field_def Let_def
      split: if_splits option.splits)

lemma kretprobe_flags_cases:
  "kretprobe_flags E rp =
     (let w = photon_is_watchlisted (kp_symbol_name (rp_kp rp));
          a = handler_is_anonymous E (rp_handler rp) \<or> handler_is_anonymous E (rp_entry_handler rp);
          m = sint (rp_maxactive rp) > 512
      in (if w then 1 else 0) + (if a then 2 else 0) + (if m then 4 else 0))"
  by (auto simp: kretprobe_flags_def probe_flags KRETPROBE_MAXACTIVE_THRESHOLD_def Let_def handler_is_anonymous_def)

lemma batch_flag_masks:
  "(8 :: u32) AND NOT 8 = 0" "(8 OR 1 :: u32) AND NOT 8 \<noteq> 0" "(8 OR 2 :: u32) AND NOT 8 \<noteq> 0"
  "((8 OR 1) OR 2 :: u32) AND NOT 8 \<noteq> 0"
  by simp_all

lemma batch_entry_None:
  "batch_entry_report E m kp = None \<longleftrightarrow>
     (case kp of None \<Rightarrow> True
      | Some k \<Rightarrow> \<not> photon_is_watchlisted (kp_symbol_name k) \<and> \<not> handler_is_anonymous E (kp_pre_handler k))"
  using batch_flag_masks
  by (auto simp: batch_entry_report_def probe_flags Let_def split: option.splits if_splits)

section \<open>The detectors keep their contract\<close>

interpretation kprobe: detector coherent "{OPS_KPROBE}" "kprobe_detector_init E" kprobe_detector_exit for E
  by unfold_locales
    (auto simp: kprobe_detector_init_def kprobe_detector_exit_def install_ops_def kernel_calls Let_def
      coherent_def split: sum.splits prod.splits)

interpretation kretprobe: detector coherent "{OPS_KRETPROBE, OPS_KPROBES_BATCH}" "kretprobe_detector_init E"
  kretprobe_detector_exit for E
  by unfold_locales
    (auto simp: kretprobe_detector_init_def kretprobe_detector_exit_def install_ops_def kernel_calls Let_def
      coherent_def split: sum.splits prod.splits)

interpretation kallsyms: detector coherent "{OPS_KALLSYMS}" "kallsyms_detector_init E" kallsyms_detector_exit for E
  by unfold_locales
    (auto simp: kallsyms_detector_init_def kallsyms_detector_exit_def install_ops_def kernel_calls Let_def
      coherent_def split: sum.splits prod.splits if_splits)

section \<open>Properties\<close>


definition demo_tenv :: tenv where
  "demo_tenv = \<lparr>t_set_filter_ip = (\<lambda>_. ok), t_set_filter = (\<lambda>_. ok), t_register_ftrace = (\<lambda>_. ok),
     t_register_kprobe = (\<lambda>_. Inr 0x1000), t_register_kretprobe = (\<lambda>_. ok), t_exported = (\<lambda>_. 0x2000),
     t_kallsyms_lookup = (\<lambda>_. 0x3000), t_symbol = (\<lambda>a. if a = 0x1000 then ''vfs_read'' else ''0xffff''),
     t_within_module = (\<lambda>ip. ip = 0x5000), t_stack_trace = (\<lambda>_. ''''), t_tainted_mask = (\<lambda>_. 0), t_jiffies = of_nat,
     t_ksym_name_len = 128\<rparr>"


text \<open>
  The severity of a kretprobe registration.  From outside the module it is reported exactly when
  the symbol is watchlisted, the return or entry handler lies outside the symbol table, or
  \<open>maxactive\<close> (a signed int) exceeds 512; the report is CRITICAL exactly in the first two cases, so
  a high \<open>maxactive\<close> alone is only SUSPICIOUS.
\<close>

theorem kretprobe_severity:
  "(let watched = photon_is_watchlisted (kp_symbol_name (rp_kp rp));
        anon = handler_is_anonymous E (rp_handler rp) \<or> handler_is_anonymous E (rp_entry_handler rp);
        high = sint (rp_maxactive rp) > 512 in
    case kretprobe_report E ip (Some rp) of
      None \<Rightarrow> t_within_module E ip \<or> \<not> (watched \<or> anon \<or> high)
    | Some r \<Rightarrow> \<not> t_within_module E ip \<and> (watched \<or> anon \<or> high) \<and>
        rep_severity r = (if watched \<or> anon then PHOTON_SEV_CRITICAL else PHOTON_SEV_SUSPICIOUS))"
  by (simp add: kretprobe_report_def kretprobe_flags_cases build_and_emit_def probe_flags Let_def)

theorem kretprobe_severity_witness:
  "\<exists>r. kretprobe_report demo_tenv 0x7000 (Some \<lparr>rp_kp = \<lparr>kp_symbol_name = Some ''vfs_read'', kp_address = 0, kp_pre_handler = 0\<rparr>,
       rp_handler = 0x1000, rp_entry_handler = 0, rp_maxactive = 513\<rparr>) = Some r \<and> rep_severity r = PHOTON_SEV_SUSPICIOUS"
proof -
  let ?rp = "\<lparr>rp_kp = \<lparr>kp_symbol_name = Some ''vfs_read'', kp_address = 0, kp_pre_handler = 0\<rparr>,
       rp_handler = 0x1000, rp_entry_handler = 0, rp_maxactive = 513\<rparr>"
  have "\<not> photon_is_watchlisted (Some ''vfs_read'')" by (simp add: watchlisted_iff photon_watchlist_def cstr_def)
  moreover have "\<not> handler_is_anonymous demo_tenv 0x1000" "\<not> handler_is_anonymous demo_tenv 0"
    by (simp_all add: handler_is_anonymous_def demo_tenv_def)
  moreover have "\<not> t_within_module demo_tenv 0x7000" by (simp add: demo_tenv_def)
  ultimately show ?thesis
    using kretprobe_severity [of ?rp demo_tenv "0x7000"] by (simp add: Let_def split: option.splits)
qed

text \<open>
  C40. Batches.  \<open>hook_register_kprobes\<close> reports, in order, each of the first 64 elements of a foreign
  batch that is watchlisted or has an anonymous handler; elements from the 65th on are never
  looked at, whatever they contain.
\<close>

theorem batch_reports_first_64_only:
  assumes "\<not> t_within_module E ip" "num \<noteq> 0"
  shows "batch_reports E ip (Some kps) num =
      map (\<lambda>k. the (batch_entry_report E num k))
        (filter (\<lambda>k. case k of None \<Rightarrow> False | Some k \<Rightarrow>
            photon_is_watchlisted (kp_symbol_name k) \<or> handler_is_anonymous E (kp_pre_handler k))
          (take (unat (min num 64)) kps)) \<and>
    batch_reports E ip (Some kps) num = batch_reports E ip (Some (take 64 kps)) num"
proof -
  have cut: "unat (min num 64) \<le> 64" by (simp add: min_def word_le_nat_alt)
  have "List.map_filter (batch_entry_report E num) xs =
      map (\<lambda>k. the (batch_entry_report E num k)) (filter (\<lambda>k. case k of None \<Rightarrow> False | Some k \<Rightarrow>
            photon_is_watchlisted (kp_symbol_name k) \<or> handler_is_anonymous E (kp_pre_handler k)) xs)" for xs
  proof -
    have "(\<lambda>k. batch_entry_report E num k \<noteq> None) = (\<lambda>k. case k of None \<Rightarrow> False | Some k \<Rightarrow>
            photon_is_watchlisted (kp_symbol_name k) \<or> handler_is_anonymous E (kp_pre_handler k))"
      by (rule HOL.ext) (auto simp: batch_entry_None split: option.splits)
    then show ?thesis by (simp add: List.map_filter_def comp_def)
  qed
  with assms cut show ?thesis by (simp add: batch_reports_def Let_def min_def)
qed

theorem batch_reports_first_64_only_witness:
  "batch_reports demo_tenv 0x7000 (Some [Some \<lparr>kp_symbol_name = Some ''filldir'', kp_address = 1, kp_pre_handler = 0\<rparr>, None]) 2 =
     [the (batch_entry_report demo_tenv 2 (Some \<lparr>kp_symbol_name = Some ''filldir'', kp_address = 1, kp_pre_handler = 0\<rparr>))]"
proof -
  have w: "photon_is_watchlisted (Some ''filldir'')" by (simp add: watchlisted_iff photon_watchlist_def cstr_def)
  have "\<not> t_within_module demo_tenv 0x7000" by (simp add: demo_tenv_def)
  from batch_reports_first_64_only [OF this, of 2] show ?thesis using w by (simp add: min_def)
qed

end
