(* ===== verification/Filter_Detectors.thy ===== *)
theory Filter_Detectors
  imports Probe_Detectors
begin

text \<open>
  The detectors that watch the ftrace API itself through kprobes: \<open>modules/ftrace_direct_detector.c\<close>,
  \<open>modules/bpf_hook_detector.c\<close>, \<open>modules/tcp_hiding_detector.c\<close> and \<open>modules/icmp_hook_detector.c\<close>.
  The register arguments that the handlers extract are arguments of the definitions.
\<close>

section \<open>ftrace\_direct\_detector.c\<close>

text \<open>
  \<open>emit_event\<close> fills a packed \<open>struct ftrace_hook_data\<close> on its stack.  \<open>sprint_symbol_no_offset\<close> writes a
  whole symbol name with its NUL, whatever the size of the member, so the payload is modelled as
  the 209 bytes of the struct, written at the offsets of its members.  A write past the struct has no
  defined result: \<open>None\<close>.
\<close>

definition put_at :: "nat \<Rightarrow> bytes \<Rightarrow> bytes \<Rightarrow> bytes option" where
  "put_at off src buf =
     (if off + length src \<le> length buf then Some (take off buf @ src @ drop (off + length src) buf) else None)"

definition sprint_symbol_no_offset :: "tenv \<Rightarrow> ulong \<Rightarrow> bytes" where
  "sprint_symbol_no_offset E addr = char_bytes (cstr (t_symbol E addr)) @ [0]"

definition strncpy_bytes :: "string \<Rightarrow> nat \<Rightarrow> bytes" where
  "strncpy_bytes src n = (let b = take n (char_bytes (cstr src)) in b @ zeros (n - length b))"

definition emit_payload ::
  "tenv \<Rightarrow> u8 \<Rightarrow> string option \<Rightarrow> ulong \<Rightarrow> ulong \<Rightarrow> string option \<Rightarrow> bytes option" where
  "emit_payload E hook_source target_sym target_addr new_addr filter_pattern = do {
     b \<leftarrow> put_at 208 [hook_source] (zeros 209);
     b \<leftarrow> put_at 64 (le_word 8 target_addr) b;
     b \<leftarrow> put_at 136 (le_word 8 new_addr) b;
     b \<leftarrow> (case target_sym of
            Some name \<Rightarrow> put_at 0 (strncpy_bytes name 63) b
          | None \<Rightarrow> if target_addr \<noteq> 0 then put_at 0 (sprint_symbol_no_offset E target_addr) b else Some b);
     b \<leftarrow> (if new_addr \<noteq> 0 then put_at 72 (sprint_symbol_no_offset E new_addr) b else Some b);
     (case filter_pattern of Some pat \<Rightarrow> put_at 144 (strncpy_bytes pat 63) b | None \<Rightarrow> Some b)
   }"

definition ftrace_emit_event ::
  "'t kenv \<Rightarrow> tenv \<Rightarrow> task \<Rightarrow> u8 \<Rightarrow> string option \<Rightarrow> ulong \<Rightarrow> ulong \<Rightarrow> string option \<Rightarrow>
   ('t, 'z) em_state_scheme \<Rightarrow> ('t, 'z) em_state_scheme option" where
  "ftrace_emit_event K E current hook_source target_sym target_addr new_addr filter_pattern s = do {
     payload \<leftarrow> emit_payload E hook_source target_sym target_addr new_addr filter_pattern;
     send_report K current \<lparr>rep_type = PHOTON_EVENT_FTRACE_HOOK, rep_detector = PHOTON_DETECTOR_FTRACE,
       rep_severity = PHOTON_SEV_CRITICAL, rep_payload = payload\<rparr> s
   }"

definition addr_is_anonymous :: "tenv \<Rightarrow> ulong \<Rightarrow> bool" where
  "addr_is_anonymous E addr = (if addr = 0 then False else take 2 (t_symbol E addr) = ''0x'')"

definition FTRACE_HOOK_SRC_SET_FILTER :: u8 where "FTRACE_HOOK_SRC_SET_FILTER = 0"
definition FTRACE_HOOK_SRC_SET_NOTRACE :: u8 where "FTRACE_HOOK_SRC_SET_NOTRACE = 1"
definition FTRACE_HOOK_SRC_MODIFY :: u8 where "FTRACE_HOOK_SRC_MODIFY = 2"

text \<open>The first argument is the \<open>func\<close> member of the caller's \<open>ftrace_ops\<close>; a null \<open>ops\<close> is \<open>None\<close>.\<close>

definition handle_set_filter_common ::
  "'t kenv \<Rightarrow> tenv \<Rightarrow> task \<Rightarrow> ulong option \<Rightarrow> string option \<Rightarrow> u8 \<Rightarrow>
   ('t, 'z) em_state_scheme \<Rightarrow> ('t, 'z) em_state_scheme option" where
  "handle_set_filter_common K E current ops buf hook_source s =
     (case buf of
        None \<Rightarrow> Some s
      | Some pat \<Rightarrow>
          let ops_func = (case ops of Some f \<Rightarrow> (if f \<noteq> 0 then f else 0) | None \<Rightarrow> 0)
          in if \<not> addr_is_anonymous E ops_func \<and> \<not> photon_is_watchlisted (Some pat) then Some s
             else ftrace_emit_event K E current hook_source None 0 ops_func (Some pat) s)"

definition handler_set_filter ::
  "'t kenv \<Rightarrow> tenv \<Rightarrow> task \<Rightarrow> ulong option \<Rightarrow> string option \<Rightarrow> ('t, 'z) em_state_scheme \<Rightarrow>
   ('t, 'z) em_state_scheme option" where
  "handler_set_filter K E current ops buf s =
     handle_set_filter_common K E current ops buf FTRACE_HOOK_SRC_SET_FILTER s"

definition handler_set_notrace ::
  "'t kenv \<Rightarrow> tenv \<Rightarrow> task \<Rightarrow> ulong option \<Rightarrow> string option \<Rightarrow> ('t, 'z) em_state_scheme \<Rightarrow>
   ('t, 'z) em_state_scheme option" where
  "handler_set_notrace K E current ops buf s =
     handle_set_filter_common K E current ops buf FTRACE_HOOK_SRC_SET_NOTRACE s"

definition handler_modify_direct ::
  "'t kenv \<Rightarrow> tenv \<Rightarrow> task \<Rightarrow> ulong \<Rightarrow> ulong \<Rightarrow> ('t, 'z) em_state_scheme \<Rightarrow> ('t, 'z) em_state_scheme option" where
  "handler_modify_direct K E current ip new_addr s =
     (let ip_sym = t_symbol E ip
      in if \<not> addr_is_anonymous E new_addr \<and> \<not> photon_is_watchlisted (Some ip_sym) then Some s
         else ftrace_emit_event K E current FTRACE_HOOK_SRC_MODIFY (Some ip_sym) ip new_addr None s)"

text \<open>One of the three blocks of \<open>ftrace_direct_detector_init\<close>: clear the probe, arm it, count it.\<close>

definition arm_probe :: "tenv \<Rightarrow> hook \<Rightarrow> tstate \<times> nat \<Rightarrow> tstate \<times> nat" where
  "arm_probe E h = (\<lambda>(s, installed).
     case register_kprobe E h (s\<lparr>kp_addr := (kp_addr s)(h := 0)\<rparr>) of
       (Inl _, s) \<Rightarrow> (s, installed)
     | (Inr _, s) \<Rightarrow> (s, Suc installed))"

definition ftrace_direct_detector_init :: "tenv \<Rightarrow> tstate \<Rightarrow> unit kresult \<times> tstate" where
  "ftrace_direct_detector_init E s =
     (let (s, installed) = arm_probe E KP_MODIFY_DIRECT (arm_probe E KP_SET_NOTRACE (arm_probe E KP_SET_FILTER (s, 0)))
      in if installed = 0 then (Inl ENODEV, s) else (ok, s))"

definition disarm_probe :: "hook \<Rightarrow> tstate \<Rightarrow> tstate" where
  "disarm_probe h s = (if kp_addr s h \<noteq> 0 then unregister_kprobe h s else s)"

definition ftrace_direct_detector_exit :: "tstate \<Rightarrow> tstate" where
  "ftrace_direct_detector_exit s =
     disarm_probe KP_SET_FILTER (disarm_probe KP_SET_NOTRACE (disarm_probe KP_MODIFY_DIRECT s))"

section \<open>bpf\_hook\_detector.c\<close>

definition bpf_watchlist :: "string list" where
  "bpf_watchlist =
     [''bpf_iter_run_prog'', ''bpf_ringbuf_output'', ''__x64_sys_bpf'', ''bpf_check'', ''bpf_prog_load'',
      ''security_bpf'', ''security_bpf_map'', ''security_bpf_prog'', ''bpf_map_get_info_by_fd'',
      ''bpf_prog_get_info_by_fd'', ''bpf_trampoline_link_prog'', ''bpf_tracing_prog_attach'',
      ''perf_event_attach_bpf_prog'']"

text \<open>What a handler that only writes to the kernel log says: nothing, a note, or an alert.\<close>

datatype verdict = Silent | Note | Alert

definition bpf_handler_pre :: "tenv \<Rightarrow> tstate \<Rightarrow> ulong \<Rightarrow> ulong \<Rightarrow> verdict" where
  "bpf_handler_pre E s target_ip remove =
     (if bpf_self_hooking s then Silent
      else if remove \<noteq> 0 then Silent
      else let buf = t_symbol E target_ip
           in if name_in_table bpf_watchlist buf then Alert else Note)"

definition bpf_hook_detector_init :: "tenv \<Rightarrow> tstate \<Rightarrow> unit kresult \<times> tstate" where
  "bpf_hook_detector_init E s =
     (let s = s\<lparr>bpf_self_hooking := True\<rparr>
      in case register_kprobe E KP_BPF s of
           (Inl e, s) \<Rightarrow> (Inl e, s\<lparr>bpf_self_hooking := False\<rparr>)
         | (Inr _, s) \<Rightarrow> (ok, s\<lparr>bpf_self_hooking := False\<rparr>))"

definition bpf_hook_detector_exit :: "tstate \<Rightarrow> tstate" where
  "bpf_hook_detector_exit s =
     (unregister_kprobe KP_BPF (s\<lparr>bpf_self_hooking := True\<rparr>))\<lparr>bpf_self_hooking := False\<rparr>"

section \<open>tcp\_hiding\_detector.c and icmp\_hook\_detector.c\<close>

text \<open>\<open>lookup_name\<close>, the same in both files: 0 when the symbol cannot be probed.\<close>

definition lookup_name :: "tenv \<Rightarrow> tstate \<Rightarrow> ulong \<times> tstate" where
  "lookup_name E s = (case probe_symbol E s of (Inl _, s) \<Rightarrow> (0, s) | (Inr addr, s) \<Rightarrow> (addr, s))"

fun resolve_targets :: "tenv \<Rightarrow> string list \<Rightarrow> tstate \<Rightarrow> ulong list \<times> tstate" where
  "resolve_targets E [] s = ([], s)"
| "resolve_targets E (name # names) s =
     (let (addr, s) = lookup_name E s; (addrs, s) = resolve_targets E names s in (addr # addrs, s))"

text \<open>The loop of the handlers: the first target whose resolved address is the filtered one.\<close>

fun find_target :: "string list \<Rightarrow> ulong list \<Rightarrow> ulong \<Rightarrow> (string \<times> ulong) option" where
  "find_target (name # names) (addr # addrs) target_ip =
     (if addr \<noteq> 0 \<and> target_ip = addr then Some (name, addr) else find_target names addrs target_ip)"
| "find_target _ _ _ = None"

definition tcp_hiding_names :: "string list" where
  "tcp_hiding_names = [''tcp4_seq_show'', ''tcp6_seq_show'', ''udp4_seq_show'', ''udp6_seq_show'', ''tpacket_rcv'']"

definition icmp_hook_names :: "string list" where
  "icmp_hook_names = [''icmp_rcv'']"

definition tcp_handler_pre :: "tstate \<Rightarrow> ulong \<Rightarrow> ulong \<Rightarrow> (string \<times> ulong) option" where
  "tcp_handler_pre s target_ip remove =
     (if tcp_self_hooking s then None
      else if remove \<noteq> 0 then None
      else find_target tcp_hiding_names (tcp_hiding_addrs s) target_ip)"

definition icmp_handler_pre :: "tstate \<Rightarrow> ulong \<Rightarrow> ulong \<Rightarrow> (string \<times> ulong) option" where
  "icmp_handler_pre s target_ip remove =
     (if icmp_self_hooking s then None
      else if remove \<noteq> 0 then None
      else find_target icmp_hook_names (icmp_hook_addrs s) target_ip)"

definition tcp_hiding_detector_init :: "tenv \<Rightarrow> tstate \<Rightarrow> unit kresult \<times> tstate" where
  "tcp_hiding_detector_init E s =
     (let (addrs, s) = resolve_targets E tcp_hiding_names s;
          s = s\<lparr>tcp_hiding_addrs := addrs\<rparr>;
          resolved = length (filter (\<lambda>a. a \<noteq> 0) addrs)
      in if resolved = 0 then (Inl ENOENT, s)
         else
           let s = s\<lparr>tcp_self_hooking := True\<rparr>;
               (ret, s) = register_kprobe E KP_TCP s;
               s = s\<lparr>tcp_self_hooking := False\<rparr>
           in (ret, s))"

definition tcp_hiding_detector_exit :: "tstate \<Rightarrow> tstate" where
  "tcp_hiding_detector_exit s =
     (unregister_kprobe KP_TCP (s\<lparr>tcp_self_hooking := True\<rparr>))\<lparr>tcp_self_hooking := False\<rparr>"

definition icmp_hook_detector_init :: "tenv \<Rightarrow> tstate \<Rightarrow> unit kresult \<times> tstate" where
  "icmp_hook_detector_init E s =
     (let (addrs, s) = resolve_targets E icmp_hook_names s;
          s = s\<lparr>icmp_hook_addrs := addrs\<rparr>;
          resolved = length (filter (\<lambda>a. a \<noteq> 0) addrs)
      in if resolved = 0 then (Inl ENOENT, s)
         else
           let s = s\<lparr>icmp_self_hooking := True\<rparr>;
               (ret, s) = register_kprobe E KP_ICMP s;
               s = s\<lparr>icmp_self_hooking := False\<rparr>
           in (ret, s))"

definition icmp_hook_detector_exit :: "tstate \<Rightarrow> tstate" where
  "icmp_hook_detector_exit s =
     (unregister_kprobe KP_ICMP (s\<lparr>icmp_self_hooking := True\<rparr>))\<lparr>icmp_self_hooking := False\<rparr>"

section \<open>The detectors keep their contract\<close>

lemma resolve_probe_cases:
  obtains (unresolved) e where "resolve_probe E s = (Inl e, s\<lparr>tick := Suc (tick s)\<rparr>)"
  | (resolved) a where "resolve_probe E s = (Inr a, s\<lparr>tick := Suc (tick s)\<rparr>)" "a \<noteq> 0"
proof (cases "t_register_kprobe E (tick s)")
  case (Inl e)
  then show thesis using unresolved by (simp add: resolve_probe_def kcall_def)
next
  case (Inr a)
  then show thesis using unresolved resolved by (cases "a = 0") (simp_all add: resolve_probe_def kcall_def)
qed

lemma lookup_name_state: "snd (lookup_name E s) = s\<lparr>tick := Suc (tick s)\<rparr>"
  by (rule resolve_probe_cases [of E s]) (simp_all add: lookup_name_def probe_symbol_def)

lemma resolve_targets_Cons:
  "resolve_targets E (name # names) s =
     (let s' = s\<lparr>tick := Suc (tick s)\<rparr>
      in (fst (lookup_name E s) # fst (resolve_targets E names s'), snd (resolve_targets E names s')))"
  by (simp add: Let_def split_beta lookup_name_state)

declare resolve_targets.simps(2) [simp del]

lemma resolve_targets_state: "snd (resolve_targets E names s) = s\<lparr>tick := tick s + length names\<rparr>"
  by (induction names arbitrary: s) (simp_all add: resolve_targets_Cons Let_def)

lemma length_resolve_targets: "length (fst (resolve_targets E names s)) = length names"
  by (induction names arbitrary: s) (simp_all add: resolve_targets_Cons Let_def)

lemma resolve_targets_pair:
  "resolve_targets E names s = (fst (resolve_targets E names s), s\<lparr>tick := tick s + length names\<rparr>)"
  by (rule prod_eqI) (simp_all add: resolve_targets_state)

lemma register_kprobe_cases:
  obtains (unarmed) e where "register_kprobe E h s = (Inl e, s\<lparr>tick := Suc (tick s)\<rparr>)"
  | (armed) a where "register_kprobe E h s =
      (ok, s\<lparr>tick := Suc (tick s), live := insert h (live s), kp_addr := (kp_addr s)(h := a)\<rparr>)" "a \<noteq> 0"
  by (rule resolve_probe_cases [of E s]) (auto simp: register_kprobe_def intro: that)

text \<open>
  The detectors of one kprobe: the init resolves what it needs, arms the probe between two writes
  of its flag, and reports what arming returned.
\<close>

interpretation bpf_hook: detector coherent "{KP_BPF}" "bpf_hook_detector_init E" bpf_hook_detector_exit for E
  by unfold_locales
    (auto simp: bpf_hook_detector_init_def bpf_hook_detector_exit_def kernel_calls Let_def coherent_def
      intro!: removable_kp_addr split: sum.splits prod.splits if_splits)

lemma tcp_init_split:
  "tcp_hiding_detector_init E s =
     (let addrs = fst (resolve_targets E tcp_hiding_names s);
          s1 = s\<lparr>tick := tick s + length tcp_hiding_names, tcp_hiding_addrs := addrs\<rparr>
      in if \<forall>a \<in> set addrs. a = 0 then (Inl ENOENT, s1)
         else apsnd (\<lambda>s. s\<lparr>tcp_self_hooking := False\<rparr>) (register_kprobe E KP_TCP (s1\<lparr>tcp_self_hooking := True\<rparr>)))"
  by (simp add: tcp_hiding_detector_init_def resolve_targets_state split_beta Let_def filter_empty_conv
      apsnd_def map_prod_def)

lemma icmp_init_split:
  "icmp_hook_detector_init E s =
     (let addrs = fst (resolve_targets E icmp_hook_names s);
          s1 = s\<lparr>tick := tick s + length icmp_hook_names, icmp_hook_addrs := addrs\<rparr>
      in if \<forall>a \<in> set addrs. a = 0 then (Inl ENOENT, s1)
         else apsnd (\<lambda>s. s\<lparr>icmp_self_hooking := False\<rparr>) (register_kprobe E KP_ICMP (s1\<lparr>icmp_self_hooking := True\<rparr>)))"
  by (simp add: icmp_hook_detector_init_def resolve_targets_state split_beta Let_def filter_empty_conv
      apsnd_def map_prod_def)

interpretation tcp_hiding: detector coherent "{KP_TCP}" "tcp_hiding_detector_init E" tcp_hiding_detector_exit for E
  by unfold_locales
    (auto simp: tcp_init_split tcp_hiding_detector_exit_def kernel_calls Let_def
      coherent_def intro!: removable_kp_addr split: sum.splits prod.splits if_splits)

interpretation icmp_hook: detector coherent "{KP_ICMP}" "icmp_hook_detector_init E" icmp_hook_detector_exit for E
  by unfold_locales
    (auto simp: icmp_init_split icmp_hook_detector_exit_def kernel_calls Let_def
      coherent_def intro!: removable_kp_addr split: sum.splits prod.splits if_splits)

text \<open>The three probes of \<open>ftrace_direct\<close>: arming one adds at most that probe, with a non-zero address.\<close>

lemma removable_probe:
  assumes "h \<in> {KP_SET_FILTER, KP_SET_NOTRACE, KP_MODIFY_DIRECT}" "f h \<noteq> 0"
  shows "removable (s\<lparr>kp_addr := f\<rparr>) h"
  using assms by auto

lemma removable_probe_other:
  "removable s x \<Longrightarrow> x \<noteq> h \<Longrightarrow> removable (s\<lparr>kp_addr := (kp_addr s)(h := a)\<rparr>) x"
  by (rule removable_kp_addr) auto

lemma arm_probe_step:
  assumes "coherent s" "h \<notin> live s" "h \<in> {KP_SET_FILTER, KP_SET_NOTRACE, KP_MODIFY_DIRECT}"
    and arm: "arm_probe E h (s, k) = (s', k')"
  shows "coherent s' \<and> (k' = k \<and> live s' = live s \<or> k' = Suc k \<and> live s' = insert h (live s))"
proof -
  let ?s = "s\<lparr>kp_addr := (kp_addr s)(h := 0)\<rparr>"
  have c: "removable ?s x" if "x \<in> live s" for x
  proof (rule removable_probe_other)
    show "removable s x" using assms(1) that by (simp add: coherent_def)
    show "x \<noteq> h" using assms(2) that by blast
  qed
  show ?thesis
  proof (cases rule: register_kprobe_cases [of E h ?s])
    case (unarmed e)
    with arm have "s' = ?s\<lparr>tick := Suc (tick s)\<rparr>" "k' = k" by (simp_all add: arm_probe_def)
    with c show ?thesis by (simp add: coherent_def)
  next
    case (armed a)
    let ?t = "?s\<lparr>tick := Suc (tick s), live := insert h (live s)\<rparr>"
    from armed arm have s': "s' = ?t\<lparr>kp_addr := (kp_addr ?t)(h := a)\<rparr>" "k' = Suc k" by (simp_all add: arm_probe_def)
    have "removable s' x" if "x \<in> live s" for x unfolding s'(1)
    proof (rule removable_probe_other)
      show "removable ?t x" using c [OF that] by simp
      show "x \<noteq> h" using assms(2) that by blast
    qed
    moreover have "removable s' h" unfolding s'(1) by (rule removable_probe [OF assms(3)]) (simp add: armed(2))
    moreover have "live s' = insert h (live s)" by (simp add: s'(1))
    ultimately show ?thesis using s'(2) by (simp add: coherent_def)
  qed
qed

lemma ftrace_direct_init_cases:
  assumes "coherent s" "live s \<inter> {KP_SET_FILTER, KP_SET_NOTRACE, KP_MODIFY_DIRECT} = {}"
  shows "coherent (snd (ftrace_direct_detector_init E s)) \<and>
    (fst (ftrace_direct_detector_init E s) = Inl ENODEV \<and> live (snd (ftrace_direct_detector_init E s)) = live s \<or>
     fst (ftrace_direct_detector_init E s) = ok \<and> live s \<subset> live (snd (ftrace_direct_detector_init E s)) \<and>
     live (snd (ftrace_direct_detector_init E s)) \<subseteq> live s \<union> {KP_SET_FILTER, KP_SET_NOTRACE, KP_MODIFY_DIRECT})"
proof -
  obtain s1 k1 where 1: "arm_probe E KP_SET_FILTER (s, 0) = (s1, k1)" by fastforce
  obtain s2 k2 where 2: "arm_probe E KP_SET_NOTRACE (s1, k1) = (s2, k2)" by fastforce
  obtain s3 k3 where 3: "arm_probe E KP_MODIFY_DIRECT (s2, k2) = (s3, k3)" by fastforce
  note a1 = arm_probe_step [OF _ _ _ 1] and a2 = arm_probe_step [OF _ _ _ 2] and a3 = arm_probe_step [OF _ _ _ 3]
  have l1: "KP_SET_NOTRACE \<notin> live s1" "KP_MODIFY_DIRECT \<notin> live s1" "coherent s1" using a1 assms by auto
  then have l2: "KP_MODIFY_DIRECT \<notin> live s2" "coherent s2" using a2 by auto
  have init: "ftrace_direct_detector_init E s = (if k3 = 0 then (Inl ENODEV, s3) else (ok, s3))"
    by (simp add: ftrace_direct_detector_init_def 1 2 3)
  show ?thesis unfolding init using a1 a2 a3 l1 l2 assms by (cases "k3 = 0") auto
qed

interpretation ftrace_direct: detector coherent "{KP_SET_FILTER, KP_SET_NOTRACE, KP_MODIFY_DIRECT}"
  "ftrace_direct_detector_init E" ftrace_direct_detector_exit for E
proof (unfold_locales, goal_cases)
  case (1 s)
  then show ?case using ftrace_direct_init_cases by blast
next
  case (2 s e)
  then show ?case using ftrace_direct_init_cases [of s E] by auto
next
  case (3 s)
  then show ?case using ftrace_direct_init_cases [of s E] by auto
next
  case (4 s)
  then show ?case by (auto simp: ftrace_direct_detector_exit_def disarm_probe_def unregister_kprobe_def coherent_def)
next
  case (5 s)
  then show ?case
    by (auto simp: ftrace_direct_detector_exit_def disarm_probe_def unregister_kprobe_def coherent_def)
qed

section \<open>The payload of an ftrace event\<close>

lemma put_at_ok: "off + length src \<le> length buf \<Longrightarrow>
  put_at off src buf = Some (take off buf @ src @ drop (off + length src) buf)"
  by (simp add: put_at_def)

lemma put_at_field:
  "length pre = off \<Longrightarrow> length old = length src \<Longrightarrow> put_at off src (pre @ old @ post) = Some (pre @ src @ post)"
  by (simp add: put_at_def)

lemma length_put_at: "put_at off src buf = Some b \<Longrightarrow> length b = length buf"
  by (auto simp: put_at_def split: if_splits)

lemma nth_put_at:
  "put_at off src buf = Some b \<Longrightarrow> i < length buf \<Longrightarrow>
     b ! i = (if off \<le> i \<and> i < off + length src then src ! (i - off) else buf ! i)"
  by (auto simp: put_at_def nth_append min_def split: if_splits)

lemma length_strncpy_bytes [simp]: "length (strncpy_bytes src n) = n"
  by (simp add: strncpy_bytes_def Let_def)

lemma strncpy_bytes_field: "strncpy_bytes src 63 @ [0] = strncpy_field 64 src"
proof -
  have "zeros (63 - length b) @ [0] = zeros (64 - length b)" if "length b \<le> 63" for b :: bytes
    using that by (simp add: zeros_def replicate_append_same Suc_diff_le flip: replicate_Suc)
  from this [of "take 63 (char_bytes (cstr src))"] show ?thesis
    by (simp add: strncpy_bytes_def strncpy_field_def Let_def)
qed

lemma zeros_add: "zeros (m + n) = zeros m @ zeros n"
  by (simp add: zeros_def replicate_add)

lemma put_at_prefix:
  "length src \<le> length f \<Longrightarrow> put_at 0 src (f @ rest) = Some (src @ drop (length src) f @ rest)"
  by (simp add: put_at_def)

lemma put_at_skip:
  "length a \<le> off \<Longrightarrow> put_at off src (a @ rest) = map_option ((@) a) (put_at (off - length a) src rest)"
  by (auto simp: put_at_def)

lemma drop_zeros: "drop k (zeros n) = zeros (n - k)"
  by (simp add: zeros_def)

lemma symbol_field: "length (cstr (t_symbol E a)) < 64 \<Longrightarrow>
  sprint_symbol_no_offset E a @ zeros (64 - length (sprint_symbol_no_offset E a)) = strncpy_field 64 (t_symbol E a)"
  by (simp add: sprint_symbol_no_offset_def strncpy_field_def Let_def zeros_def Suc_diff_Suc flip: replicate_Suc)

lemma pattern_field: "strncpy_bytes p 63 @ zeros 1 @ rest = strncpy_field 64 p @ rest"
  using strncpy_bytes_field [of p] by (simp add: zeros_def flip: append_assoc)

lemma payload_fields: "zeros 209 = zeros 64 @ zeros 8 @ zeros 64 @ zeros 8 @ zeros 64 @ zeros 1"
  by (simp only: zeros_add [symmetric]) simp

lemma emit_payload_set_filter:
  assumes "length (cstr (t_symbol E f)) < 64"
  shows "emit_payload E src None 0 f (Some pat) =
    Some (ftrace_hook_bytes \<lparr>fh_target_symbol = zeros 64, fh_target_addr = 0,
      fh_new_addr_symbol = (if f = 0 then zeros 64 else strncpy_field 64 (t_symbol E f)), fh_new_addr = f,
      fh_filter_pattern = strncpy_field 64 pat, fh_hook_source = src\<rparr>)"
proof -
  have len: "length (sprint_symbol_no_offset E f) \<le> 64"
    using assms by (simp add: sprint_symbol_no_offset_def)
  have b1: "put_at 208 [src] (zeros 209) = Some (zeros 64 @ zeros 8 @ zeros 64 @ zeros 8 @ zeros 64 @ [src])"
    unfolding payload_fields by (simp add: put_at_skip) (simp add: put_at_def)
  have b2: "put_at 64 (le_word 8 a) (x @ zeros 8 @ rest) = Some (x @ le_word 8 a @ rest)"
    if "length x = 64" for a :: ulong and x rest
    using that by (simp add: put_at_skip put_at_prefix)
  have b3: "put_at 136 (le_word 8 a) (x @ le_word 8 c @ y @ zeros 8 @ rest) = Some (x @ le_word 8 c @ y @ le_word 8 a @ rest)"
    if "length x = 64" "length y = 64" for a c :: ulong and x y rest
    using that by (simp add: put_at_skip put_at_prefix)
  have b4: "put_at 72 (sprint_symbol_no_offset E f) (x @ le_word 8 c @ zeros 64 @ rest) =
      Some (x @ le_word 8 c @ strncpy_field 64 (t_symbol E f) @ rest)" if "length x = 64" for c :: ulong and x rest
    using that len symbol_field [OF assms] by (simp add: put_at_skip put_at_prefix drop_zeros)
  have b5: "put_at 144 (strncpy_bytes pat 63) (x @ le_word 8 c @ y @ le_word 8 d @ zeros 64 @ rest) =
      Some (x @ le_word 8 c @ y @ le_word 8 d @ strncpy_field 64 pat @ rest)"
    if "length x = 64" "length y = 64" for c d :: ulong and x y rest
    using that pattern_field by (simp add: put_at_skip put_at_prefix drop_zeros)
  show ?thesis
    by (simp add: emit_payload_def b1 b2 b3 b4 b5 ftrace_hook_bytes_def)
qed

text \<open>The payload for a direct call: the name of the patched function comes from the caller's buffer.\<close>

lemma emit_payload_length: "emit_payload E src tsym taddr f pat = Some b \<Longrightarrow> length b = 209"
  by (auto simp: emit_payload_def bind_eq_Some_conv split: option.splits if_splits dest!: length_put_at)

lemma emit_payload_total:
  assumes "length (cstr (t_symbol E f)) < 137" "length (cstr (t_symbol E taddr)) < 209"
  shows "\<exists>b. emit_payload E src tsym taddr f pat = Some b"
proof -
  have ok: "\<exists>b'. put_at off x b = Some b' \<and> length b' = 209" if "length b = 209" "off + length x \<le> 209" for off x b
    using that by (auto simp: put_at_def)
  obtain b1 where b1: "put_at 208 [src] (zeros 209) = Some b1" "length b1 = 209" using ok [of "zeros 209" 208 "[src]"] by auto
  obtain b2 where b2: "put_at 64 (le_word 8 taddr) b1 = Some b2" "length b2 = 209" using ok [of b1 64 "le_word 8 taddr"] b1 by auto
  obtain b3 where b3: "put_at 136 (le_word 8 f) b2 = Some b3" "length b3 = 209" using ok [of b2 136 "le_word 8 f"] b2 by auto
  have "\<exists>b4. (case tsym of Some name \<Rightarrow> put_at 0 (strncpy_bytes name 63) b3
      | None \<Rightarrow> if taddr \<noteq> 0 then put_at 0 (sprint_symbol_no_offset E taddr) b3 else Some b3) = Some b4 \<and> length b4 = 209"
    using b3 ok [of b3 0] assms(2) by (auto simp: sprint_symbol_no_offset_def split: option.split)
  then obtain b4 where b4: "(case tsym of Some name \<Rightarrow> put_at 0 (strncpy_bytes name 63) b3
      | None \<Rightarrow> if taddr \<noteq> 0 then put_at 0 (sprint_symbol_no_offset E taddr) b3 else Some b3) = Some b4" "length b4 = 209" by blast
  have "\<exists>b5. (if f \<noteq> 0 then put_at 72 (sprint_symbol_no_offset E f) b4 else Some b4) = Some b5 \<and> length b5 = 209"
    using b4 ok [of b4 72] assms(1) by (auto simp: sprint_symbol_no_offset_def)
  then obtain b5 where b5: "(if f \<noteq> 0 then put_at 72 (sprint_symbol_no_offset E f) b4 else Some b4) = Some b5" "length b5 = 209" by blast
  have "\<exists>b6. (case pat of Some pat \<Rightarrow> put_at 144 (strncpy_bytes pat 63) b5 | None \<Rightarrow> Some b5) = Some b6"
    using b5(2) by (simp add: put_at_def split: option.split)
  then show ?thesis unfolding emit_payload_def b1(1) b2(1) b3(1) bind.bind_lunit b4(1) b5(1) .
qed

lemma ftrace_emit_returns:
  assumes "env_ok K has_key seal unseal n" "module_inv K has_key n (s, h)"
    and "length (cstr (t_symbol E f)) < 137" "length (cstr (t_symbol E taddr)) < 209"
  shows "\<exists>s'. ftrace_emit_event K E current src tsym taddr f pat s = Some s' \<and> module_inv K has_key n (s', h) \<and>
    photon_get_sequence s' = photon_get_sequence s + 1"
proof -
  obtain b where b: "emit_payload E src tsym taddr f pat = Some b"
    using emit_payload_total [OF assms(3,4)] by blast
  then have "report_fits \<lparr>rep_type = PHOTON_EVENT_FTRACE_HOOK, rep_detector = PHOTON_DETECTOR_FTRACE,
       rep_severity = PHOTON_SEV_CRITICAL, rep_payload = b\<rparr>" using emit_payload_length by (simp add: report_fits_def)
  from send_report_returns [OF assms(1,2) this] b show ?thesis by (simp add: ftrace_emit_event_def)
qed

section \<open>Properties\<close>

text \<open>
  C35. The payload of an ftrace event and the length of symbol names.  When the callback's name fits the
  64-byte member (with its NUL), the event carries exactly the documented struct.  A longer name
  is written past \<open>new_addr_symbol\<close>: from 64 characters on it overwrites the first byte of
  \<open>new_addr\<close>, and from 137 on it leaves the struct.
\<close>

theorem ftrace_event_symbol_bounds:
  fixes E :: tenv and f :: ulong
  assumes "f \<noteq> 0"
  defines "nm \<equiv> takeWhile (\<lambda>c. c \<noteq> CHR 0x00) (t_symbol E f)"
  shows "(length nm < 64 \<longrightarrow> emit_payload E src None 0 f (Some pat) =
      Some (ftrace_hook_bytes \<lparr>fh_target_symbol = zeros 64, fh_target_addr = 0,
        fh_new_addr_symbol = map of_char nm @ zeros (64 - length nm), fh_new_addr = f,
        fh_filter_pattern = strncpy_field 64 pat, fh_hook_source = src\<rparr>)) \<and>
    (64 \<le> length nm \<and> length nm \<le> 136 \<longrightarrow> (\<exists>b. emit_payload E src None 0 f (Some pat) = Some b \<and> length b = 209 \<and>
        b ! 136 = (map of_char nm @ [0]) ! 64)) \<and>
    (137 \<le> length nm \<longrightarrow> emit_payload E src None 0 f (Some pat) = None)"
proof (intro conjI impI)
  have nm: "cstr (t_symbol E f) = nm" by (simp add: nm_def cstr_def)
  show "emit_payload E src None 0 f (Some pat) =
      Some (ftrace_hook_bytes \<lparr>fh_target_symbol = zeros 64, fh_target_addr = 0,
        fh_new_addr_symbol = map of_char nm @ zeros (64 - length nm), fh_new_addr = f,
        fh_filter_pattern = strncpy_field 64 pat, fh_hook_source = src\<rparr>)" if "length nm < 64"
    using emit_payload_set_filter [of E f src pat] that assms(1)
    by (simp add: nm strncpy_field_def char_bytes_def)
  obtain b1 where b1: "do { b \<leftarrow> put_at 208 [src] (zeros 209); b \<leftarrow> put_at 64 (le_word 8 (0 :: ulong)) b; put_at 136 (le_word 8 f) b } = Some b1"
    "length b1 = 209" by (simp add: put_at_def)
  have emit: "emit_payload E src None 0 f (Some pat) =
      do { b \<leftarrow> put_at 72 (char_bytes nm @ [0]) b1; put_at 144 (strncpy_bytes pat 63) b }"
    using b1(1) assms(1) unfolding emit_payload_def sprint_symbol_no_offset_def nm
    by (auto simp: bind_eq_Some_conv)
  show "emit_payload E src None 0 f (Some pat) = None" if "137 \<le> length nm"
    using that b1(2) by (simp add: emit put_at_def)
  assume len: "64 \<le> length nm \<and> length nm \<le> 136"
  then obtain b2 where b2: "put_at 72 (char_bytes nm @ [0]) b1 = Some b2" using b1(2) by (simp add: put_at_def)
  have l2: "length b2 = 209" using length_put_at [OF b2] b1(2) by simp
  then obtain b3 where b3: "put_at 144 (strncpy_bytes pat 63) b2 = Some b3" by (simp add: put_at_def)
  have "b3 ! 136 = b2 ! 136" using nth_put_at [OF b3, of 136] l2 by simp
  also have "\<dots> = (map of_char nm @ [0]) ! 64"
    using nth_put_at [OF b2, of 136] b1(2) len by (simp add: char_bytes_def)
  finally show "\<exists>b. emit_payload E src None 0 f (Some pat) = Some b \<and> length b = 209 \<and>
        b ! 136 = (map of_char nm @ [0]) ! 64"
    using length_put_at [OF b3] l2 by (simp add: emit b2 b3)
qed

theorem ftrace_event_symbol_bounds_witness:
  "emit_payload (demo_tenv\<lparr>t_symbol := (\<lambda>_. replicate 137 CHR ''a'')\<rparr>) 0 None 0 0x1000 (Some ''filldir'') = None"
  using ftrace_event_symbol_bounds [of "0x1000" "demo_tenv\<lparr>t_symbol := (\<lambda>_. replicate 137 CHR ''a'')\<rparr>" 0 "''filldir''"]
  by (simp add: takeWhile_replicate)



text \<open>Which target the handlers of \<open>tcp_hiding\<close> and \<open>icmp_hook\<close> find.\<close>

lemma find_target_iff:
  "length names = length addrs \<Longrightarrow> find_target names addrs ip = Some (name, a) \<longleftrightarrow>
     (\<exists>i < length names. name = names ! i \<and> a = ip \<and> addrs ! i = ip \<and> ip \<noteq> 0 \<and> (\<forall>j < i. addrs ! j \<noteq> ip))"
proof (induction names addrs ip rule: find_target.induct)
  case (1 x names y addrs ip)
  show ?case
  proof (cases "y \<noteq> 0 \<and> ip = y")
    case True
    then show ?thesis by (auto simp: Ex_less_Suc2 All_less_Suc2)
  next
    case False
    with 1 show ?thesis by (auto simp: Ex_less_Suc2 All_less_Suc2)
  qed
qed simp_all

lemma nth_resolve_targets:
  "i < length names \<Longrightarrow> fst (resolve_targets E names s) ! i = fst (lookup_name E (s\<lparr>tick := tick s + i\<rparr>))"
proof (induction names arbitrary: s i)
  case (Cons name names)
  then show ?case by (cases i) (simp_all add: resolve_targets_Cons Let_def)
qed simp

lemma register_kprobe_tcp:
  "tcp_hiding_addrs (snd (register_kprobe E h s)) = tcp_hiding_addrs s"
  "icmp_hook_addrs (snd (register_kprobe E h s)) = icmp_hook_addrs s"
  by (rule register_kprobe_cases [of E h s]; simp)+


text \<open>An unloaded module: no hook, every static variable zero.\<close>

definition tstate_initial :: tstate where
  "tstate_initial = \<lparr>tick = 0, live = {}, filters = (\<lambda>_. {}), g_kallsyms_addr = 0, tcp_hiding_addrs = replicate 5 0,
     icmp_hook_addrs = [0], bpf_self_hooking = False, tcp_self_hooking = False, icmp_self_hooking = False,
     kp_addr = (\<lambda>_. 0), photon_kallsyms_lookup = 0, kthread_hook_active = False, tainted_mask_ptr = 0, taint_baseline = 0,
     detector_exiting = False, vprintk_hook_active = False, umh_hook_active = False, ops_func_set = (\<lambda>_. False),
     hooks_installed = 0, dir_hooks_installed = 0,
     g_audit = \<lparr>audit_unicast_calls = 0, audit_log_calls = 0, last_stats_print = 0\<rparr>\<rparr>"

lemma initial_coherent: "coherent tstate_initial" "live tstate_initial = {}"
  by (simp_all add: tstate_initial_def coherent_def)


end
