(* ===== verification/Taint_Detector.thy ===== *)
theory Taint_Detector
  imports Filter_Detectors
begin

text \<open>
  \<open>modules/reset_tainted_detector.c\<close>: the hook on \<open>kthread_create_on_node\<close>, the periodic check of
  \<open>tainted_mask\<close> and the periodic scan of the task list.  A scheduled \<open>delayed_work\<close> is a live hook; running
  it takes it off the queue, and its function may schedule it again.
\<close>

section \<open>Operations\<close>

definition suspicious_names :: "string list" where
  "suspicious_names = [''zer0t'']"

definition resolve_kallsyms_lookup_name :: "tenv \<Rightarrow> tstate \<Rightarrow> unit kresult \<times> tstate" where
  "resolve_kallsyms_lookup_name E s =
     (case probe_symbol E s of
        (Inl _, s) \<Rightarrow> (Inl ENOENT, s)
      | (Inr addr, s) \<Rightarrow> (ok, s\<lparr>photon_kallsyms_lookup := addr\<rparr>))"

definition hook_kthread_create :: "string option \<Rightarrow> verdict" where
  "hook_kthread_create namefmt =
     (case namefmt of
        None \<Rightarrow> Silent
      | Some n \<Rightarrow> if name_in_table suspicious_names n then Alert else Silent)"

definition setup_kthread_hook :: "tenv \<Rightarrow> tstate \<Rightarrow> unit kresult \<times> tstate" where
  "setup_kthread_hook E s =
     (case install_ops E OPS_KTHREAD (t_exported E ''kthread_create_on_node'') s of
        (Inl e, s) \<Rightarrow> (Inl e, s)
      | (Inr _, s) \<Rightarrow> (ok, s\<lparr>kthread_hook_active := True\<rparr>))"

definition teardown_kthread_hook :: "tenv \<Rightarrow> tstate \<Rightarrow> tstate" where
  "teardown_kthread_hook E s =
     (if \<not> kthread_hook_active s then s
      else (ftrace_filter_remove OPS_KTHREAD (t_exported E ''kthread_create_on_node'')
              (unregister_ftrace_function OPS_KTHREAD s))\<lparr>kthread_hook_active := False\<rparr>)"

definition schedule_work :: "hook \<Rightarrow> tstate \<Rightarrow> tstate" where
  "schedule_work w s = s\<lparr>live := insert w (live s)\<rparr>"

definition cancel_delayed_work_sync :: "hook \<Rightarrow> tstate \<Rightarrow> tstate" where
  "cancel_delayed_work_sync w s = s\<lparr>live := live s - {w}\<rparr>"

text \<open>
  One run of the taint check.  The read of \<open>*tainted_mask_ptr\<close> is what the kernel's mask holds at that
  moment; the result is the alert, with the cleared bits.
\<close>

definition taint_check_fn :: "tenv \<Rightarrow> tstate \<Rightarrow> ulong option \<times> tstate" where
  "taint_check_fn E s =
     (let (cur, s) = kcall (t_tainted_mask E) s;
          cleared = taint_baseline s AND NOT cur;
          (alert, s) = (if cleared \<noteq> 0 then (Some cleared, s\<lparr>taint_baseline := cur\<rparr>) else (None, s));
          s = (if \<not> detector_exiting s then schedule_work WORK_TAINT_CHECK s else s)
      in (alert, s))"

definition setup_taint_poll :: "tenv \<Rightarrow> tstate \<Rightarrow> tstate" where
  "setup_taint_poll E s =
     (if photon_kallsyms_lookup s = 0 then s
      else let addr = t_kallsyms_lookup E ''tainted_mask''
           in if addr = 0 then s
              else let s = s\<lparr>tainted_mask_ptr := addr\<rparr>;
                       (cur, s) = kcall (t_tainted_mask E) s
                   in schedule_work WORK_TAINT_CHECK (s\<lparr>taint_baseline := cur\<rparr>))"

text \<open>One run of the task scan: the tasks that are reported, in the order of the list.\<close>

definition thread_scan_fn :: "task list \<Rightarrow> tstate \<Rightarrow> task list \<times> tstate" where
  "thread_scan_fn tasks s =
     (let hits = concat (map (\<lambda>t. map (\<lambda>_. t) (filter (\<lambda>n. strcmp0 (task_comm t) n) suspicious_names)) tasks);
          s = (if \<not> detector_exiting s then schedule_work WORK_THREAD_SCAN s else s)
      in (hits, s))"

definition reset_tainted_detector_init :: "tenv \<Rightarrow> tstate \<Rightarrow> unit kresult \<times> tstate" where
  "reset_tainted_detector_init E s =
     (let (_, s) = resolve_kallsyms_lookup_name E s;
          (_, s) = setup_kthread_hook E s;
          s = setup_taint_poll E s;
          s = schedule_work WORK_THREAD_SCAN s
      in (ok, s))"

definition reset_tainted_detector_exit :: "tenv \<Rightarrow> tstate \<Rightarrow> tstate" where
  "reset_tainted_detector_exit E s =
     (let s = s\<lparr>detector_exiting := True\<rparr>;
          s = teardown_kthread_hook E s;
          s = cancel_delayed_work_sync WORK_TAINT_CHECK s
      in cancel_delayed_work_sync WORK_THREAD_SCAN s)"

section \<open>The contract\<close>

lemma resolve_kallsyms_cases:
  obtains e where "resolve_kallsyms_lookup_name E s = (Inl e, s\<lparr>tick := Suc (tick s)\<rparr>)"
  | a where "resolve_kallsyms_lookup_name E s = (ok, s\<lparr>tick := Suc (tick s), photon_kallsyms_lookup := a\<rparr>)" "a \<noteq> 0"
  by (rule resolve_probe_cases [of E s]) (auto simp: resolve_kallsyms_lookup_name_def probe_symbol_def intro: that)

lemma setup_kthread_cases:
  obtains e n f where "setup_kthread_hook E s = (Inl e, s\<lparr>tick := n, filters := f\<rparr>)"
  | n f where "setup_kthread_hook E s =
      (ok, s\<lparr>tick := n, filters := f, live := insert OPS_KTHREAD (live s), kthread_hook_active := True\<rparr>)"
  by (rule install_ops_cases [of E OPS_KTHREAD "t_exported E ''kthread_create_on_node''" s])
    (auto simp: setup_kthread_hook_def intro: that)

lemma taint_poll_live:
  "coherent s \<Longrightarrow> coherent (setup_taint_poll E s)"
  "live s \<subseteq> live (setup_taint_poll E s) \<and> live (setup_taint_poll E s) \<subseteq> insert WORK_TAINT_CHECK (live s)"
  by (auto simp: setup_taint_poll_def schedule_work_def kcall_def coherent_def Let_def)

lemma reset_tainted_init_result:
  assumes "coherent s"
  shows "coherent (snd (reset_tainted_detector_init E s)) \<and> live s \<subseteq> live (snd (reset_tainted_detector_init E s)) \<and>
    live (snd (reset_tainted_detector_init E s)) \<subseteq> live s \<union> {OPS_KTHREAD, WORK_TAINT_CHECK, WORK_THREAD_SCAN}"
proof -
  obtain r1 s1 where 1: "resolve_kallsyms_lookup_name E s = (r1, s1)" by fastforce
  have s1: "coherent s1" "live s1 = live s"
    using 1 assms by (rule_tac resolve_kallsyms_cases [of E s]; auto simp: coherent_def)+
  obtain r2 s2 where 2: "setup_kthread_hook E s1 = (r2, s2)" by fastforce
  have s2: "coherent s2" "live s1 \<subseteq> live s2" "live s2 \<subseteq> insert OPS_KTHREAD (live s1)"
    using 2 s1(1) by (rule_tac setup_kthread_cases [of E s1]; auto simp: coherent_def)+
  have "reset_tainted_detector_init E s = (ok, schedule_work WORK_THREAD_SCAN (setup_taint_poll E s2))"
    by (simp add: reset_tainted_detector_init_def 1 2)
  then show ?thesis
    using s1 s2 taint_poll_live [of s2 E] by (auto simp: schedule_work_def coherent_def)
qed

interpretation reset_tainted: detector coherent "{OPS_KTHREAD, WORK_TAINT_CHECK, WORK_THREAD_SCAN}"
  "reset_tainted_detector_init E" "reset_tainted_detector_exit E" for E
proof (unfold_locales, goal_cases)
  case (1 s)
  then show ?case using reset_tainted_init_result by blast
next
  case (2 s e)
  then show ?case by (simp add: reset_tainted_detector_init_def split_beta Let_def)
next
  case (3 s)
  then show ?case using reset_tainted_init_result by blast
next
  case (4 s)
  then show ?case
    by (auto simp: reset_tainted_detector_exit_def teardown_kthread_hook_def cancel_delayed_work_sync_def kernel_calls
        coherent_def Let_def)
next
  case (5 s)
  then show ?case
    by (auto simp: reset_tainted_detector_exit_def teardown_kthread_hook_def cancel_delayed_work_sync_def kernel_calls
        coherent_def Let_def)
qed

section \<open>Consecutive runs of the taint check\<close>

text \<open>The work queue takes the item off and runs its function, \<open>n\<close> times.\<close>

definition run_taint_work :: "tenv \<Rightarrow> tstate \<Rightarrow> ulong option \<times> tstate" where
  "run_taint_work E s = taint_check_fn E (s\<lparr>live := live s - {WORK_TAINT_CHECK}\<rparr>)"

fun taint_polls :: "tenv \<Rightarrow> nat \<Rightarrow> tstate \<Rightarrow> ulong option list \<times> tstate" where
  "taint_polls E 0 s = ([], s)"
| "taint_polls E (Suc n) s =
     (let (a, s) = run_taint_work E s; (as, s) = taint_polls E n s in (a # as, s))"

lemma run_taint_work_eq:
  "run_taint_work E s =
     (let m = t_tainted_mask E (tick s); cleared = taint_baseline s AND NOT m
      in (if cleared = 0 then None else Some cleared,
          s\<lparr>live := (if detector_exiting s then live s - {WORK_TAINT_CHECK} else insert WORK_TAINT_CHECK (live s)),
            tick := Suc (tick s), taint_baseline := (if cleared = 0 then taint_baseline s else m)\<rparr>))"
  by (auto simp: run_taint_work_def taint_check_fn_def schedule_work_def kcall_def Let_def)

lemma taint_polls_Suc:
  "taint_polls E (Suc n) s =
     (fst (run_taint_work E s) # fst (taint_polls E n (snd (run_taint_work E s))),
      snd (taint_polls E n (snd (run_taint_work E s))))"
  by (simp add: split_beta Let_def)

declare taint_polls.simps(2) [simp del]

lemma length_taint_polls: "length (fst (taint_polls E n s)) = n"
  by (induction n arbitrary: s) (simp_all add: taint_polls_Suc)

lemma tick_run_taint: "tick (snd (run_taint_work E s)) = Suc (tick s)"
  by (simp add: run_taint_work_eq Let_def)

lemma taint_polls_noticed:
  assumes "bit (taint_baseline s) b" "i < n" "\<not> bit (t_tainted_mask E (tick s + i)) b"
  shows "\<exists>j \<le> i. \<exists>c. fst (taint_polls E n s) ! j = Some c \<and> bit c b"
  using assms
proof (induction n arbitrary: s i)
  case (Suc n)
  let ?m = "t_tainted_mask E (tick s)" and ?s = "snd (run_taint_work E s)"
  show ?case
  proof (cases "bit ?m b")
    case False
    then have c: "bit (taint_baseline s AND NOT ?m) b"
      using Suc.prems(1) bit_imp_le_length [OF Suc.prems(1)] by (simp add: bit_and_iff bit_not_iff)
    then have "fst (run_taint_work E s) = Some (taint_baseline s AND NOT ?m)"
      by (auto simp: run_taint_work_eq Let_def)
    with c have "fst (taint_polls E (Suc n) s) ! 0 = Some (taint_baseline s AND NOT ?m)" by (simp add: taint_polls_Suc)
    with c show ?thesis by blast
  next
    case True
    with Suc.prems obtain k where k: "i = Suc k" by (cases i) auto
    have "bit (taint_baseline ?s) b" using True Suc.prems(1) by (simp add: run_taint_work_eq Let_def)
    from Suc.IH [OF this, of k] Suc.prems(2,3) k obtain j c where
      "j \<le> k" "fst (taint_polls E n ?s) ! j = Some c" "bit c b" by (auto simp: tick_run_taint)
    then have "Suc j \<le> i" "fst (taint_polls E (Suc n) s) ! Suc j = Some c" "bit c b"
      by (simp_all add: k taint_polls_Suc)
    then show ?thesis by blast
  qed
qed simp

lemma taint_polls_sound:
  assumes "j < n" "fst (taint_polls E n s) ! j = Some c" "bit c b"
  shows "\<not> bit (t_tainted_mask E (tick s + j)) b \<and>
    (bit (taint_baseline s) b \<or> (\<exists>i < j. bit (t_tainted_mask E (tick s + i)) b))"
  using assms
proof (induction n arbitrary: s j)
  case (Suc n)
  let ?m = "t_tainted_mask E (tick s)" and ?s = "snd (run_taint_work E s)"
  show ?case
  proof (cases j)
    case 0
    with Suc.prems show ?thesis
      by (auto simp: taint_polls_Suc run_taint_work_eq Let_def bit_and_iff bit_not_iff split: if_splits)
  next
    case (Suc k)
    with Suc.prems Suc.IH [of k ?s] have IH: "\<not> bit (t_tainted_mask E (tick s + j)) b"
      "bit (taint_baseline ?s) b \<or> (\<exists>i < k. bit (t_tainted_mask E (tick s + Suc i)) b)"
      by (simp_all add: taint_polls_Suc tick_run_taint)
    from IH(2) have "bit (taint_baseline s) b \<or> (\<exists>i < j. bit (t_tainted_mask E (tick s + i)) b)"
    proof
      assume "bit (taint_baseline ?s) b"
      then have "bit (taint_baseline s) b \<or> bit ?m b" by (auto simp: run_taint_work_eq Let_def split: if_splits)
      then show ?thesis using Suc by (metis add_0_right zero_less_Suc)
    qed (use Suc in blast)
    with IH(1) show ?thesis ..
  qed
qed simp

lemma taint_polls_quiet:
  "(\<forall>a \<in> set (fst (taint_polls E n s)). a = None) \<longleftrightarrow> (\<forall>i < n. taint_baseline s AND NOT (t_tainted_mask E (tick s + i)) = 0)"
proof (induction n arbitrary: s)
  case (Suc n)
  let ?s = "snd (run_taint_work E s)"
  have "taint_baseline ?s = taint_baseline s" if "taint_baseline s AND NOT (t_tainted_mask E (tick s)) = 0"
    using that by (simp add: run_taint_work_eq Let_def)
  moreover have "fst (run_taint_work E s) = None \<longleftrightarrow> taint_baseline s AND NOT (t_tainted_mask E (tick s)) = 0"
    by (simp add: run_taint_work_eq Let_def)
  ultimately show ?case
    using Suc.IH [of ?s] by (auto simp: taint_polls_Suc tick_run_taint All_less_Suc2)
qed simp

lemma taint_polls_armed:
  "detector_exiting (snd (taint_polls E n s)) = detector_exiting s \<and>
   (WORK_TAINT_CHECK \<in> live (snd (taint_polls E n s)) \<longleftrightarrow>
      (if n = 0 then WORK_TAINT_CHECK \<in> live s else \<not> detector_exiting s))"
proof (induction n arbitrary: s)
  case (Suc n)
  let ?s = "snd (run_taint_work E s)"
  have "detector_exiting ?s = detector_exiting s" "WORK_TAINT_CHECK \<in> live ?s \<longleftrightarrow> \<not> detector_exiting s"
    by (simp_all add: run_taint_work_eq Let_def)
  with Suc.IH [of ?s] show ?case by (simp add: taint_polls_Suc)
qed simp

section \<open>Properties\<close>

text \<open>
  C27. Clearing taint bits.  In any number of consecutive runs of the taint check: a bit of the baseline
  that is missing in the mask at some run is part of an alert at that run or an earlier one; a bit
  is in an alert only if it is missing in the mask at that run and was in the baseline or in the
  mask at an earlier run.  There is no alert at all exactly when every mask contains the
  baseline: a bit that was set after loading is not watched until an alert resets the baseline.
  The check stays scheduled as long as the detector is not being removed.
\<close>

theorem taint_clearing_is_noticed:
  "(\<forall>b. \<forall>i < n. bit (taint_baseline s) b \<and> \<not> bit (t_tainted_mask E (tick s + i)) b \<longrightarrow>
      (\<exists>j \<le> i. \<exists>c. fst (taint_polls E n s) ! j = Some c \<and> bit c b)) \<and>
   (\<forall>b c. \<forall>j < n. fst (taint_polls E n s) ! j = Some c \<and> bit c b \<longrightarrow>
      \<not> bit (t_tainted_mask E (tick s + j)) b \<and>
      (bit (taint_baseline s) b \<or> (\<exists>i < j. bit (t_tainted_mask E (tick s + i)) b))) \<and>
   ((\<forall>a \<in> set (fst (taint_polls E n s)). a = None) \<longleftrightarrow>
      (\<forall>i < n. taint_baseline s AND NOT (t_tainted_mask E (tick s + i)) = 0)) \<and>
   (0 < n \<longrightarrow> (WORK_TAINT_CHECK \<in> live (snd (taint_polls E n s)) \<longleftrightarrow> \<not> detector_exiting s))"
  using taint_polls_noticed [of s _ _ n E] taint_polls_sound [of _ n E s] taint_polls_quiet [of E n s]
    taint_polls_armed [of E n s]
  by auto

theorem taint_clearing_is_noticed_witness:
  "\<exists>j \<le> 1. \<exists>c. fst (taint_polls (demo_tenv\<lparr>t_tainted_mask := (\<lambda>n. if n = 0 then 3 else 2)\<rparr>) 2
      (tstate_initial\<lparr>taint_baseline := 1\<rparr>)) ! j = Some c \<and> bit c 0"
proof -
  let ?E = "demo_tenv\<lparr>t_tainted_mask := (\<lambda>n. if n = 0 then 3 else 2)\<rparr>" and ?s = "tstate_initial\<lparr>taint_baseline := 1\<rparr>"
  have "bit (taint_baseline ?s) 0" "\<not> bit (t_tainted_mask ?E (tick ?s + 1)) 0" "(1 :: nat) < 2"
    by (simp_all add: tstate_initial_def bit_0)
  with taint_clearing_is_noticed [of 2 ?s ?E] show ?thesis by blast
qed

text \<open>
  Removal of the detector.  After \<open>reset_tainted_detector_exit\<close> none of its hooks is left and none comes
  back: a callback that was already running does not schedule its work again.
\<close>

theorem reset_tainted_stays_removed:
  assumes "coherent s"
  shows "let s' = reset_tainted_detector_exit E s in
    live s' = live s - {OPS_KTHREAD, WORK_TAINT_CHECK, WORK_THREAD_SCAN} \<and>
    live (snd (taint_check_fn E s')) = live s' \<and> live (snd (thread_scan_fn tasks s')) = live s'"
proof -
  have "detector_exiting (reset_tainted_detector_exit E s)"
    by (simp add: reset_tainted_detector_exit_def teardown_kthread_hook_def cancel_delayed_work_sync_def kernel_calls Let_def)
  with reset_tainted.exit_live [OF assms, of E] show ?thesis
    by (simp add: taint_check_fn_def thread_scan_fn_def kcall_def Let_def)
qed

theorem reset_tainted_stays_removed_witness:
  "live (snd (taint_check_fn demo_tenv (reset_tainted_detector_exit demo_tenv
     (snd (reset_tainted_detector_init demo_tenv tstate_initial))))) = {}"
proof -
  have "coherent (snd (reset_tainted_detector_init demo_tenv tstate_initial))"
    by (rule reset_tainted.init_coherent) (simp_all add: initial_coherent)
  from reset_tainted_stays_removed [OF this, of demo_tenv "[]"]
    reset_tainted.init_exit [OF initial_coherent(1), of demo_tenv] show ?thesis
    by (simp add: Let_def initial_coherent)
qed

end
