(* ===== verification/Audit_Detector.thy ===== *)
theory Audit_Detector
  imports Filter_Detectors
begin

text \<open>
  \<open>modules/hooking_audit_detector.c\<close>: four ftrace hooks on the audit subsystem, with two counters and a
  rate-limited statistics line.  \<open>modules/taskstats_hook_detector.c\<close> is a copy of the same file that
  declares the same functions.
\<close>

section \<open>Handlers\<close>

text \<open>\<open>time_before(a, b)\<close>: the difference of two \<open>jiffies\<close> values is negative as a signed number.\<close>

definition time_before :: "ulong \<Rightarrow> ulong \<Rightarrow> bool" where
  "time_before a b \<longleftrightarrow> sint (a - b) < 0"

text \<open>The first result tells whether the statistics line is printed; \<open>hz\<close> is the kernel's \<open>HZ\<close>.\<close>

definition print_statistics :: "ulong \<Rightarrow> ulong \<Rightarrow> audit_state \<Rightarrow> bool \<times> audit_state" where
  "print_statistics hz jiffies s =
     (if time_before jiffies (last_stats_print s + 30 * hz) then (False, s)
      else (True, s\<lparr>last_stats_print := jiffies\<rparr>))"

definition NETLINK_AUDIT :: u16 where "NETLINK_AUDIT = 9"
definition AUDIT_FIRST_USER_MSG :: u16 where "AUDIT_FIRST_USER_MSG = 1100"
definition AUDIT_LAST_USER_MSG :: u16 where "AUDIT_LAST_USER_MSG = 1199"
definition NLMSG_HDRLEN :: u32 where "NLMSG_HDRLEN = 16"

text \<open>
  The socket is its protocol, the buffer its length and the message type in its header.  The
  results are the message type that raises an alert, whether statistics are printed, and the state.
\<close>

definition hook_netlink_unicast_detector ::
  "ulong \<Rightarrow> ulong \<Rightarrow> u16 option \<Rightarrow> (u32 \<times> u16) option \<Rightarrow> audit_state \<Rightarrow> u16 option \<times> bool \<times> audit_state" where
  "hook_netlink_unicast_detector hz jiffies ssk skb s =
     (case (ssk, skb) of
        (Some sk_protocol, Some (len, nlmsg_type)) \<Rightarrow>
          if sk_protocol \<noteq> NETLINK_AUDIT then (None, False, s)
          else
            let s = s\<lparr>audit_unicast_calls := audit_unicast_calls s + 1\<rparr>;
                alert = (if len \<ge> NLMSG_HDRLEN
                         then if nlmsg_type \<ge> AUDIT_FIRST_USER_MSG \<and> nlmsg_type \<le> AUDIT_LAST_USER_MSG
                              then Some nlmsg_type else None
                         else None);
                (printed, s) = print_statistics hz jiffies s
            in (alert, printed, s)
      | _ \<Rightarrow> (None, False, s))"

text \<open>
  \<open>kallsyms_lookup\<close> writes into the buffer that holds \<open>"<unknown>"\<close>; the parameter is what it leaves there.
\<close>

definition hook_audit_log_start_detector :: "(string \<Rightarrow> string) \<Rightarrow> audit_state \<Rightarrow> verdict \<times> audit_state" where
  "hook_audit_log_start_detector kallsyms_lookup s =
     (let s = s\<lparr>audit_log_calls := audit_log_calls s + 1\<rparr>;
          name = kallsyms_lookup ''<unknown>''
      in (if strncmp0 name ''<unknown>'' 9 then Alert else Silent, s))"

definition hook_audit_log_end_detector :: "bool \<Rightarrow> audit_state \<Rightarrow> verdict \<times> audit_state" where
  "hook_audit_log_end_detector ab_null s =
     (if ab_null then (Silent, s) else (Note, s\<lparr>audit_log_calls := audit_log_calls s + 1\<rparr>))"

text \<open>\<open>execve\<close>, \<open>fork\<close>, \<open>clone\<close>, \<open>init_module\<close> and \<open>finit_module\<close> by their x86\_64 numbers.\<close>

definition hook_audit_syscall_entry_detector :: "ulong \<Rightarrow> verdict" where
  "hook_audit_syscall_entry_detector arg =
     (let major = ucast arg :: 32 word
      in if major = 59 \<or> major = 57 \<or> major = 56 \<or> major = 175 \<or> major = 313 then Note else Silent)"

section \<open>Setup and teardown\<close>

definition resolve_symbol :: "tenv \<Rightarrow> tstate \<Rightarrow> ulong \<times> tstate" where
  "resolve_symbol E s = (case probe_symbol E s of (Inl _, s) \<Rightarrow> (0, s) | (Inr addr, s) \<Rightarrow> (addr, s))"

definition setup_ftrace_hook :: "tenv \<Rightarrow> hook \<Rightarrow> tstate \<Rightarrow> unit kresult \<times> tstate" where
  "setup_ftrace_hook E ops s =
     (let (addr, s) = resolve_symbol E s
      in if addr = 0 then (Inl ENOENT, s)
         else install_ops E ops addr
                (s\<lparr>filters := (filters s)(ops := {}), ops_func_set := (ops_func_set s)(ops := True)\<rparr>))"

definition teardown_ftrace_hook :: "tenv \<Rightarrow> hook \<Rightarrow> tstate \<Rightarrow> tstate" where
  "teardown_ftrace_hook E ops s =
     (if \<not> ops_func_set s ops then s
      else
        let s = unregister_ftrace_function ops s;
            (addr, s) = resolve_symbol E s;
            s = (if addr \<noteq> 0 then ftrace_filter_remove ops addr s else s)
        in s\<lparr>ops_func_set := (ops_func_set s)(ops := False)\<rparr>)"

definition setup_counted :: "tenv \<Rightarrow> hook \<Rightarrow> tstate \<times> nat \<Rightarrow> tstate \<times> nat" where
  "setup_counted E ops = (\<lambda>(s, installed).
     case setup_ftrace_hook E ops s of (Inl _, s) \<Rightarrow> (s, installed) | (Inr _, s) \<Rightarrow> (s, Suc installed))"

definition audit_detector_init :: "tenv \<Rightarrow> tstate \<Rightarrow> unit kresult \<times> tstate" where
  "audit_detector_init E s =
     (let (now, s) = kcall (t_jiffies E) s;
          s = s\<lparr>g_audit := (g_audit s)\<lparr>last_stats_print := now\<rparr>\<rparr>;
          (s, installed) =
            setup_counted E OPS_AUDIT_SYSCALL_ENTRY (setup_counted E OPS_AUDIT_LOG_END
              (setup_counted E OPS_AUDIT_LOG_START (setup_counted E OPS_NETLINK_UNICAST (s, 0))))
      in if installed = 0 then (Inl ENOENT, s) else (ok, s))"

definition audit_detector_exit :: "tenv \<Rightarrow> tstate \<Rightarrow> tstate" where
  "audit_detector_exit E s =
     teardown_ftrace_hook E OPS_NETLINK_UNICAST (teardown_ftrace_hook E OPS_AUDIT_LOG_START
       (teardown_ftrace_hook E OPS_AUDIT_LOG_END (teardown_ftrace_hook E OPS_AUDIT_SYSCALL_ENTRY s)))"

section \<open>The contract\<close>

definition audit_ops :: "hook set" where
  "audit_ops = {OPS_NETLINK_UNICAST, OPS_AUDIT_LOG_START, OPS_AUDIT_LOG_END, OPS_AUDIT_SYSCALL_ENTRY}"

lemma removable_audit: "h \<in> audit_ops \<Longrightarrow> removable s h = ops_func_set s h"
  by (auto simp: audit_ops_def)

lemma removable_func_other: "x \<noteq> h \<Longrightarrow> removable s x \<Longrightarrow> removable (s\<lparr>ops_func_set := (ops_func_set s)(h := b)\<rparr>) x"
  by (rule removable_ops_func) auto

lemma resolve_symbol_eq: "resolve_symbol E s = lookup_name E s"
  by (simp add: resolve_symbol_def lookup_name_def)

lemma setup_counted_step:
  assumes s: "coherent s" "h \<notin> live s" "h \<in> audit_ops"
    and step: "setup_counted E h (s, k) = (s', k')"
  shows "coherent s' \<and> (k' = k \<and> live s' = live s \<or> k' = Suc k \<and> live s' = insert h (live s))"
proof (cases "fst (lookup_name E s) = 0")
  case True
  then have "s' = s\<lparr>tick := Suc (tick s)\<rparr>" "k' = k"
    using step by (simp_all add: setup_counted_def setup_ftrace_hook_def resolve_symbol_eq split_beta lookup_name_state)
  with s(1) show ?thesis by (simp add: coherent_def)
next
  case False
  let ?t = "s\<lparr>tick := Suc (tick s), filters := (filters s)(h := {})\<rparr>"
  let ?s = "?t\<lparr>ops_func_set := (ops_func_set ?t)(h := True)\<rparr>"
  have set_up: "setup_ftrace_hook E h s = install_ops E h (fst (lookup_name E s)) ?s"
    using False by (simp add: setup_ftrace_hook_def resolve_symbol_eq split_beta lookup_name_state)
  have other: "removable (s\<lparr>ops_func_set := (ops_func_set s)(h := True)\<rparr>) x" if "x \<in> live s" for x
  proof (rule removable_func_other)
    show "x \<noteq> h" using that s(2) by blast
    show "removable s x" using that s(1) by (simp add: coherent_def)
  qed
  have own: "removable (s\<lparr>ops_func_set := (ops_func_set s)(h := True)\<rparr>) h" by (simp add: removable_audit [OF s(3)])
  show ?thesis
  proof (cases rule: install_ops_cases [of E h "fst (lookup_name E s)" ?s])
    case (failed e n f)
    then have "s' = ?s\<lparr>tick := n, filters := f\<rparr>" "k' = k" using step by (simp_all add: setup_counted_def set_up)
    with other show ?thesis by (simp add: coherent_def)
  next
    case (installed n)
    then have "s' = ?s\<lparr>tick := n, filters := (filters ?s)(h := insert (fst (lookup_name E s)) (filters ?s h)),
        live := insert h (live ?s)\<rparr>" "k' = Suc k" using step by (simp_all add: setup_counted_def set_up)
    with other own show ?thesis by (simp add: coherent_def)
  qed
qed

lemma audit_init_result:
  assumes "coherent s" "live s \<inter> audit_ops = {}"
  shows "coherent (snd (audit_detector_init E s)) \<and> live s \<subseteq> live (snd (audit_detector_init E s)) \<and>
    live (snd (audit_detector_init E s)) \<subseteq> live s \<union> audit_ops \<and>
    (failed (fst (audit_detector_init E s)) \<longrightarrow> live (snd (audit_detector_init E s)) = live s)"
proof -
  let ?s = "s\<lparr>tick := Suc (tick s), g_audit := (g_audit s)\<lparr>last_stats_print := t_jiffies E (tick s)\<rparr>\<rparr>"
  obtain s1 k1 where 1: "setup_counted E OPS_NETLINK_UNICAST (?s, 0) = (s1, k1)" by fastforce
  have start: "coherent ?s" "live ?s = live s" using assms(1) by (simp_all add: coherent_def)
  obtain s2 k2 where 2: "setup_counted E OPS_AUDIT_LOG_START (s1, k1) = (s2, k2)" by fastforce
  obtain s3 k3 where 3: "setup_counted E OPS_AUDIT_LOG_END (s2, k2) = (s3, k3)" by fastforce
  obtain s4 k4 where 4: "setup_counted E OPS_AUDIT_SYSCALL_ENTRY (s3, k3) = (s4, k4)" by fastforce
  have fresh: "OPS_NETLINK_UNICAST \<notin> live s" "OPS_AUDIT_LOG_START \<notin> live s" "OPS_AUDIT_LOG_END \<notin> live s"
    "OPS_AUDIT_SYSCALL_ENTRY \<notin> live s" using assms(2) by (auto simp: audit_ops_def)
  have c1: "coherent s1 \<and> (k1 = 0 \<and> live s1 = live s \<or> k1 = Suc 0 \<and> live s1 = insert OPS_NETLINK_UNICAST (live s))"
    using setup_counted_step [OF start(1) _ _ 1] fresh(1) by (simp add: audit_ops_def)
  have c2: "coherent s2 \<and> (k2 = k1 \<and> live s2 = live s1 \<or> k2 = Suc k1 \<and> live s2 = insert OPS_AUDIT_LOG_START (live s1))"
    using setup_counted_step [OF _ _ _ 2] c1 fresh by (auto simp: audit_ops_def)
  have c3: "coherent s3 \<and> (k3 = k2 \<and> live s3 = live s2 \<or> k3 = Suc k2 \<and> live s3 = insert OPS_AUDIT_LOG_END (live s2))"
    using setup_counted_step [OF _ _ _ 3] c1 c2 fresh by (auto simp: audit_ops_def)
  have c4: "coherent s4 \<and> (k4 = k3 \<and> live s4 = live s3 \<or> k4 = Suc k3 \<and> live s4 = insert OPS_AUDIT_SYSCALL_ENTRY (live s3))"
    using setup_counted_step [OF _ _ _ 4] c1 c2 c3 fresh by (auto simp: audit_ops_def)
  have init: "audit_detector_init E s = (if k4 = 0 then (Inl ENOENT, s4) else (ok, s4))"
    using 1 2 3 4 by (simp add: audit_detector_init_def kcall_def)
  have "live s \<subseteq> live s4 \<and> live s4 \<subseteq> live s \<union> audit_ops" using c1 c2 c3 c4 unfolding audit_ops_def by blast
  moreover have "k4 = 0 \<Longrightarrow> live s4 = live s" using c1 c2 c3 c4 by auto
  ultimately show ?thesis unfolding init using c4 by simp
qed

lemma teardown_step:
  assumes s: "coherent s" and h: "h \<in> audit_ops"
  shows "coherent (teardown_ftrace_hook E h s) \<and> live (teardown_ftrace_hook E h s) = live s - {h}"
proof (cases "ops_func_set s h")
  case False
  then have "h \<notin> live s" using s removable_audit [OF h] by (auto simp: coherent_def)
  with s False show ?thesis by (simp add: teardown_ftrace_hook_def)
next
  case True
  obtain n f where t: "teardown_ftrace_hook E h s =
      (let t = s\<lparr>live := live s - {h}, tick := n, filters := f\<rparr> in t\<lparr>ops_func_set := (ops_func_set t)(h := False)\<rparr>)"
  proof (cases "fst (lookup_name E (s\<lparr>live := live s - {h}\<rparr>)) = 0")
    case zero: True
    from True zero have "teardown_ftrace_hook E h s =
      (let t = s\<lparr>live := live s - {h}, tick := Suc (tick s), filters := filters s\<rparr> in t\<lparr>ops_func_set := (ops_func_set t)(h := False)\<rparr>)"
      by (simp add: teardown_ftrace_hook_def resolve_symbol_eq split_beta lookup_name_state unregister_ftrace_function_def Let_def)
    then show thesis by (rule that)
  next
    case nonzero: False
    from True nonzero show thesis
      by (intro that) (simp add: teardown_ftrace_hook_def resolve_symbol_eq split_beta lookup_name_state
          unregister_ftrace_function_def ftrace_filter_remove_def Let_def)
  qed
  have "removable (teardown_ftrace_hook E h s) x" if "x \<in> live s" "x \<noteq> h" for x
    unfolding t Let_def
  proof (rule removable_func_other [OF that(2)])
    show "removable (s\<lparr>live := live s - {h}, tick := n, filters := f\<rparr>) x" using s that(1) by (simp add: coherent_def)
  qed
  moreover have "live (teardown_ftrace_hook E h s) = live s - {h}" by (simp add: t Let_def)
  ultimately show ?thesis by (auto simp: coherent_def)
qed

interpretation audit: detector coherent audit_ops "audit_detector_init E" "audit_detector_exit E" for E
proof (unfold_locales, goal_cases)
  case (1 s)
  then show ?case using audit_init_result by blast
next
  case (2 s e)
  then show ?case using audit_init_result [of s E] by simp
next
  case (3 s)
  then show ?case using audit_init_result [of s E] by simp
next
  case (4 s)
  then show ?case by (simp add: audit_detector_exit_def teardown_step audit_ops_def)
next
  case (5 s)
  then show ?case by (auto simp: audit_detector_exit_def teardown_step audit_ops_def)
qed

section \<open>Properties\<close>

lemma uint_small: "unat (x :: ulong) < 2 ^ 63 \<Longrightarrow> uint x < 2 ^ 63"
  unfolding unat_eq_nat_uint by (subst (asm) nat_less_iff) simp_all

lemma sint_small: "unat (x :: ulong) < 2 ^ 63 \<Longrightarrow> sint x = uint x"
proof -
  assume "unat x < 2 ^ 63"
  then have "signed_take_bit 63 (uint x) = uint x"
    using uint_small [of x] uint_ge_0 [of x] by (intro signed_take_bit_int_eq_self; linarith)
  then show ?thesis by (simp add: sint_uint)
qed

lemma sint_diff_small:
  fixes x y :: ulong
  assumes "unat x < 2 ^ 63" "unat y < 2 ^ 63"
  shows "sint (x - y) = uint x - uint y"
proof -
  have "sint (x - y) = signed_take_bit 63 (sint x - sint y)" by (simp add: sint_word_ariths)
  also have "\<dots> = uint x - uint y"
    unfolding sint_small [OF assms(1)] sint_small [OF assms(2)]
    by (rule signed_take_bit_int_eq_self)
      (use uint_small [OF assms(1)] uint_small [OF assms(2)] uint_ge_0 [of x] uint_ge_0 [of y] in linarith)+
  finally show ?thesis .
qed

text \<open>
  The statistics line is rate limited across the wrap-around of \<open>jiffies\<close>: \<open>d\<close> ticks after the last line
  (less than half the range of the counter), it is printed again exactly when 30 seconds have
  passed, whatever the absolute values of the counter are.
\<close>

theorem audit_stats_rate_limited:
  assumes "unat d < 2 ^ 63" "30 * unat hz < 2 ^ 63"
  shows "print_statistics hz (last_stats_print s + d) s =
    (if unat d < 30 * unat hz then (False, s) else (True, s\<lparr>last_stats_print := last_stats_print s + d\<rparr>))"
proof -
  have hz: "unat (30 * hz) = 30 * unat hz" using assms(2) by (simp add: unat_word_ariths)
  have diff: "last_stats_print s + d - (last_stats_print s + 30 * hz) = d - 30 * hz" by simp
  have small: "unat (30 * hz) < 2 ^ 63" using assms(2) hz by simp
  have "time_before (last_stats_print s + d) (last_stats_print s + 30 * hz) \<longleftrightarrow> uint d - uint (30 * hz) < 0"
    unfolding time_before_def diff sint_diff_small [OF assms(1) small] ..
  also have "\<dots> \<longleftrightarrow> d < 30 * hz" by (simp add: word_less_def)
  also have "\<dots> \<longleftrightarrow> unat d < 30 * unat hz" unfolding word_less_nat_alt hz ..
  finally have "time_before (last_stats_print s + d) (last_stats_print s + 30 * hz) \<longleftrightarrow> unat d < 30 * unat hz" .
  then show ?thesis by (simp add: print_statistics_def)
qed

theorem audit_stats_rate_limited_witness:
  "print_statistics 250 7499 \<lparr>audit_unicast_calls = 0, audit_log_calls = 0, last_stats_print = - 1\<rparr> =
     (True, \<lparr>audit_unicast_calls = 0, audit_log_calls = 0, last_stats_print = 7499\<rparr>)"
  using audit_stats_rate_limited [of 7500 250 "\<lparr>audit_unicast_calls = 0, audit_log_calls = 0, last_stats_print = - 1\<rparr>"]
  by simp

end
