(* ===== verification/Privesc_Detector.thy ===== *)
theory Privesc_Detector
  imports Probe_Detectors
begin

text \<open>
  \<open>modules/become_root_detector.c\<close>: the hook on \<open>commit_creds\<close>, with the parser that looks for a
  legitimate caller in the rendered stack trace.  The rendering by \<open>stack_trace_snprint\<close> is the
  parameter \<open>t_stack_trace\<close>.
\<close>

section \<open>The stack trace parser\<close>

definition legitimate_callers :: "string list" where
  "legitimate_callers =
     [''security_bprm_committed_creds'', ''cap_bprm_set_creds'',
      ''__sys_setuid'', ''__sys_setuid16'', ''__sys_setreuid'', ''__sys_setreuid16'',
      ''__sys_setresuid'', ''__sys_setresuid16'', ''__sys_setgid'', ''__sys_setgid16'',
      ''__sys_setregid'', ''__sys_setregid16'', ''__sys_setresgid'', ''__sys_setresgid16'',
      ''__sys_setfsuid'', ''__sys_setfsuid16'', ''__sys_setfsgid'', ''__sys_setfsgid16'',
      ''__sys_setns'']"

definition is_blank :: "char \<Rightarrow> bool" where
  "is_blank c \<longleftrightarrow> c = CHR '' '' \<or> c = CHR 0x09"

text \<open>
  The body of the loop on one line, between \<open>line_start\<close> and \<open>line_end\<close>: skip blanks, look for \<open>+\<close>, compare
  the text before it with the table if it is not empty and fits the symbol buffer.
\<close>

definition line_is_legitimate :: "nat \<Rightarrow> string \<Rightarrow> bool" where
  "line_is_legitimate ksym_len line =
     (let sym_start = dropWhile is_blank line;
          sym = takeWhile (\<lambda>c. c \<noteq> CHR ''+'') sym_start
      in CHR ''+'' \<in> set sym_start \<and> sym \<noteq> [] \<and> length sym < ksym_len \<and> name_in_table legitimate_callers sym)"

text \<open>The loop over the lines of the buffer, which ends at the terminating NUL.\<close>

function scan_lines :: "nat \<Rightarrow> string \<Rightarrow> bool" where
  "scan_lines ksym_len buf =
     (if buf = [] then False
      else let line = takeWhile (\<lambda>c. c \<noteq> CHR 0x0A) buf; rest = dropWhile (\<lambda>c. c \<noteq> CHR 0x0A) buf
           in if line_is_legitimate ksym_len line then True
              else if rest = [] then False
              else scan_lines ksym_len (tl rest))"
  by pat_completeness auto
termination
proof (relation "measure (\<lambda>(n, buf). length buf)")
  fix n :: nat and buf line rest :: string
  assume rest: "rest = dropWhile (\<lambda>c. c \<noteq> CHR 0x0A) buf" "rest \<noteq> []"
  have "length rest \<le> length buf" unfolding rest(1) by (rule length_dropWhile_le)
  moreover have "length (tl rest) < length rest" using rest(2) by (cases rest) simp_all
  ultimately show "((n, tl rest), (n, buf)) \<in> measure (\<lambda>(n, buf). length buf)" by simp
qed simp

declare scan_lines.simps [simp del]

definition PRIVESC_TRACE_BUF_SIZE :: nat where "PRIVESC_TRACE_BUF_SIZE = 2048"

definition stack_has_legitimate_caller :: "tenv \<Rightarrow> string \<Rightarrow> bool" where
  "stack_has_legitimate_caller E rendered =
     scan_lines (t_ksym_name_len E) (take (PRIVESC_TRACE_BUF_SIZE - 1) (cstr rendered))"

section \<open>The hook\<close>

text \<open>\<open>struct cred\<close>, as far as the handler reads it: the uid.\<close>

definition privesc_report :: "tenv \<Rightarrow> nat \<Rightarrow> ulong \<Rightarrow> u32 option \<Rightarrow> u32 option \<Rightarrow> report option" where
  "privesc_report E n parent_ip old_cred new_cred =
     (case new_cred of
        None \<Rightarrow> None
      | Some new_uid \<Rightarrow> (case old_cred of
          None \<Rightarrow> None
        | Some old_uid \<Rightarrow>
            if old_uid = 0 \<or> new_uid \<noteq> 0 then None
            else if stack_has_legitimate_caller E (t_stack_trace E n) then None
            else Some \<lparr>rep_type = PHOTON_EVENT_PRIVESC_UID, rep_detector = PHOTON_DETECTOR_PRIVESC,
                   rep_severity = PHOTON_SEV_CRITICAL,
                   rep_payload = privesc_bytes \<lparr>pe_old_uid = old_uid, pe_new_uid = new_uid,
                                                pe_return_addr = parent_ip\<rparr>\<rparr>))"

definition hook_commit_creds ::
  "'t kenv \<Rightarrow> tenv \<Rightarrow> task \<Rightarrow> ulong \<Rightarrow> u32 option \<Rightarrow> u32 option \<Rightarrow> ('t, 'z) em_state_scheme \<Rightarrow>
   ('t, 'z) em_state_scheme option" where
  "hook_commit_creds K E current parent_ip old_cred new_cred s =
     send_optional K current (privesc_report E (now s) parent_ip old_cred new_cred) s"

definition become_root_detector_init :: "tenv \<Rightarrow> tstate \<Rightarrow> unit kresult \<times> tstate" where
  "become_root_detector_init E s = install_ops E OPS_COMMIT_CREDS (t_exported E ''commit_creds'') s"

definition become_root_detector_exit :: "tstate \<Rightarrow> tstate" where
  "become_root_detector_exit s =
     ftrace_filter_remove OPS_COMMIT_CREDS 0 (unregister_ftrace_function OPS_COMMIT_CREDS s)"

interpretation become_root: detector coherent "{OPS_COMMIT_CREDS}" "become_root_detector_init E"
  become_root_detector_exit for E
  by unfold_locales
    (auto simp: become_root_detector_init_def become_root_detector_exit_def install_ops_def kernel_calls
      coherent_def split: sum.splits prod.splits)

section \<open>What the parser accepts\<close>

text \<open>Reference definition: the lines of a text, and the symbol of a frame \<open>symbol+0xOFF/0xSIZE\<close>.\<close>

fun text_lines :: "string \<Rightarrow> string list" where
  "text_lines [] = [[]]"
| "text_lines (c # cs) =
     (if c = CHR 0x0A then [] # text_lines cs
      else (case text_lines cs of l # ls \<Rightarrow> (c # l) # ls | [] \<Rightarrow> [[c]]))"

lemma text_lines_nonempty: "text_lines s \<noteq> []"
  by (cases s) (auto split: list.splits)

lemma text_lines_split:
  "text_lines s = takeWhile (\<lambda>c. c \<noteq> CHR 0x0A) s #
     (case dropWhile (\<lambda>c. c \<noteq> CHR 0x0A) s of [] \<Rightarrow> [] | _ # rest \<Rightarrow> text_lines rest)"
  by (induction s) (auto split: list.splits)

lemma empty_line: "\<not> line_is_legitimate n []"
  by (simp add: line_is_legitimate_def)

lemma text_lines_first:
  assumes "dropWhile (\<lambda>c. c \<noteq> CHR 0x0A) s = rest"
  shows "set (text_lines s) = insert (takeWhile (\<lambda>c. c \<noteq> CHR 0x0A) s)
    (if rest = [] then {} else set (text_lines (tl rest)))"
  using assms by (subst text_lines_split) (cases rest; simp only: list.simps list.sel if_True if_False refl set_simps simp_thms)

lemma scan_lines_iff: "scan_lines n buf \<longleftrightarrow> (\<exists>line \<in> set (text_lines buf). line_is_legitimate n line)"
proof (induction n buf rule: scan_lines.induct)
  case (1 n buf)
  define line rest where "line = takeWhile (\<lambda>c. c \<noteq> CHR 0x0A) buf" and "rest = dropWhile (\<lambda>c. c \<noteq> CHR 0x0A) buf"
  have lines: "set (text_lines buf) = insert line (if rest = [] then {} else set (text_lines (tl rest)))"
    unfolding line_def by (rule text_lines_first [OF rest_def [symmetric]])
  have step: "scan_lines n buf = (if buf = [] then False else line_is_legitimate n line \<or>
      (rest \<noteq> [] \<and> scan_lines n (tl rest)))"
    by (subst scan_lines.simps) (simp only: Let_def line_def rest_def simp_thms if_bool_eq_disj split: if_split, blast)
  show ?case
  proof (cases "buf = []")
    case True
    then show ?thesis by (simp add: scan_lines.simps empty_line)
  next
    case False
    then show ?thesis using "1.IH" [OF False line_def rest_def] unfolding step lines by auto
  qed
qed

lemma legitimate_plain: "\<forall>w \<in> set legitimate_callers. CHR 0x00 \<notin> set w \<and> w \<noteq> [] \<and> length w < 30"
  by (simp add: legitimate_callers_def)

lemma legitimate_cstr: "cstr ` set legitimate_callers = set legitimate_callers"
  using legitimate_plain cstr_plain by (auto simp: image_iff)

lemma legitimate_chars: "\<forall>w \<in> set legitimate_callers. CHR ''+'' \<notin> set w \<and> \<not> is_blank (hd w)"
  by (simp add: legitimate_callers_def is_blank_def)

lemma takeWhile_before: "c \<notin> set w \<Longrightarrow> takeWhile (\<lambda>x. x \<noteq> c) (w @ c # rest) = w"
  by (auto simp: takeWhile_append)

text \<open>A line names a legitimate caller: blanks, then the symbol, then \<open>+\<close>.\<close>

definition names_legitimate :: "string \<Rightarrow> bool" where
  "names_legitimate line \<longleftrightarrow> (\<exists>blanks f rest. line = blanks @ f @ CHR ''+'' # rest \<and>
     (\<forall>c \<in> set blanks. is_blank c) \<and> f \<in> set legitimate_callers)"

lemma legitimate_line_names: "line_is_legitimate n line \<Longrightarrow> CHR 0x00 \<notin> set line \<Longrightarrow> names_legitimate line"
proof -
  define s w where "s = dropWhile is_blank line" and "w = takeWhile (\<lambda>c. c \<noteq> CHR ''+'') s"
  assume l: "line_is_legitimate n line" and plain: "CHR 0x00 \<notin> set line"
  from l have plus: "CHR ''+'' \<in> set s" and tab: "name_in_table legitimate_callers w"
    by (simp_all add: line_is_legitimate_def Let_def s_def w_def)
  from plus obtain u v where uv: "s = u @ CHR ''+'' # v" "CHR ''+'' \<notin> set u" by (meson split_list_first)
  then have w: "w = u" by (simp add: w_def takeWhile_before)
  have line: "line = takeWhile is_blank line @ s" by (simp add: s_def)
  have "set u \<subseteq> set line" by (subst line) (auto simp: uv)
  with plain have "CHR 0x00 \<notin> set u" by blast
  with tab w have "u \<in> set legitimate_callers" by (simp add: name_in_table_iff cstr_plain legitimate_cstr)
  moreover have "line = takeWhile is_blank line @ u @ CHR ''+'' # v" using line uv(1) by simp
  moreover have "\<forall>c \<in> set (takeWhile is_blank line). is_blank c" by (meson set_takeWhileD)
  ultimately show "names_legitimate line" unfolding names_legitimate_def by blast
qed

lemma named_line_legitimate: "30 \<le> n \<Longrightarrow> names_legitimate line \<Longrightarrow> line_is_legitimate n line"
proof -
  assume n: "30 \<le> n" and "names_legitimate line"
  then obtain blanks f rest where l: "line = blanks @ f @ CHR ''+'' # rest" "\<forall>c \<in> set blanks. is_blank c"
    "f \<in> set legitimate_callers" unfolding names_legitimate_def by blast
  from l(3) legitimate_plain legitimate_chars have f: "f \<noteq> []" "length f < 30" "CHR ''+'' \<notin> set f"
    "\<not> is_blank (hd f)" "CHR 0x00 \<notin> set f" by blast+
  have "dropWhile is_blank line = f @ CHR ''+'' # rest"
    using l(1,2) f(1,4) by (cases f) (auto simp: dropWhile_append)
  with n f l(3) show ?thesis
    by (simp add: line_is_legitimate_def Let_def takeWhile_before name_in_table_iff cstr_plain legitimate_cstr)
qed

lemma text_lines_chars: "line \<in> set (text_lines s) \<Longrightarrow> set line \<subseteq> set s"
  by (induction s arbitrary: line) (fastforce split: if_splits list.splits)+

lemma cstr_no_nul: "CHR 0x00 \<notin> set (cstr s)"
  using set_takeWhileD [of "CHR 0x00" "\<lambda>c. c \<noteq> CHR 0x00" s] by (auto simp: cstr_def)

lemma legitimate_caller_iff:
  assumes "30 \<le> t_ksym_name_len E"
  shows "stack_has_legitimate_caller E rendered \<longleftrightarrow>
    (\<exists>line \<in> set (text_lines (take 2047 (cstr rendered))). names_legitimate line)"
proof -
  have "CHR 0x00 \<notin> set line" if "line \<in> set (text_lines (take 2047 (cstr rendered)))" for line
    using text_lines_chars [OF that] cstr_no_nul [of rendered] by (meson in_mono in_set_takeD)
  then have "line_is_legitimate (t_ksym_name_len E) line \<longleftrightarrow> names_legitimate line"
    if "line \<in> set (text_lines (take 2047 (cstr rendered)))" for line
    using that legitimate_line_names named_line_legitimate [OF assms] by blast
  then show ?thesis
    by (simp add: stack_has_legitimate_caller_def scan_lines_iff PRIVESC_TRACE_BUF_SIZE_def)
qed

lemma privesc_report_fits: "privesc_report E m ip old new = Some r \<Longrightarrow> report_fits r"
  by (auto simp: privesc_report_def report_fits_def length_privesc_bytes split: option.splits if_splits)

section \<open>Property\<close>



end
