(* ===== verification/Syscall_Detectors.thy ===== *)
theory Syscall_Detectors
  imports Filter_Detectors
begin

text \<open>
  The detectors that watch single kernel functions and write to the kernel log only:
  \<open>modules/trace_pid_detector.c\<close>, \<open>hiding_chdir_detector.c\<close>, \<open>hiding_readlink_detector.c\<close>,
  \<open>hooks_write_detector.c\<close>, \<open>clear_taint_dmesg_detector.c\<close>, \<open>lkrg_bypass_detector.c\<close> and
  \<open>hook_file_access.c\<close>.  A handler is a function from what it reads to the line it logs, as a \<open>verdict\<close>.
  Pointers are \<open>option\<close> values; user memory that cannot be read is \<open>None\<close>.
\<close>

section \<open>trace\_pid\_detector.c\<close>

text \<open>A tracepoint is its name, which may be null.\<close>

definition hook_tracepoint_probe_register :: "string option option \<Rightarrow> verdict" where
  "hook_tracepoint_probe_register tp =
     (case tp of
        None \<Rightarrow> Silent
      | Some None \<Rightarrow> Silent
      | Some (Some name) \<Rightarrow>
          if strncmp0 name ''sched_process_fork'' 18 \<or> strncmp0 name ''sched_process_exec'' 18 \<or>
             strncmp0 name ''sched_process_exit'' 18
          then Alert else Note)"

text \<open>\<open>target_addr\<close> is the address of the exported function from \<open>init\<close> on.\<close>

definition trace_pid_detector_init :: "tenv \<Rightarrow> tstate \<Rightarrow> unit kresult \<times> tstate" where
  "trace_pid_detector_init E s = install_ops E OPS_TRACE_PID (t_exported E ''tracepoint_probe_register'') s"

definition trace_pid_detector_exit :: "tenv \<Rightarrow> tstate \<Rightarrow> tstate" where
  "trace_pid_detector_exit E s =
     ftrace_filter_remove OPS_TRACE_PID (t_exported E ''tracepoint_probe_register'')
       (unregister_ftrace_function OPS_TRACE_PID s)"

section \<open>hiding\_chdir\_detector.c\<close>

text \<open>\<open>strncpy_from_user(buf, src, n)\<close>: at most \<open>n\<close> characters up to the NUL; a fault is a negative length.\<close>

definition strncpy_from_user :: "string option \<Rightarrow> nat \<Rightarrow> string option" where
  "strncpy_from_user src n = map_option (\<lambda>s. take n (cstr s)) src"

definition chdir_handler_pre :: "string option option \<Rightarrow> verdict" where
  "chdir_handler_pre filename =
     (case filename of
        None \<Rightarrow> Silent
      | Some user \<Rightarrow>
          (case strncpy_from_user user 255 of
             None \<Rightarrow> Silent
           | Some buf \<Rightarrow>
               if length buf = 0 then Silent
               else if strstr buf ''/proc/'' \<or> strstr buf ''/.hidden'' \<or> strstr buf ''/dev/shm/'' then Alert
               else Silent))"

definition hiding_chdir_detector_init :: "tenv \<Rightarrow> tstate \<Rightarrow> unit kresult \<times> tstate" where
  "hiding_chdir_detector_init E s = register_kprobe E KP_CHDIR s"

definition hiding_chdir_detector_exit :: "tstate \<Rightarrow> tstate" where
  "hiding_chdir_detector_exit s = unregister_kprobe KP_CHDIR s"

section \<open>hiding\_readlink\_detector.c\<close>

definition hook_vfs_readlink :: "string option option \<Rightarrow> verdict" where
  "hook_vfs_readlink dentry =
     (case dentry of
        None \<Rightarrow> Silent
      | Some None \<Rightarrow> Silent
      | Some (Some name) \<Rightarrow>
          if strncmp0 name ''exe'' 3 \<or> strstr (cstr name) ''.ko'' then Alert else Silent)"

definition hiding_readlink_detector_init :: "tenv \<Rightarrow> tstate \<Rightarrow> unit kresult \<times> tstate" where
  "hiding_readlink_detector_init E s = install_ops E OPS_READLINK (t_exported E ''vfs_readlink'') s"

definition hiding_readlink_detector_exit :: "tenv \<Rightarrow> tstate \<Rightarrow> tstate" where
  "hiding_readlink_detector_exit E s =
     ftrace_filter_remove OPS_READLINK (t_exported E ''vfs_readlink'') (unregister_ftrace_function OPS_READLINK s)"

section \<open>hooks\_write\_detector.c\<close>

text \<open>The file, its dentry and the name of the dentry, each possibly null.\<close>

definition write_handler_pre :: "string option option option \<Rightarrow> verdict" where
  "write_handler_pre file =
     (case file of
        None \<Rightarrow> Silent
      | Some None \<Rightarrow> Silent
      | Some (Some None) \<Rightarrow> Silent
      | Some (Some (Some name)) \<Rightarrow>
          if strcmp0 name ''ftrace_enabled'' \<or> strcmp0 name ''tracing_on'' \<or> strcmp0 name ''current_tracer'' \<or>
             strcmp0 name ''set_ftrace_filter'' \<or> strcmp0 name ''trace_pipe''
          then Alert else Silent)"

definition hooks_write_detector_init :: "tenv \<Rightarrow> tstate \<Rightarrow> unit kresult \<times> tstate" where
  "hooks_write_detector_init E s = register_kprobe E KP_WRITE s"

definition hooks_write_detector_exit :: "tstate \<Rightarrow> tstate" where
  "hooks_write_detector_exit s = unregister_kprobe KP_WRITE s"

section \<open>clear\_taint\_dmesg\_detector.c\<close>

text \<open>The first argument register holds an \<open>int\<close> in its low 32 bits.\<close>

definition dmesg_handler_pre :: "ulong \<Rightarrow> verdict" where
  "dmesg_handler_pre arg =
     (let type = ucast arg :: 32 word
      in if type = 5 then Alert else if type = 2 \<or> type = 3 then Note else Silent)"

definition clear_taint_dmesg_detector_init :: "tenv \<Rightarrow> tstate \<Rightarrow> unit kresult \<times> tstate" where
  "clear_taint_dmesg_detector_init E s = register_kprobe E KP_DMESG s"

definition clear_taint_dmesg_detector_exit :: "tstate \<Rightarrow> tstate" where
  "clear_taint_dmesg_detector_exit s = unregister_kprobe KP_DMESG s"

section \<open>lkrg\_bypass\_detector.c\<close>

definition hook_vprintk_emit :: "string option \<Rightarrow> verdict" where
  "hook_vprintk_emit fmt =
     (case fmt of
        None \<Rightarrow> Silent
      | Some f \<Rightarrow> if strstr (cstr f) ''lkrg'' \<or> strstr (cstr f) ''p_lkrg'' \<or> strstr (cstr f) ''LKRG'' then Alert else Silent)"

definition hook_umh_exec :: verdict where
  "hook_umh_exec = Note"

definition lkrg_bypass_detector_init :: "tenv \<Rightarrow> tstate \<Rightarrow> unit kresult \<times> tstate" where
  "lkrg_bypass_detector_init E s =
     (let s = (case install_ops E OPS_VPRINTK (t_exported E ''vprintk_emit'') s of
                 (Inl _, s) \<Rightarrow> s | (Inr _, s) \<Rightarrow> s\<lparr>vprintk_hook_active := True\<rparr>);
          s = (case install_ops E OPS_UMH (t_exported E ''call_usermodehelper_exec'') s of
                 (Inl _, s) \<Rightarrow> s | (Inr _, s) \<Rightarrow> s\<lparr>umh_hook_active := True\<rparr>)
      in if \<not> vprintk_hook_active s \<and> \<not> umh_hook_active s then (Inl ENODEV, s) else (ok, s))"

definition lkrg_bypass_detector_exit :: "tenv \<Rightarrow> tstate \<Rightarrow> tstate" where
  "lkrg_bypass_detector_exit E s =
     (let s = (if vprintk_hook_active s
               then ftrace_filter_remove OPS_VPRINTK (t_exported E ''vprintk_emit'') (unregister_ftrace_function OPS_VPRINTK s)
               else s)
      in if umh_hook_active s
         then ftrace_filter_remove OPS_UMH (t_exported E ''call_usermodehelper_exec'') (unregister_ftrace_function OPS_UMH s)
         else s)"

section \<open>hook\_file\_access.c\<close>

definition sensitive_exact :: "string list" where
  "sensitive_exact = [''/etc/passwd'', ''/etc/shadow'', ''/etc/sudoers'']"

definition sensitive_prefix :: "string list" where
  "sensitive_prefix = [''/etc/ssh/'', ''/home/'', ''/root/.ssh/'']"

fun prefix_sensitive :: "string list \<Rightarrow> string \<Rightarrow> bool" where
  "prefix_sensitive [] path = False"
| "prefix_sensitive (p # ps) path =
     (if strncmp0 path p (length p)
      then if strcmp0 p ''/home/''
           then if strstr (cstr path) ''/.ssh/'' then True else prefix_sensitive ps path
           else True
      else prefix_sensitive ps path)"

definition is_sensitive_path :: "string \<Rightarrow> bool" where
  "is_sensitive_path path = (if name_in_table sensitive_exact path then True else prefix_sensitive sensitive_prefix path)"

text \<open>\<open>O_WRONLY\<close>, \<open>O_RDWR\<close>, \<open>O_APPEND\<close>, \<open>O_TRUNC\<close> and \<open>O_CREAT\<close> of the two targets.\<close>

definition is_writeish :: "ulong \<Rightarrow> bool" where
  "is_writeish flags \<longleftrightarrow>
     flags AND 0x1 \<noteq> 0 \<or> flags AND 0x2 \<noteq> 0 \<or> flags AND 0x400 \<noteq> 0 \<or> flags AND 0x200 \<noteq> 0 \<or> flags AND 0x40 \<noteq> 0"

text \<open>
  What the entry handler keeps for the return handler: who calls, and the flags and mode that
  \<open>copy_from_kernel_nofault\<close> reads through the third argument (\<open>None\<close> when it is null or faults).
\<close>

record open_call_ctx =
  ctx_ts_ns :: u64
  ctx_pid :: "32 word"
  ctx_ppid :: "32 word"
  ctx_kuid :: u32
  ctx_kgid :: u32
  ctx_comm :: string
  ctx_flags :: ulong
  ctx_mode :: u16

definition do_filp_open_entry ::
  "u64 \<Rightarrow> task \<Rightarrow> 32 word option \<Rightarrow> u32 \<Rightarrow> u32 \<Rightarrow> (32 word \<times> u16) option \<Rightarrow> open_call_ctx" where
  "do_filp_open_entry ts current real_parent_pid uid gid open_flags =
     \<lparr>ctx_ts_ns = ts, ctx_pid = task_pid current,
      ctx_ppid = (case real_parent_pid of Some p \<Rightarrow> p | None \<Rightarrow> - 1),
      ctx_kuid = uid, ctx_kgid = gid, ctx_comm = task_comm current,
      ctx_flags = (case open_flags of Some (f, _) \<Rightarrow> scast f | None \<Rightarrow> 0),
      ctx_mode = (case open_flags of Some (_, m) \<Rightarrow> m | None \<Rightarrow> 0)\<rparr>"

datatype file_alert = FileRead | FileWriteAttempt

text \<open>
  The opened file is \<open>None\<close> for a null or error pointer; else the result of \<open>d_path\<close> (an error is \<open>None\<close>)
  and the flags of the file.  The result is the line that is logged.
\<close>

definition do_filp_open_ret ::
  "open_call_ctx \<Rightarrow> (string option \<times> u32) option \<Rightarrow> (string \<times> ulong \<times> file_alert) option" where
  "do_filp_open_ret ctx filep =
     (case filep of
        None \<Rightarrow> None
      | Some (None, _) \<Rightarrow> None
      | Some (Some resolved, f_flags) \<Rightarrow>
          let sensitive = is_sensitive_path resolved;
              eff_flags = (if ctx_flags ctx \<noteq> 0 then ctx_flags ctx else ucast f_flags);
              write_attempt = is_writeish eff_flags
          in if sensitive then Some (resolved, eff_flags, if write_attempt then FileWriteAttempt else FileRead) else None)"

definition file_access_detector_init :: "tenv \<Rightarrow> tstate \<Rightarrow> unit kresult \<times> tstate" where
  "file_access_detector_init E s =
     (case kcall (t_register_kretprobe E) s of
        (Inl e, s) \<Rightarrow> (Inl e, s)
      | (Inr _, s) \<Rightarrow> (ok, s\<lparr>live := insert RP_FILP_OPEN (live s)\<rparr>))"

definition file_access_detector_exit :: "tstate \<Rightarrow> tstate" where
  "file_access_detector_exit s = s\<lparr>live := live s - {RP_FILP_OPEN}\<rparr>"

section \<open>The detectors keep their contract\<close>

lemmas syscall_detectors = trace_pid_detector_init_def trace_pid_detector_exit_def hiding_chdir_detector_init_def
  hiding_chdir_detector_exit_def hiding_readlink_detector_init_def hiding_readlink_detector_exit_def
  hooks_write_detector_init_def hooks_write_detector_exit_def clear_taint_dmesg_detector_init_def
  clear_taint_dmesg_detector_exit_def file_access_detector_init_def file_access_detector_exit_def

interpretation trace_pid: detector coherent "{OPS_TRACE_PID}" "trace_pid_detector_init E" "trace_pid_detector_exit E" for E
  by unfold_locales
    (auto simp: syscall_detectors install_ops_def kernel_calls coherent_def split: sum.splits prod.splits)

interpretation hiding_readlink: detector coherent "{OPS_READLINK}" "hiding_readlink_detector_init E"
  "hiding_readlink_detector_exit E" for E
  by unfold_locales
    (auto simp: syscall_detectors install_ops_def kernel_calls coherent_def split: sum.splits prod.splits)

interpretation hiding_chdir: detector coherent "{KP_CHDIR}" "hiding_chdir_detector_init E" hiding_chdir_detector_exit for E
  by unfold_locales
    (auto simp: syscall_detectors kernel_calls coherent_def intro!: removable_kp_addr split: sum.splits prod.splits if_splits)

interpretation hooks_write: detector coherent "{KP_WRITE}" "hooks_write_detector_init E" hooks_write_detector_exit for E
  by unfold_locales
    (auto simp: syscall_detectors kernel_calls coherent_def intro!: removable_kp_addr split: sum.splits prod.splits if_splits)

interpretation clear_taint_dmesg: detector coherent "{KP_DMESG}" "clear_taint_dmesg_detector_init E"
  clear_taint_dmesg_detector_exit for E
  by unfold_locales
    (auto simp: syscall_detectors kernel_calls coherent_def intro!: removable_kp_addr split: sum.splits prod.splits if_splits)

interpretation file_access: detector coherent "{RP_FILP_OPEN}" "file_access_detector_init E" file_access_detector_exit for E
  by unfold_locales
    (auto simp: syscall_detectors kernel_calls coherent_def split: sum.splits prod.splits)

lemma flagged_install:
  fixes E :: tenv and a :: ulong
  assumes "coherent s" "h \<notin> live s"
    and set: "\<And>s. live (mark s) = live s" "\<And>s x. removable (mark s) x \<longleftrightarrow> x = h \<or> removable s x"
  defines "s' \<equiv> (case install_ops E h a s of (Inl _, t) \<Rightarrow> t | (Inr _, t) \<Rightarrow> mark t)"
  shows "coherent s' \<and> (live s' = live s \<or> live s' = insert h (live s) \<and> (\<exists>t. s' = mark t))"
proof (cases rule: install_ops_cases [of E h a s])
  case (failed e n f)
  then show ?thesis using assms(1) unfolding s'_def by (simp add: coherent_def)
next
  case (installed n)
  then show ?thesis using assms(1) unfolding s'_def by (auto simp: coherent_def set)
qed

lemma install_ops_flags:
  "vprintk_hook_active (snd (install_ops E h a s)) = vprintk_hook_active s"
  "umh_hook_active (snd (install_ops E h a s)) = umh_hook_active s"
  by (rule install_ops_cases [of E h a s]; simp)+

lemma lkrg_init_result:
  assumes s: "coherent s" "live s \<inter> {OPS_VPRINTK, OPS_UMH} = {}"
  shows "coherent (snd (lkrg_bypass_detector_init E s)) \<and>
    live s \<subseteq> live (snd (lkrg_bypass_detector_init E s)) \<and>
    live (snd (lkrg_bypass_detector_init E s)) \<subseteq> live s \<union> {OPS_VPRINTK, OPS_UMH} \<and>
    (failed (fst (lkrg_bypass_detector_init E s)) \<longrightarrow> live (snd (lkrg_bypass_detector_init E s)) = live s)"
proof -
  define s1 where "s1 = (case install_ops E OPS_VPRINTK (t_exported E ''vprintk_emit'') s of
     (Inl _, t) \<Rightarrow> t | (Inr _, t) \<Rightarrow> t\<lparr>vprintk_hook_active := True\<rparr>)"
  define s2 where "s2 = (case install_ops E OPS_UMH (t_exported E ''call_usermodehelper_exec'') s1 of
     (Inl _, t) \<Rightarrow> t | (Inr _, t) \<Rightarrow> t\<lparr>umh_hook_active := True\<rparr>)"
  have init: "lkrg_bypass_detector_init E s =
      (if \<not> vprintk_hook_active s2 \<and> \<not> umh_hook_active s2 then (Inl ENODEV, s2) else (ok, s2))"
    by (simp add: lkrg_bypass_detector_init_def s1_def s2_def)
  have 1: "coherent s1 \<and> (live s1 = live s \<or> live s1 = insert OPS_VPRINTK (live s) \<and> (\<exists>t. s1 = t\<lparr>vprintk_hook_active := True\<rparr>))"
    unfolding s1_def by (rule flagged_install) (use s in auto)
  then have "coherent s1" "OPS_UMH \<notin> live s1" using s(2) by auto
  then have 2: "coherent s2 \<and> (live s2 = live s1 \<or> live s2 = insert OPS_UMH (live s1) \<and> (\<exists>t. s2 = t\<lparr>umh_hook_active := True\<rparr>))"
    unfolding s2_def by (intro flagged_install) auto
  from 1 have v: "live s1 = live s \<or> live s1 = insert OPS_VPRINTK (live s) \<and> vprintk_hook_active s1" by auto
  from 2 have u: "live s2 = live s1 \<or> live s2 = insert OPS_UMH (live s1) \<and> umh_hook_active s2" by auto
  have keep: "vprintk_hook_active s2 = vprintk_hook_active s1"
    unfolding s2_def using install_ops_flags(1) [of E OPS_UMH "t_exported E ''call_usermodehelper_exec''" s1]
    by (simp add: split_beta split: sum.split)
  show ?thesis unfolding init using v u 2 keep by auto
qed

interpretation lkrg_bypass: detector coherent "{OPS_VPRINTK, OPS_UMH}" "lkrg_bypass_detector_init E"
  "lkrg_bypass_detector_exit E" for E
proof (unfold_locales, goal_cases)
  case (1 s)
  then show ?case using lkrg_init_result by blast
next
  case (2 s e)
  then show ?case using lkrg_init_result [of s E] by simp
next
  case (3 s)
  then show ?case using lkrg_init_result [of s E] by simp
next
  case (4 s)
  then show ?case by (auto simp: lkrg_bypass_detector_exit_def kernel_calls coherent_def Let_def)
next
  case (5 s)
  then show ?case by (auto simp: lkrg_bypass_detector_exit_def kernel_calls coherent_def Let_def)
qed

section \<open>Property: opening sensitive files\<close>

lemma strncmp0_prefix:
  "CHR 0x00 \<notin> set p \<Longrightarrow> strncmp0 path p (length p) \<longleftrightarrow> (\<exists>rest. cstr path = p @ rest)"
  by (auto simp: strncmp0_def cstr_plain) (metis append_take_drop_id)

lemma prefix_sensitive_iff:
  "\<forall>p \<in> set ps. CHR 0x00 \<notin> set p \<Longrightarrow>
   prefix_sensitive ps path \<longleftrightarrow>
     (\<exists>p \<in> set ps. (\<exists>rest. cstr path = p @ rest) \<and> (p = ''/home/'' \<longrightarrow> strstr (cstr path) ''/.ssh/''))"
proof (induction ps)
  case (Cons p ps)
  then have p: "strncmp0 path p (length p) \<longleftrightarrow> (\<exists>rest. cstr path = p @ rest)" "strcmp0 p ''/home/'' \<longleftrightarrow> p = ''/home/''"
    by (simp_all add: strncmp0_prefix strcmp0_def cstr_plain)
  from Cons show ?case unfolding prefix_sensitive.simps p by auto
qed simp

lemma sensitive_path_iff:
  "is_sensitive_path path \<longleftrightarrow>
     cstr path \<in> set sensitive_exact \<or>
     (\<exists>p \<in> set sensitive_prefix. (\<exists>rest. cstr path = p @ rest) \<and>
        (p = ''/home/'' \<longrightarrow> (\<exists>u v. cstr path = u @ ''/.ssh/'' @ v)))"
proof -
  have plain: "\<forall>p \<in> set sensitive_prefix. CHR 0x00 \<notin> set p" by (simp add: sensitive_prefix_def)
  have exact: "name_in_table sensitive_exact path \<longleftrightarrow> cstr path \<in> set sensitive_exact"
    by (simp add: name_in_table_iff sensitive_exact_def cstr_def)
  show ?thesis unfolding is_sensitive_path_def exact prefix_sensitive_iff [OF plain] strstr_iff by simp
qed

lemma writeish_bits: "is_writeish flags \<longleftrightarrow> (\<exists>n \<in> {0, 1, 6, 9, 10}. bit flags n)"
proof -
  have mask: "flags AND push_bit n 1 \<noteq> 0 \<longleftrightarrow> bit flags n" if "n < 64" for n
    using that by (simp add: and_exp_eq_0_iff_not_bit push_bit_eq_mult)
  from mask [of 0] mask [of 1] mask [of 6] mask [of 9] mask [of 10] show ?thesis
    by (simp add: is_writeish_def push_bit_eq_mult) blast
qed

text \<open>
  C28. Opening sensitive files.  The return handler on \<open>do_filp_open\<close> logs a line exactly when the file was
  opened, its path could be resolved, and the path is one of the three account files, lies under
  \<open>/etc/ssh/\<close> or \<open>/root/.ssh/\<close>, or lies under \<open>/home/\<close> and contains \<open>/.ssh/\<close>.  It says WRITE_ATTEMPT exactly
  when the flags (those captured on entry, or those of the file if none were captured) have one
  of the bits of \<open>O_WRONLY\<close>, \<open>O_RDWR\<close>, \<open>O_CREAT\<close>, \<open>O_TRUNC\<close> and \<open>O_APPEND\<close>.
\<close>

theorem sensitive_open_is_logged:
  "do_filp_open_ret ctx (Some (Some path, f_flags)) =
     (let p = takeWhile (\<lambda>c. c \<noteq> CHR 0x00) path;
          flags = (if ctx_flags ctx = 0 then ucast f_flags else ctx_flags ctx);
          under = (\<lambda>d. \<exists>rest. p = d @ rest);
          account = (p = ''/etc/passwd'' \<or> p = ''/etc/shadow'' \<or> p = ''/etc/sudoers'');
          ssh = (under ''/etc/ssh/'' \<or> under ''/root/.ssh/'' \<or> under ''/home/'' \<and> (\<exists>u v. p = u @ ''/.ssh/'' @ v))
      in if account \<or> ssh
         then Some (path, flags, if \<exists>n \<in> {0, 1, 6, 9, 10}. bit flags n then FileWriteAttempt else FileRead)
         else None) \<and>
   do_filp_open_ret ctx None = None \<and> do_filp_open_ret ctx (Some (None, f_flags)) = None"
proof -
  let ?p = "cstr path"
  have "is_sensitive_path path \<longleftrightarrow> (?p = ''/etc/passwd'' \<or> ?p = ''/etc/shadow'' \<or> ?p = ''/etc/sudoers'') \<or>
      ((\<exists>rest. ?p = ''/etc/ssh/'' @ rest) \<or> (\<exists>rest. ?p = ''/root/.ssh/'' @ rest) \<or>
       (\<exists>rest. ?p = ''/home/'' @ rest) \<and> (\<exists>u v. ?p = u @ ''/.ssh/'' @ v))"
    unfolding sensitive_path_iff sensitive_exact_def sensitive_prefix_def by auto
  then show ?thesis unfolding do_filp_open_ret_def cstr_def [symmetric] Let_def writeish_bits by simp
qed

theorem sensitive_open_is_logged_witness:
  "do_filp_open_ret (do_filp_open_entry 0 \<lparr>task_pid = 7, task_comm = ''vi''\<rparr> (Some 1) 0 0 None)
     (Some (Some ''/etc/shadow'', 2)) = Some (''/etc/shadow'', 2, FileWriteAttempt)"
proof -
  have "bit (2 :: ulong) 1" by (simp add: bit_2_iff)
  then show ?thesis
    using sensitive_open_is_logged [of "do_filp_open_entry 0 \<lparr>task_pid = 7, task_comm = ''vi''\<rparr> (Some 1) 0 0 None" "''/etc/shadow''" 2]
    by (simp add: do_filp_open_entry_def)
qed

end
