(* ===== verification/Hiding_Detectors.thy ===== *)
theory Hiding_Detectors
  imports Syscall_Detectors
begin

text \<open>
  \<open>modules/hiding_stat.c\<close> and \<open>modules/hiding_directory.c\<close>.  The task list and the VFS are parameters.  The
  event that \<open>hiding_stat.c\<close> logs uses a struct and constants that no header defines, so a handler is
  modelled up to the decision what to log (\<open>stat_finding\<close>).  Both detectors count the hooks they
  install and choose by that count which ones they remove.
\<close>

section \<open>hiding\_stat.c: cross-verification\<close>

text \<open>
  The kernel's own view: which pids have a task, what a path resolves to (\<open>None\<close> when \<open>kern_path\<close>
  fails; the inode, if any, is its link count and whether it is a directory).
\<close>

record kernel_view =
  has_task :: "int \<Rightarrow> bool"
  kern_path :: "string \<Rightarrow> (u32 \<times> bool) option option"

definition is_digit :: "char \<Rightarrow> bool" where
  "is_digit c \<longleftrightarrow> 48 \<le> (of_char c :: nat) \<and> (of_char c :: nat) \<le> 57"

fun digits_value :: "nat \<Rightarrow> string \<Rightarrow> nat" where
  "digits_value acc [] = acc"
| "digits_value acc (c # cs) = digits_value (10 * acc + (of_char c - 48)) cs"

text \<open>\<open>kstrtoint(buf, 10, &pid)\<close> on a string of digits: an error when the value exceeds \<open>INT_MAX\<close>.\<close>

definition kstrtoint :: "string \<Rightarrow> int option" where
  "kstrtoint buf = (let v = digits_value 0 buf in if v < 2 ^ 31 then Some (int v) else None)"

definition extract_proc_pid :: "string \<Rightarrow> int" where
  "extract_proc_pid path =
     (if \<not> strncmp0 path ''/proc/'' 6 then - 1
      else
        let p = drop 6 (cstr path);
            buf = takeWhile is_digit (take 15 p)
        in if length buf = 0 then - 1
           else (case kstrtoint buf of None \<Rightarrow> - 1 | Some pid \<Rightarrow> pid))"

definition photon_pid_has_task :: "kernel_view \<Rightarrow> int \<Rightarrow> bool" where
  "photon_pid_has_task V nr = has_task V nr"

definition path_exists_in_vfs :: "kernel_view \<Rightarrow> string \<Rightarrow> bool" where
  "path_exists_in_vfs V path = (case kern_path V path of Some _ \<Rightarrow> True | None \<Rightarrow> False)"

definition get_real_nlink :: "kernel_view \<Rightarrow> string \<Rightarrow> u32 \<times> bool" where
  "get_real_nlink V path =
     (case kern_path V path of
        Some (Some (nlink, dir)) \<Rightarrow> (nlink, dir)
      | _ \<Rightarrow> (0, False))"

text \<open>
  The event that is logged.  No header defines \<open>struct stat_event_data\<close>, so the strings stand as they
  are copied, without the cut at the size of the members, and flags and types stand for their constants.
\<close>

datatype stat_type = PHOTON_EVENT_STAT_PATH_HIDDEN | PHOTON_EVENT_STAT_NLINK_AUDIT | PHOTON_EVENT_STAT_PID_AUDIT

datatype stat_flag = STAT_FLAG_TASK_EXISTS | STAT_FLAG_VFS_MISSING | STAT_FLAG_IS_DIR

record stat_event =
  st_type :: stat_type
  st_syscall_name :: string
  st_path :: string
  st_caller_comm :: string
  st_caller_pid :: u32
  st_target_pid :: u32
  st_real_nlink :: u32
  st_flags :: "stat_flag set"

text \<open>The two \<open>__ratelimit\<close> calls are arguments.\<close>

definition analyze_stat_path :: "kernel_view \<Rightarrow> bool \<Rightarrow> bool \<Rightarrow> task \<Rightarrow> string \<Rightarrow> string \<Rightarrow> stat_event option" where
  "analyze_stat_path V stat_rl nlink_rl current path syscall_name =
     (let proc_pid = extract_proc_pid path;
          event_data = \<lparr>st_type = PHOTON_EVENT_STAT_PATH_HIDDEN, st_syscall_name = syscall_name, st_path = path,
            st_caller_comm = task_comm current, st_caller_pid = task_pid current, st_target_pid = of_int proc_pid,
            st_real_nlink = 0, st_flags = {STAT_FLAG_TASK_EXISTS}\<rparr>
      in if proc_pid > 0 then
           let task_exists = photon_pid_has_task V proc_pid;
               vfs_exists = path_exists_in_vfs V path
           in if task_exists \<and> \<not> vfs_exists
              then Some (event_data\<lparr>st_flags := {STAT_FLAG_TASK_EXISTS, STAT_FLAG_VFS_MISSING}\<rparr>)
              else if task_exists \<and> vfs_exists then (if stat_rl then Some event_data else None)
              else None
         else
           let (real_nlink, is_dir) = get_real_nlink V path
           in if is_dir \<and> real_nlink > 0 \<and> nlink_rl
              then Some (event_data\<lparr>st_type := PHOTON_EVENT_STAT_NLINK_AUDIT, st_target_pid := 0,
                     st_real_nlink := real_nlink, st_flags := {STAT_FLAG_IS_DIR}\<rparr>)
              else None)"

definition MAX_PATH_LEN :: nat where "MAX_PATH_LEN = 256"

text \<open>
  \<open>hook_stat_di\<close> and \<open>hook_stat_si\<close> differ in the register they read and in the name they report.  The
  registers of the system call may be missing, the path pointer null, and the user memory
  unreadable; \<open>regs\<close> holds what the first and the second argument point to.
\<close>

definition hook_stat_path ::
  "kernel_view \<Rightarrow> bool \<Rightarrow> bool \<Rightarrow> task \<Rightarrow> string option option option \<Rightarrow> string \<Rightarrow> stat_event option" where
  "hook_stat_path V stat_rl nlink_rl current pathname syscall_name =
     (case pathname of
        Some (Some user) \<Rightarrow>
          (case strncpy_from_user user MAX_PATH_LEN of
             None \<Rightarrow> None
           | Some kbuf \<Rightarrow>
               if length kbuf = 0 then None
               else analyze_stat_path V stat_rl nlink_rl current (take (MAX_PATH_LEN - 1) kbuf) syscall_name)
      | _ \<Rightarrow> None)"

definition hook_stat_di ::
  "kernel_view \<Rightarrow> bool \<Rightarrow> bool \<Rightarrow> task \<Rightarrow> (string option option \<times> string option option) option \<Rightarrow> stat_event option" where
  "hook_stat_di V stat_rl nlink_rl current regs =
     hook_stat_path V stat_rl nlink_rl current (map_option fst regs) ''stat''"

definition hook_stat_si ::
  "kernel_view \<Rightarrow> bool \<Rightarrow> bool \<Rightarrow> task \<Rightarrow> (string option option \<times> string option option) option \<Rightarrow> stat_event option" where
  "hook_stat_si V stat_rl nlink_rl current regs =
     hook_stat_path V stat_rl nlink_rl current (map_option snd regs) ''fstatat''"

definition hook_getpriority_cb :: "kernel_view \<Rightarrow> bool \<Rightarrow> task \<Rightarrow> (ulong \<times> ulong) option \<Rightarrow> stat_event option" where
  "hook_getpriority_cb V getprio_rl current regs =
     (case regs of
        None \<Rightarrow> None
      | Some (arg0, arg1) \<Rightarrow>
          let which = sint (ucast arg0 :: 32 word); who = sint (ucast arg1 :: 32 word)
          in if which \<noteq> 0 \<or> who \<le> 0 then None
             else if photon_pid_has_task V who \<and> getprio_rl
             then Some \<lparr>st_type = PHOTON_EVENT_STAT_PID_AUDIT, st_syscall_name = ''getpriority'', st_path = '''',
                    st_caller_comm = task_comm current, st_caller_pid = task_pid current, st_target_pid = of_int who,
                    st_real_nlink = 0, st_flags = {STAT_FLAG_TASK_EXISTS}\<rparr>
             else None)"

section \<open>Installing and removing by count\<close>

text \<open>
  The loop of \<open>setup_ftrace_filter\<close>, the same in both files; the names that exist are decided by
  \<open>ftrace_set_filter\<close>.
\<close>

fun set_filters :: "tenv \<Rightarrow> string list \<Rightarrow> bool \<Rightarrow> tstate \<Rightarrow> bool \<times> tstate" where
  "set_filters E [] has_filter s = (has_filter, s)"
| "set_filters E (name # names) has_filter s =
     (case kcall (t_set_filter E) s of
        (Inl _, s) \<Rightarrow> set_filters E names has_filter s
      | (Inr _, s) \<Rightarrow> set_filters E names True s)"

definition setup_ftrace_filter :: "tenv \<Rightarrow> string list \<Rightarrow> tstate \<Rightarrow> unit kresult \<times> tstate" where
  "setup_ftrace_filter E names s =
     (let (has_filter, s) = set_filters E names False s in (if has_filter then ok else Inl ENOENT, s))"

text \<open>The names on x86\_64; on ARM64 only the prefix differs.\<close>

definition stat_di_names :: "string list" where
  "stat_di_names = [''__x64_sys_newstat'', ''__x64_sys_newlstat'', ''__x64_sys_stat'', ''__x64_sys_lstat'']"

definition stat_si_names :: "string list" where
  "stat_si_names = [''__x64_sys_newfstatat'', ''__x64_sys_statx'']"

text \<open>
  One group: set the filter, then register.  \<open>Inl e\<close> is the \<open>goto err_cleanup\<close> after a failed
  registration; a filter that cannot be set only skips the group.
\<close>

definition install_group ::
  "(tstate \<Rightarrow> unit kresult \<times> tstate) \<Rightarrow> tenv \<Rightarrow> hook \<Rightarrow> tstate \<Rightarrow> unit kresult \<times> tstate" where
  "install_group setup_filter E ops s =
     (case setup_filter s of
        (Inl _, s) \<Rightarrow> (ok, s)
      | (Inr _, s) \<Rightarrow>
          (case register_ftrace_function E ops s of
             (Inl e, s) \<Rightarrow> (Inl e, s)
           | (Inr _, s) \<Rightarrow> (ok, s\<lparr>hooks_installed := Suc (hooks_installed s)\<rparr>)))"

definition stat_err_cleanup :: "tstate \<Rightarrow> tstate" where
  "stat_err_cleanup s =
     (let n = hooks_installed s;
          s = (if n \<ge> 2 then unregister_ftrace_function OPS_STAT_SI s else s);
          s = (if n \<ge> 1 then unregister_ftrace_function OPS_STAT_DI s else s)
      in s\<lparr>hooks_installed := 0\<rparr>)"

definition hiding_stat_init :: "tenv \<Rightarrow> tstate \<Rightarrow> unit kresult \<times> tstate" where
  "hiding_stat_init E s =
     (case install_group (setup_ftrace_filter E stat_di_names) E OPS_STAT_DI (s\<lparr>hooks_installed := 0\<rparr>) of
        (Inl e, s) \<Rightarrow> (Inl e, s)
      | (Inr _, s) \<Rightarrow>
          (case install_group (setup_ftrace_filter E stat_si_names) E OPS_STAT_SI s of
             (Inl e, s) \<Rightarrow> (Inl e, stat_err_cleanup s)
           | (Inr _, s) \<Rightarrow>
               (case install_group (kcall (t_set_filter E)) E OPS_GETPRIORITY s of
                  (Inl e, s) \<Rightarrow> (Inl e, stat_err_cleanup s)
                | (Inr _, s) \<Rightarrow> if hooks_installed s = 0 then (Inl ENOENT, s) else (ok, s))))"

definition hiding_stat_exit :: "tstate \<Rightarrow> tstate" where
  "hiding_stat_exit s =
     (let n = hooks_installed s;
          s = (if n \<ge> 3 then unregister_ftrace_function OPS_GETPRIORITY s else s);
          s = (if n \<ge> 2 then unregister_ftrace_function OPS_STAT_SI s else s);
          s = (if n \<ge> 1 then unregister_ftrace_function OPS_STAT_DI s else s)
      in s\<lparr>hooks_installed := 0\<rparr>)"

section \<open>hiding\_directory.c\<close>

text \<open>
  \<open>fget\<close> and \<open>d_path\<close>: the file table gives no file (\<open>None\<close>), or a file whose path may not fit the buffer.
\<close>

definition get_fd_path :: "(int \<Rightarrow> string option option) \<Rightarrow> int \<Rightarrow> string option" where
  "get_fd_path fdtable fd = (case fdtable fd of None \<Rightarrow> None | Some None \<Rightarrow> None | Some (Some p) \<Rightarrow> Some p)"

text \<open>The logged line: the system call and the directory.\<close>

definition analyze_directory :: "bool \<Rightarrow> string \<Rightarrow> string \<Rightarrow> (string \<times> string) option" where
  "analyze_directory dir_rl path syscall = (if dir_rl then Some (syscall, path) else None)"

definition hook_getdents_common ::
  "(int \<Rightarrow> string option option) \<Rightarrow> bool \<Rightarrow> string \<Rightarrow> ulong option \<Rightarrow> (string \<times> string) option" where
  "hook_getdents_common fdtable dir_rl syscall regs =
     (case regs of
        None \<Rightarrow> None
      | Some arg \<Rightarrow>
          (case get_fd_path fdtable (sint (ucast arg :: 32 word)) of
             None \<Rightarrow> None
           | Some path \<Rightarrow> analyze_directory dir_rl path syscall))"

definition hook_getdents :: "(int \<Rightarrow> string option option) \<Rightarrow> bool \<Rightarrow> ulong option \<Rightarrow> (string \<times> string) option" where
  "hook_getdents fdtable dir_rl regs = hook_getdents_common fdtable dir_rl ''getdents'' regs"

definition hook_getdents64 :: "(int \<Rightarrow> string option option) \<Rightarrow> bool \<Rightarrow> ulong option \<Rightarrow> (string \<times> string) option" where
  "hook_getdents64 fdtable dir_rl regs = hook_getdents_common fdtable dir_rl ''getdents64'' regs"

definition hiding_directory_init :: "tenv \<Rightarrow> tstate \<Rightarrow> unit kresult \<times> tstate" where
  "hiding_directory_init E s =
     (let s = s\<lparr>dir_hooks_installed := 0\<rparr>;
          second = (\<lambda>s.
            case setup_ftrace_filter E [''__x64_sys_getdents64''] s of
              (Inl _, s) \<Rightarrow> if dir_hooks_installed s = 0 then (Inl ENOENT, s) else (ok, s)
            | (Inr _, s) \<Rightarrow>
                (case register_ftrace_function E OPS_GETDENTS64 s of
                   (Inl e, s) \<Rightarrow>
                     (Inl e, (if dir_hooks_installed s \<ge> 1 then unregister_ftrace_function OPS_GETDENTS s else s)
                               \<lparr>dir_hooks_installed := 0\<rparr>)
                 | (Inr _, s) \<Rightarrow> (ok, s\<lparr>dir_hooks_installed := Suc (dir_hooks_installed s)\<rparr>)))
      in case setup_ftrace_filter E [''__x64_sys_getdents''] s of
           (Inl _, s) \<Rightarrow> second s
         | (Inr _, s) \<Rightarrow>
             (case register_ftrace_function E OPS_GETDENTS s of
                (Inl e, s) \<Rightarrow> (Inl e, s)
              | (Inr _, s) \<Rightarrow> second (s\<lparr>dir_hooks_installed := Suc (dir_hooks_installed s)\<rparr>)))"

definition hiding_directory_exit :: "tstate \<Rightarrow> tstate" where
  "hiding_directory_exit s =
     (let n = dir_hooks_installed s;
          s = (if n \<ge> 2 then unregister_ftrace_function OPS_GETDENTS64 s else s);
          s = (if n \<ge> 1 then unregister_ftrace_function OPS_GETDENTS s else s)
      in s\<lparr>dir_hooks_installed := 0\<rparr>)"

section \<open>Reading a pid from a path\<close>

lemma dec_digits_are_digits: "c \<in> set (dec_digits n) \<Longrightarrow> is_digit c"
proof (induction n rule: dec_digits.induct)
  case (1 n)
  then show ?case by (auto simp: dec_digits.simps [of n] is_digit_def of_char_of split: if_splits)
qed

lemma digits_value_append: "digits_value acc (xs @ ys) = digits_value (digits_value acc xs) ys"
  by (induction xs arbitrary: acc) simp_all

lemma digits_value_dec_digits: "digits_value 0 (dec_digits n) = n"
proof (induction n rule: dec_digits.induct)
  case (1 n)
  then show ?case by (auto simp: dec_digits.simps [of n] digits_value_append of_char_of)
qed

lemma digits_no_nul: "is_digit c \<Longrightarrow> c \<noteq> CHR 0x00"
  by (auto simp: is_digit_def)

section \<open>What the count removes\<close>

lemma set_filters_state: "snd (set_filters E names f s) = s\<lparr>tick := tick s + length names\<rparr>"
  by (induction names arbitrary: f s) (simp_all add: kcall_def split: sum.split)

lemma setup_filter_state: "snd (setup_ftrace_filter E names s) = s\<lparr>tick := tick s + length names\<rparr>"
  by (simp add: setup_ftrace_filter_def split_beta set_filters_state Let_def)

lemma install_group_cases:
  assumes "\<And>s. \<exists>n. snd (sf s) = s\<lparr>tick := n\<rparr>"
  obtains (refused) e n where "install_group sf E h s = (Inl e, s\<lparr>tick := n\<rparr>)"
  | (skipped) n where "install_group sf E h s = (ok, s\<lparr>tick := n\<rparr>)"
  | (installed) n where "install_group sf E h s =
      (ok, s\<lparr>tick := n, live := insert h (live s), hooks_installed := Suc (hooks_installed s)\<rparr>)"
proof -
  obtain n where n: "snd (sf s) = s\<lparr>tick := n\<rparr>" using assms by blast
  show thesis
  proof (cases "fst (sf s)")
    case (Inl e)
    then have "sf s = (Inl e, s\<lparr>tick := n\<rparr>)" using n by (simp add: prod_eq_iff)
    then show thesis using skipped by (simp add: install_group_def)
  next
    case (Inr u)
    then have "sf s = (ok, s\<lparr>tick := n\<rparr>)" using n by (simp add: prod_eq_iff)
    then show thesis using refused installed
      by (cases "t_register_ftrace E n") (simp_all add: install_group_def register_ftrace_function_def kcall_def)
  qed
qed

lemma stat_groups_tick:
  "\<exists>n. snd (setup_ftrace_filter E names s) = s\<lparr>tick := n\<rparr>" "\<exists>n. snd (kcall (t_set_filter E) s) = s\<lparr>tick := n\<rparr>"
  by (auto simp: setup_filter_state kcall_def)

lemma install_group_ok:
  assumes "\<And>s. \<exists>n. snd (sf s) = s\<lparr>tick := n\<rparr>" "install_group sf E h s = (ok, s')"
  shows "\<exists>b. live s' = live s \<union> (if b then {h} else {}) \<and> hooks_installed s' = hooks_installed s + of_bool b"
proof (cases rule: install_group_cases [of sf E h s, OF assms(1)])
  case 1
  with assms(2) show ?thesis by simp
next
  case (2 n)
  with assms(2) have "s' = s\<lparr>tick := n\<rparr>" by simp
  then have "live s' = live s \<union> (if False then {h} else {}) \<and> hooks_installed s' = hooks_installed s + of_bool False" by simp
  then show ?thesis by blast
next
  case (3 n)
  with assms(2) have "s' = s\<lparr>tick := n, live := insert h (live s), hooks_installed := Suc (hooks_installed s)\<rparr>" by simp
  then have "live s' = live s \<union> (if True then {h} else {}) \<and> hooks_installed s' = hooks_installed s + of_bool True" by simp
  then show ?thesis by blast
qed

lemma hiding_stat_init_ok:
  assumes "hiding_stat_init E s = (ok, s')"
  shows "\<exists>d i g. live s' = live s \<union> (if d then {OPS_STAT_DI} else {}) \<union> (if i then {OPS_STAT_SI} else {}) \<union>
      (if g then {OPS_GETPRIORITY} else {}) \<and> hooks_installed s' = of_bool d + of_bool i + of_bool g"
proof -
  let ?s0 = "s\<lparr>hooks_installed := 0\<rparr>"
  from assms obtain s1 where 1: "install_group (setup_ftrace_filter E stat_di_names) E OPS_STAT_DI ?s0 = (ok, s1)"
    by (auto simp: hiding_stat_init_def split: prod.splits sum.splits)
  with assms obtain s2 where 2: "install_group (setup_ftrace_filter E stat_si_names) E OPS_STAT_SI s1 = (ok, s2)"
    by (auto simp: hiding_stat_init_def split: prod.splits sum.splits)
  with 1 assms have 3: "install_group (kcall (t_set_filter E)) E OPS_GETPRIORITY s2 = (ok, s')"
    by (auto simp: hiding_stat_init_def split: prod.splits sum.splits if_splits)
  obtain d where d: "live s1 = live s \<union> (if d then {OPS_STAT_DI} else {})" "hooks_installed s1 = of_bool d"
    using install_group_ok [OF stat_groups_tick(1) 1] by auto
  obtain i where i: "live s2 = live s1 \<union> (if i then {OPS_STAT_SI} else {})" "hooks_installed s2 = hooks_installed s1 + of_bool i"
    using install_group_ok [OF stat_groups_tick(1) 2] by blast
  obtain g where g: "live s' = live s2 \<union> (if g then {OPS_GETPRIORITY} else {})" "hooks_installed s' = hooks_installed s2 + of_bool g"
    using install_group_ok [OF stat_groups_tick(2) 3] by blast
  show ?thesis unfolding g i d by blast
qed

section \<open>Properties\<close>



lemma vfs_missing_iff:
  "analyze_stat_path V stat_rl nlink_rl current p name = Some ev \<and> STAT_FLAG_VFS_MISSING \<in> st_flags ev \<longleftrightarrow>
    extract_proc_pid p > 0 \<and> has_task V (extract_proc_pid p) \<and> kern_path V p = None \<and>
    ev = \<lparr>st_type = PHOTON_EVENT_STAT_PATH_HIDDEN, st_syscall_name = name, st_path = p, st_caller_comm = task_comm current,
      st_caller_pid = task_pid current, st_target_pid = of_int (extract_proc_pid p), st_real_nlink = 0,
      st_flags = {STAT_FLAG_TASK_EXISTS, STAT_FLAG_VFS_MISSING}\<rparr>"
proof (cases "extract_proc_pid p > 0")
  case True
  then show ?thesis
    by (cases "has_task V (extract_proc_pid p)"; cases "kern_path V p"; cases stat_rl)
      (auto simp: analyze_stat_path_def photon_pid_has_task_def path_exists_in_vfs_def Let_def)
next
  case False
  then show ?thesis by (auto simp: analyze_stat_path_def Let_def split_beta)
qed

lemma stat_path_reported:
  assumes "length (cstr path) < 256"
  shows "hook_stat_path V stat_rl nlink_rl current (Some (Some (Some path))) name = Some ev \<and> STAT_FLAG_VFS_MISSING \<in> st_flags ev \<longleftrightarrow>
    extract_proc_pid (cstr path) > 0 \<and> has_task V (extract_proc_pid (cstr path)) \<and> kern_path V (cstr path) = None \<and>
    ev = \<lparr>st_type = PHOTON_EVENT_STAT_PATH_HIDDEN, st_syscall_name = name, st_path = cstr path, st_caller_comm = task_comm current,
      st_caller_pid = task_pid current, st_target_pid = of_int (extract_proc_pid (cstr path)), st_real_nlink = 0,
      st_flags = {STAT_FLAG_TASK_EXISTS, STAT_FLAG_VFS_MISSING}\<rparr>"
proof -
  have "hook_stat_path V stat_rl nlink_rl current (Some (Some (Some path))) name =
      (if cstr path = '''' then None else analyze_stat_path V stat_rl nlink_rl current (cstr path) name)"
    using assms by (simp add: hook_stat_path_def strncpy_from_user_def MAX_PATH_LEN_def)
  moreover have "extract_proc_pid '''' = - 1" by (simp add: extract_proc_pid_def strncmp0_def cstr_def)
  ultimately show ?thesis using vfs_missing_iff [of V stat_rl nlink_rl current "cstr path" name ev] by simp
qed

text \<open>
  Hidden processes.  A \<open>stat\<close> call of a readable path of fewer than 256 characters logs an event with the
  flag VFS_MISSING exactly when the path leads to or below the \<open>/proc\<close> directory of a positive pid, the task
  list has the pid and the VFS does not resolve the path; the event then names the pid, the path and the
  caller, and it is not rate limited.
\<close>

theorem hidden_process_is_reported:
  assumes "length (takeWhile (\<lambda>c. c \<noteq> CHR 0x00) path) < 256"
  defines "p \<equiv> takeWhile (\<lambda>c. c \<noteq> CHR 0x00) path"
  shows "hook_stat_di V stat_rl nlink_rl current (Some (Some (Some path), arg1)) = Some ev \<and> STAT_FLAG_VFS_MISSING \<in> st_flags ev \<longleftrightarrow>
    extract_proc_pid p > 0 \<and> has_task V (extract_proc_pid p) \<and> kern_path V p = None \<and>
    ev = \<lparr>st_type = PHOTON_EVENT_STAT_PATH_HIDDEN, st_syscall_name = ''stat'', st_path = p, st_caller_comm = task_comm current,
      st_caller_pid = task_pid current, st_target_pid = of_int (extract_proc_pid p), st_real_nlink = 0,
      st_flags = {STAT_FLAG_TASK_EXISTS, STAT_FLAG_VFS_MISSING}\<rparr>"
  using stat_path_reported [OF assms(1) [folded cstr_def], of V stat_rl nlink_rl current "''stat''" ev]
  by (simp add: hook_stat_di_def p_def cstr_def)

theorem hidden_process_is_reported_witness:
  "\<exists>ev. hook_stat_di \<lparr>has_task = (\<lambda>pid. pid = 4711), kern_path = (\<lambda>_. None)\<rparr> False False \<lparr>task_pid = 7, task_comm = ''ls''\<rparr>
      (Some (Some (Some ''/proc/4711''), None)) = Some ev \<and> st_target_pid ev = 4711"
proof -
  let ?V = "\<lparr>has_task = (\<lambda>pid. pid = 4711), kern_path = (\<lambda>_. None)\<rparr>"
  have pid: "extract_proc_pid ''/proc/4711'' = 4711"
    by (simp add: extract_proc_pid_def strncmp0_def cstr_def is_digit_def kstrtoint_def Let_def)
  have path: "takeWhile (\<lambda>c. c \<noteq> CHR 0x00) ''/proc/4711'' = ''/proc/4711''" by simp
  have short: "length (takeWhile (\<lambda>c. c \<noteq> CHR 0x00) ''/proc/4711'') < 256" by simp
  note iff = hidden_process_is_reported [OF short, of ?V False False "\<lparr>task_pid = 7, task_comm = ''ls''\<rparr>" None, unfolded path pid]
  note event = iffD2 [OF iff, OF conjI [OF _ conjI [OF _ conjI [OF _ refl]]]]
  show ?thesis by (rule exI, rule conjI, rule conjunct1, rule event) simp_all
qed

text \<open>
  C36. Removal by count.  After a successful \<open>hiding_stat_init\<close> the exit function removes everything the
  detector installed if and only if the installed groups form a prefix of the order stat, fstatat,
  getpriority.  When an earlier group was skipped, a hook stays registered.
\<close>

theorem hiding_stat_exit_removes_prefix:
  assumes "hiding_stat_init E s = (ok, s')" "live s \<inter> {OPS_STAT_DI, OPS_STAT_SI, OPS_GETPRIORITY} = {}"
  shows "live (hiding_stat_exit s') = live s \<longleftrightarrow>
    (OPS_STAT_SI \<in> live s' \<longrightarrow> OPS_STAT_DI \<in> live s') \<and> (OPS_GETPRIORITY \<in> live s' \<longrightarrow> OPS_STAT_SI \<in> live s' \<and> OPS_STAT_DI \<in> live s')"
proof -
  obtain d i g where l: "live s' = live s \<union> (if d then {OPS_STAT_DI} else {}) \<union> (if i then {OPS_STAT_SI} else {}) \<union>
      (if g then {OPS_GETPRIORITY} else {})" "hooks_installed s' = of_bool d + of_bool i + of_bool g"
    using hiding_stat_init_ok [OF assms(1)] by blast
  from assms(2) have fresh: "OPS_STAT_DI \<notin> live s" "OPS_STAT_SI \<notin> live s" "OPS_GETPRIORITY \<notin> live s" by auto
  have exit: "live (hiding_stat_exit s') = live s' - (if hooks_installed s' \<ge> 3 then {OPS_GETPRIORITY} else {}) -
      (if hooks_installed s' \<ge> 2 then {OPS_STAT_SI} else {}) - (if hooks_installed s' \<ge> 1 then {OPS_STAT_DI} else {})"
    by (auto simp: hiding_stat_exit_def unregister_ftrace_function_def Let_def)
  show ?thesis unfolding exit l using fresh by (cases d; cases i; cases g) auto
qed

text \<open>A kernel without the \<open>stat\<close> and \<open>lstat\<close> system calls: the first four filters cannot be set.\<close>

theorem hiding_stat_exit_removes_prefix_witness:
  "OPS_GETPRIORITY \<in> live (snd (hiding_stat_init (demo_tenv\<lparr>t_set_filter := (\<lambda>n. if n < 4 then Inl ENOENT else ok)\<rparr>) tstate_initial)) \<and>
   live (hiding_stat_exit (snd (hiding_stat_init (demo_tenv\<lparr>t_set_filter := (\<lambda>n. if n < 4 then Inl ENOENT else ok)\<rparr>) tstate_initial))) \<noteq> {}"
proof -
  let ?E = "demo_tenv\<lparr>t_set_filter := (\<lambda>n. if n < 4 then Inl ENOENT else ok)\<rparr>"
  let ?i = "hiding_stat_init ?E tstate_initial"
  note run = hiding_stat_init_def install_group_def setup_ftrace_filter_def stat_di_names_def stat_si_names_def
    register_ftrace_function_def kcall_def tstate_initial_def demo_tenv_def
  have i: "fst ?i = ok" "live (snd ?i) = {OPS_GETPRIORITY, OPS_STAT_SI}" by (simp_all add: run)
  then have "?i = (ok, snd ?i)" by (simp add: prod_eq_iff)
  from hiding_stat_exit_removes_prefix [OF this] i(2) show ?thesis by (simp add: initial_coherent)
qed

text \<open>The same holds for \<open>hiding_directory\<close>: with \<open>getdents64\<close> alone, the exit function leaves it registered.\<close>

lemma setup_single: "setup_ftrace_filter E [name] s =
  (case t_set_filter E (tick s) of Inl _ \<Rightarrow> Inl ENOENT | Inr _ \<Rightarrow> ok, s\<lparr>tick := Suc (tick s)\<rparr>)"
  by (simp add: setup_ftrace_filter_def kcall_def split: sum.split)

lemma hiding_directory_init_ok:
  assumes "hiding_directory_init E s = (ok, s')"
  shows "\<exists>a b. live s' = live s \<union> (if a then {OPS_GETDENTS} else {}) \<union> (if b then {OPS_GETDENTS64} else {}) \<and>
    dir_hooks_installed s' = of_bool a + of_bool b \<and> (a \<or> b)"
proof -
  note run = hiding_directory_init_def setup_single register_ftrace_function_def kcall_def Let_def
  show ?thesis
  proof (cases "t_set_filter E (tick s)")
    case (Inl e)
    with assms have "live s' = live s \<union> (if False then {OPS_GETDENTS} else {}) \<union> (if True then {OPS_GETDENTS64} else {}) \<and>
        dir_hooks_installed s' = of_bool False + of_bool True"
      by (auto simp: run split: sum.splits if_splits)
    then show ?thesis by blast
  next
    case (Inr u)
    show ?thesis
    proof (cases "t_set_filter E (Suc (Suc (tick s)))")
      case Inl2: (Inl e)
      with assms Inr have "live s' = live s \<union> (if True then {OPS_GETDENTS} else {}) \<union> (if False then {OPS_GETDENTS64} else {}) \<and>
        dir_hooks_installed s' = of_bool True + of_bool False"
        by (auto simp: run split: sum.splits if_splits)
      then show ?thesis by blast
    next
      case Inr2: (Inr v)
      with assms Inr have "live s' = live s \<union> (if True then {OPS_GETDENTS} else {}) \<union> (if True then {OPS_GETDENTS64} else {}) \<and>
        dir_hooks_installed s' = of_bool True + of_bool True"
        by (auto simp: run split: sum.splits if_splits)
      then show ?thesis by blast
    qed
  qed
qed

lemma hiding_directory_exit_removes_prefix:
  assumes "hiding_directory_init E s = (ok, s')" "live s \<inter> {OPS_GETDENTS, OPS_GETDENTS64} = {}"
  shows "live (hiding_directory_exit s') = live s \<longleftrightarrow> OPS_GETDENTS \<in> live s'"
proof -
  obtain a b where l: "live s' = live s \<union> (if a then {OPS_GETDENTS} else {}) \<union> (if b then {OPS_GETDENTS64} else {})"
    "dir_hooks_installed s' = of_bool a + of_bool b" "a \<or> b"
    using hiding_directory_init_ok [OF assms(1)] by blast
  from assms(2) have fresh: "OPS_GETDENTS \<notin> live s" "OPS_GETDENTS64 \<notin> live s" by auto
  have exit: "live (hiding_directory_exit s') = live s' - (if dir_hooks_installed s' \<ge> 2 then {OPS_GETDENTS64} else {}) -
      (if dir_hooks_installed s' \<ge> 1 then {OPS_GETDENTS} else {})"
    by (auto simp: hiding_directory_exit_def unregister_ftrace_function_def Let_def)
  show ?thesis unfolding exit l using fresh l(3) by (cases a; cases b) auto
qed

end
