(* ===== verification/Main_Module.thy ===== *)
theory Main_Module
  imports Taint_Detector Audit_Detector Privesc_Detector Hiding_Detectors
begin

text \<open>
  \<open>main.c\<close>: the detector registry and the module's init and exit functions.  The table is the one of the
  source without its stray comment terminator.  The entry \<open>taskstats_hook_detector\<close> refers to functions
  that no source file defines; they are arguments of the definitions.
\<close>

section \<open>The registry\<close>

record detector_entry =
  det_name :: string
  det_init :: "tstate \<Rightarrow> unit kresult \<times> tstate"
  det_exit :: "tstate \<Rightarrow> tstate"

definition detectors ::
  "tenv \<Rightarrow> (tstate \<Rightarrow> unit kresult \<times> tstate) \<Rightarrow> (tstate \<Rightarrow> tstate) \<Rightarrow> detector_entry list" where
  "detectors E taskstats_detector_init taskstats_detector_exit =
     [\<lparr>det_name = ''reset_tainted_detector'', det_init = reset_tainted_detector_init E, det_exit = reset_tainted_detector_exit E\<rparr>,
      \<lparr>det_name = ''kprobe_detector'', det_init = kprobe_detector_init E, det_exit = kprobe_detector_exit\<rparr>,
      \<lparr>det_name = ''taskstats_hook_detector'', det_init = taskstats_detector_init, det_exit = taskstats_detector_exit\<rparr>,
      \<lparr>det_name = ''hooking_audit_detector'', det_init = audit_detector_init E, det_exit = audit_detector_exit E\<rparr>,
      \<lparr>det_name = ''tcp_hiding_detector'', det_init = tcp_hiding_detector_init E, det_exit = tcp_hiding_detector_exit\<rparr>,
      \<lparr>det_name = ''become_root_detector'', det_init = become_root_detector_init E, det_exit = become_root_detector_exit\<rparr>,
      \<lparr>det_name = ''bpf_hook_detector'', det_init = bpf_hook_detector_init E, det_exit = bpf_hook_detector_exit\<rparr>,
      \<lparr>det_name = ''kallsyms_detector'', det_init = kallsyms_detector_init E, det_exit = kallsyms_detector_exit\<rparr>,
      \<lparr>det_name = ''ftrace_direct_detector'', det_init = ftrace_direct_detector_init E, det_exit = ftrace_direct_detector_exit\<rparr>]"

text \<open>The loop that starts the detectors, with \<open>active_detectors\<close>, and the loop that stops them in reverse order.\<close>

fun init_detectors :: "detector_entry list \<Rightarrow> tstate \<times> nat \<Rightarrow> unit kresult \<times> tstate \<times> nat" where
  "init_detectors [] (s, active) = (ok, s, active)"
| "init_detectors (d # ds) (s, active) =
     (case det_init d s of
        (Inl e, s) \<Rightarrow> (Inl e, s, active)
      | (Inr _, s) \<Rightarrow> init_detectors ds (s, Suc active))"

fun exit_detectors :: "detector_entry list \<Rightarrow> nat \<Rightarrow> tstate \<Rightarrow> tstate" where
  "exit_detectors ds 0 s = s"
| "exit_detectors ds (Suc i) s = exit_detectors ds i (det_exit (ds ! i) s)"

type_synonym 't photon_state = "'t em_state \<times> tstate \<times> nat"

definition photon_ring_init ::
  "'t kenv \<Rightarrow> tenv \<Rightarrow> (tstate \<Rightarrow> unit kresult \<times> tstate) \<Rightarrow> (tstate \<Rightarrow> tstate) \<Rightarrow> 't photon_state \<Rightarrow>
   (unit kresult \<times> 't photon_state) option" where
  "photon_ring_init K E ts_init ts_exit = (\<lambda>(em, tr, active). do {
     (ret, em) \<leftarrow> event_manager_init K em;
     (case ret of
        Inl e \<Rightarrow> Some (Inl e, em, tr, active)
      | Inr _ \<Rightarrow>
          (case init_detectors (detectors E ts_init ts_exit) (tr, active) of
             (Inl e, tr, active) \<Rightarrow> do {
               let tr = exit_detectors (detectors E ts_init ts_exit) active tr;
               em \<leftarrow> event_manager_exit K em;
               Some (Inl e, em, tr, active)
             }
           | (Inr _, tr, active) \<Rightarrow> Some (ok, em, tr, active)))
   })"

definition photon_ring_exit ::
  "'t kenv \<Rightarrow> tenv \<Rightarrow> (tstate \<Rightarrow> unit kresult \<times> tstate) \<Rightarrow> (tstate \<Rightarrow> tstate) \<Rightarrow> 't photon_state \<Rightarrow>
   't photon_state option" where
  "photon_ring_exit K E ts_init ts_exit = (\<lambda>(em, tr, active). do {
     let tr = exit_detectors (detectors E ts_init ts_exit) active tr;
     em \<leftarrow> event_manager_exit K em;
     Some (em, tr, active)
   })"

section \<open>What the contract of the detectors gives the registry\<close>

text \<open>A table of detectors that keep their contract and own disjoint hooks.\<close>

locale registry =
  fixes coherent :: "tstate \<Rightarrow> bool" and ds :: "detector_entry list" and owned :: "hook set list"
  assumes contracts: "list_all2 (\<lambda>d h. detector coherent h (det_init d) (det_exit d)) ds owned"
    and disjoint: "sorted_wrt (\<lambda>a b. a \<inter> b = {}) owned"
begin

lemma length_owned: "length owned = length ds"
  using contracts by (rule list_all2_lengthD [symmetric])

lemma contract: "i < length ds \<Longrightarrow> detector coherent (owned ! i) (det_init (ds ! i)) (det_exit (ds ! i))"
  using contracts by (simp add: list_all2_conv_all_nth)

lemma disjoint_below: "i < length ds \<Longrightarrow> \<Union>(set (take i owned)) \<inter> owned ! i = {}"
proof -
  assume i: "i < length ds"
  have "owned ! j \<inter> owned ! i = {}" if "j < i" for j
    using sorted_wrt_nth_less [OF disjoint that] i length_owned by simp
  then show ?thesis using i length_owned by (fastforce simp: in_set_conv_nth)
qed

lemma take_Suc_owned: "i < length ds \<Longrightarrow> \<Union>(set (take (Suc i) owned)) = \<Union>(set (take i owned)) \<union> owned ! i"
  using length_owned by (simp add: take_Suc_conv_app_nth Un_commute)

lemma start_one:
  assumes "i < length ds" "coherent s" "live s \<subseteq> \<Union>(set (take i owned))"
  shows "coherent (snd (det_init (ds ! i) s)) \<and>
    (case fst (det_init (ds ! i) s) of
       Inl _ \<Rightarrow> live (snd (det_init (ds ! i) s)) = live s
     | Inr _ \<Rightarrow> live (snd (det_init (ds ! i) s)) \<subseteq> \<Union>(set (take (Suc i) owned)))"
proof -
  have own: "live s \<inter> owned ! i = {}" using assms(3) disjoint_below [OF assms(1)] by blast
  note c = contract [OF assms(1)]
  show ?thesis
    using detector.init_coherent [OF c assms(2) own] detector.init_fail [OF c assms(2) own]
      detector.init_ok [OF c assms(2) own] assms(3) take_Suc_owned [OF assms(1)]
    by (cases "fst (det_init (ds ! i) s)") auto
qed

lemma start_all:
  assumes "i \<le> length ds" "coherent s" "live s \<subseteq> \<Union>(set (take i owned))"
    and "init_detectors (drop i ds) (s, i) = (r, s', n)"
  shows "n \<le> length ds \<and> coherent s' \<and> live s' \<subseteq> \<Union>(set (take n owned)) \<and> (r = ok \<longrightarrow> n = length ds)"
  using assms
proof (induction "length ds - i" arbitrary: i s)
  case 0
  then have "drop i ds = []" "i = length ds" by simp_all
  with 0 show ?case by simp
next
  case (Suc k)
  then have i: "i < length ds" by simp
  then have d: "drop i ds = ds ! i # drop (Suc i) ds" by (rule Cons_nth_drop_Suc [symmetric])
  obtain q t where q: "det_init (ds ! i) s = (q, t)" by fastforce
  note one = start_one [OF i Suc.prems(2,3), unfolded q, simplified]
  show ?case
  proof (cases q)
    case (Inl e)
    with Suc.prems d q have "r = Inl e" "s' = t" "n = i" by simp_all
    with one Inl i Suc.prems(3) show ?thesis by simp
  next
    case (Inr u)
    with Suc.prems(4) d q have "init_detectors (drop (Suc i) ds) (t, Suc i) = (r, s', n)" by simp
    moreover have "k = length ds - Suc i" using Suc.hyps(2) by simp
    ultimately show ?thesis using Suc.hyps(1) [of "Suc i" t] one Inr i by simp
  qed
qed

lemma stop_all:
  "n \<le> length ds \<Longrightarrow> coherent s \<Longrightarrow> live s \<subseteq> \<Union>(set (take n owned)) \<Longrightarrow>
   coherent (exit_detectors ds n s) \<and> live (exit_detectors ds n s) = {}"
proof (induction n arbitrary: s)
  case (Suc n)
  then have n: "n < length ds" by simp
  note c = contract [OF n]
  have "live (det_exit (ds ! n) s) \<subseteq> \<Union>(set (take n owned))"
    using detector.exit_live [OF c Suc.prems(2)] Suc.prems(3) take_Suc_owned [OF n] by auto
  with Suc.IH [of "det_exit (ds ! n) s"] detector.exit_coherent [OF c Suc.prems(2)] n show ?case by simp
qed simp

end

section \<open>The table of main.c\<close>

definition detector_hooks :: "hook set \<Rightarrow> hook set list" where
  "detector_hooks taskstats_hooks =
     [{OPS_KTHREAD, WORK_TAINT_CHECK, WORK_THREAD_SCAN}, {OPS_KPROBE}, taskstats_hooks, audit_ops, {KP_TCP},
      {OPS_COMMIT_CREDS}, {KP_BPF}, {OPS_KALLSYMS}, {KP_SET_FILTER, KP_SET_NOTRACE, KP_MODIFY_DIRECT}]"

text \<open>The hooks of the detectors whose source is in the repository.\<close>

definition implemented_hooks :: "hook set" where
  "implemented_hooks = \<Union>(set (detector_hooks {}))"

lemma detectors_registry:
  assumes "detector coherent ts_hooks ts_init ts_exit" "ts_hooks \<inter> implemented_hooks = {}"
  shows "registry coherent (detectors E ts_init ts_exit) (detector_hooks ts_hooks)"
proof
  show "list_all2 (\<lambda>d h. detector coherent h (det_init d) (det_exit d)) (detectors E ts_init ts_exit) (detector_hooks ts_hooks)"
    unfolding detectors_def detector_hooks_def
    by (simp add: assms(1) reset_tainted.detector_axioms kprobe.detector_axioms audit.detector_axioms tcp_hiding.detector_axioms
        become_root.detector_axioms bpf_hook.detector_axioms kallsyms.detector_axioms ftrace_direct.detector_axioms)
  show "sorted_wrt (\<lambda>a b. a \<inter> b = {}) (detector_hooks ts_hooks)"
    using assms(2) by (auto simp: implemented_hooks_def detector_hooks_def audit_ops_def)
qed

text \<open>
  The table without the undefined entry is the registry with a \<open>taskstats\<close> detector that does nothing.
\<close>

lemma no_taskstats: "detector coherent {} (\<lambda>s. (ok, s)) (\<lambda>s. s)"
  by unfold_locales simp_all

interpretation implemented: registry coherent "detectors E (\<lambda>s. (ok, s)) (\<lambda>s. s)" "detector_hooks {}" for E
  by (rule detectors_registry [OF no_taskstats]) simp

lemma length_detectors: "length (detectors E ts_init ts_exit) = 9"
  by (simp add: detectors_def)

lemma owned_hooks: "\<Union>(set (take 9 (detector_hooks ts_hooks))) = implemented_hooks \<union> ts_hooks"
  by (auto simp: implemented_hooks_def detector_hooks_def)

lemma ring_exit_clean:
  assumes "detector coherent ts_hooks ts_init ts_exit" "ts_hooks \<inter> implemented_hooks = {}"
    and "em_inv K has_key em" "coherent t" "live t \<subseteq> implemented_hooks \<union> ts_hooks"
  shows "\<exists>em' t'. photon_ring_exit K E ts_init ts_exit (em, t, 9) = Some (em', t', 9) \<and> em_down em' \<and> live t' = {} \<and>
    (g_key_set em \<longrightarrow> g_master_key em' = zeros 32 \<and> g_session_key em' = zeros 32)"
proof -
  obtain em' where em': "event_manager_exit K em = Some em'" "em_down em'"
    "g_key_set em \<longrightarrow> g_master_key em' = zeros 32 \<and> g_session_key em' = zeros 32"
    using em_exit_down [OF assms(3)] by blast
  have "live (exit_detectors (detectors E ts_init ts_exit) 9 t) = {}"
    using registry.stop_all [OF detectors_registry [OF assms(1,2)], of 9 E t] assms(4,5)
    by (simp add: length_detectors owned_hooks)
  with em' show ?thesis by (simp add: photon_ring_exit_def)
qed

lemma ring_init_result:
  assumes ts: "detector coherent ts_hooks ts_init ts_exit" "ts_hooks \<inter> implemented_hooks = {}"
    and env: "env_ok K has_key seal unseal (length (event_buffers em))" and em: "fresh em"
    and t: "coherent t" "live t = {}"
  obtains
    (failed) e em' t' n where "photon_ring_init K E ts_init ts_exit (em, t, 0) = Some (Inl e, em', t', n)"
      "em_down em'" "live t' = {}"
  | (running) em' t' where "photon_ring_init K E ts_init ts_exit (em, t, 0) = Some (ok, em', t', 9)"
      "module_inv K has_key (length (event_buffers em)) (em', 0)" "coherent t'" "live t' \<subseteq> implemented_hooks \<union> ts_hooks"
proof -
  let ?ds = "detectors E ts_init ts_exit"
  note reg = detectors_registry [OF ts, of E]
  have down: "em_down em" using em by (simp add: fresh_def)
  obtain r t1 n where run: "init_detectors ?ds (t, 0) = (r, t1, n)" by (metis prod_cases3)
  have res: "n \<le> 9 \<and> coherent t1 \<and> live t1 \<subseteq> \<Union>(set (take n (detector_hooks ts_hooks))) \<and> (r = ok \<longrightarrow> n = 9)"
    using registry.start_all [OF reg, of 0 t r t1 n] run t by (simp add: length_detectors)
  show thesis
  proof (cases rule: em_init_cases [OF env_okD(3) [OF env] down, of has_key])
    case (2 e em1)
    then show thesis using failed t by (simp add: photon_ring_init_def)
  next
    case (1 em1)
    then have up: "event_manager_init K em = Some (ok, em1)" "em_inv K has_key em1" by simp_all
    show thesis
    proof (cases r)
      case (Inl e)
      obtain em2 where em2: "event_manager_exit K em1 = Some em2" "em_down em2"
        using em_exit_down [OF up(2)] by blast
      have "live (exit_detectors ?ds n t1) = {}"
        using registry.stop_all [OF reg, of n t1] res by (simp add: length_detectors)
      with up em2 run Inl show thesis using failed by (simp add: photon_ring_init_def)
    next
      case (Inr u)
      with res have n: "n = 9" by simp
      have "photon_ring_init K E ts_init ts_exit (em, t, 0) = Some (ok, em1, t1, 9)"
        using up run Inr n by (simp add: photon_ring_init_def)
      moreover have "module_inv K has_key (length (event_buffers em)) (em1, 0)" by (rule loaded_inv [OF env em up(1)])
      moreover have "live t1 \<subseteq> implemented_hooks \<union> ts_hooks" using res n owned_hooks by simp
      ultimately show thesis using running res by blast
    qed
  qed
qed

section \<open>Properties\<close>



text \<open>A module that loads, and unloads again, with the \<open>icmp\<close> detector in the place of \<open>taskstats\<close>.\<close>

lemma demo_icmp: "{KP_ICMP} \<inter> implemented_hooks = {}"
  by (auto simp: implemented_hooks_def detector_hooks_def audit_ops_def)



section \<open>Filter entries after unloading\<close>

lemma install_ops_filter:
  assumes "install_ops E h addr s = (ok, s')"
  shows "filters s' = (filters s)(h := insert addr (filters s h))"
  by (cases rule: install_ops_cases [where E = E and h = h and addr = addr and s = s]) (use assms in simp_all)

lemma kretprobe_init_filters:
  assumes "kretprobe_detector_init E s = (ok, s')"
  shows "t_exported E ''register_kretprobe'' \<in> filters s' OPS_KRETPROBE" "t_exported E ''register_kprobes'' \<in> filters s' OPS_KPROBES_BATCH"
proof -
  obtain s1 where one: "install_ops E OPS_KRETPROBE (t_exported E ''register_kretprobe'') s = (ok, s1)"
    "install_ops E OPS_KPROBES_BATCH (t_exported E ''register_kprobes'') s1 = (ok, s')"
    using assms by (auto simp: kretprobe_detector_init_def split: prod.splits sum.splits)
  then show "t_exported E ''register_kretprobe'' \<in> filters s' OPS_KRETPROBE"
    "t_exported E ''register_kprobes'' \<in> filters s' OPS_KPROBES_BATCH"
    by (simp_all add: install_ops_filter [OF one(1)] install_ops_filter [OF one(2)])
qed

text \<open>
  C0. Filter entries that stay.  Four detectors remove, when they exit, the address 0 from their ftrace filters instead of the
  address they added: after a successful start and a stop the hooked function is still in the
  filter.  The readlink detector removes its own address.
\<close>

theorem exit_leaves_filter_entries:
  "(kprobe_detector_init E s = (ok, s') \<and> t_exported E ''register_kprobe'' \<noteq> 0 \<longrightarrow>
     t_exported E ''register_kprobe'' \<in> filters (kprobe_detector_exit s') OPS_KPROBE) \<and>
   (kretprobe_detector_init E s = (ok, s') \<and> t_exported E ''register_kretprobe'' \<noteq> 0 \<longrightarrow>
     t_exported E ''register_kretprobe'' \<in> filters (kretprobe_detector_exit s') OPS_KRETPROBE) \<and>
   (kretprobe_detector_init E s = (ok, s') \<and> t_exported E ''register_kprobes'' \<noteq> 0 \<longrightarrow>
     t_exported E ''register_kprobes'' \<in> filters (kretprobe_detector_exit s') OPS_KPROBES_BATCH) \<and>
   (kallsyms_detector_init E s = (ok, s') \<longrightarrow>
     g_kallsyms_addr s \<in> filters (kallsyms_detector_exit s') OPS_KALLSYMS) \<and>
   (become_root_detector_init E s = (ok, s') \<and> t_exported E ''commit_creds'' \<noteq> 0 \<longrightarrow>
     t_exported E ''commit_creds'' \<in> filters (become_root_detector_exit s') OPS_COMMIT_CREDS) \<and>
   (hiding_readlink_detector_init E s = (ok, s') \<longrightarrow>
     t_exported E ''vfs_readlink'' \<notin> filters (hiding_readlink_detector_exit E s') OPS_READLINK)"
proof (intro conjI impI)
  show "t_exported E ''register_kprobe'' \<in> filters (kprobe_detector_exit s') OPS_KPROBE"
    if "kprobe_detector_init E s = (ok, s') \<and> t_exported E ''register_kprobe'' \<noteq> 0"
    using that by (auto simp: kprobe_detector_init_def kprobe_detector_exit_def ftrace_filter_remove_def
        unregister_ftrace_function_def Let_def dest!: install_ops_filter split: prod.splits sum.splits)
  show "t_exported E ''register_kretprobe'' \<in> filters (kretprobe_detector_exit s') OPS_KRETPROBE"
    if "kretprobe_detector_init E s = (ok, s') \<and> t_exported E ''register_kretprobe'' \<noteq> 0"
    using that kretprobe_init_filters(1)
    by (auto simp: kretprobe_detector_exit_def ftrace_filter_remove_def unregister_ftrace_function_def)
  show "t_exported E ''register_kprobes'' \<in> filters (kretprobe_detector_exit s') OPS_KPROBES_BATCH"
    if "kretprobe_detector_init E s = (ok, s') \<and> t_exported E ''register_kprobes'' \<noteq> 0"
    using that kretprobe_init_filters(2)
    by (auto simp: kretprobe_detector_exit_def ftrace_filter_remove_def unregister_ftrace_function_def)
  show "g_kallsyms_addr s \<in> filters (kallsyms_detector_exit s') OPS_KALLSYMS"
    if "kallsyms_detector_init E s = (ok, s')"
    using that by (auto simp: kallsyms_detector_init_def kallsyms_detector_exit_def kprobe_detector_get_kallsyms_addr_def
        ftrace_filter_remove_def unregister_ftrace_function_def Let_def dest!: install_ops_filter split: if_splits)
  show "t_exported E ''commit_creds'' \<in> filters (become_root_detector_exit s') OPS_COMMIT_CREDS"
    if "become_root_detector_init E s = (ok, s') \<and> t_exported E ''commit_creds'' \<noteq> 0"
    using that by (auto simp: become_root_detector_init_def become_root_detector_exit_def ftrace_filter_remove_def
        unregister_ftrace_function_def dest!: install_ops_filter)
  show "t_exported E ''vfs_readlink'' \<notin> filters (hiding_readlink_detector_exit E s') OPS_READLINK"
    by (simp add: hiding_readlink_detector_exit_def ftrace_filter_remove_def)
qed

theorem exit_leaves_filter_entries_witness:
  "\<exists>s'. become_root_detector_init demo_tenv tstate_initial = (ok, s') \<and> live (become_root_detector_exit s') = {} \<and>
     0x2000 \<in> filters (become_root_detector_exit s') OPS_COMMIT_CREDS"
proof -
  obtain s' where init: "become_root_detector_init demo_tenv tstate_initial = (ok, s')" "live s' = {OPS_COMMIT_CREDS}"
    by (cases rule: install_ops_cases [where E = demo_tenv and h = OPS_COMMIT_CREDS and addr = "0x2000" and s = tstate_initial])
      (simp_all add: become_root_detector_init_def install_ops_def kernel_calls demo_tenv_def tstate_initial_def)
  then have "live (become_root_detector_exit s') = {}"
    by (simp add: become_root_detector_exit_def ftrace_filter_remove_def unregister_ftrace_function_def)
  with init exit_leaves_filter_entries [of demo_tenv tstate_initial s'] show ?thesis by (auto simp: demo_tenv_def)
qed

end
