(* ===== verification/Agent.thy ===== *)
theory Agent
  imports Cdev_Fops
begin

text \<open>
  \<open>photon_agent.c\<close>, the userspace relay: exact reads and writes over TLS, the key exchange with the
  server, the delivery of the key to the module, and the relay loop.  OpenSSL is a parameter: an
  \<open>SSL_read\<close> that returns no data and an \<open>SSL_write\<close> of 0 bytes are the results the code treats as errors.
  The system calls of the agent are the file operations of \<open>Cdev_Fops\<close>.  The TLS context, the
  socket and the command line are in \<open>Agent_Main\<close>.
\<close>

section \<open>Exact reads and writes\<close>

record 'c tls =
  tls_read :: "'c \<Rightarrow> nat \<Rightarrow> bytes \<times> 'c"
  tls_write :: "'c \<Rightarrow> bytes \<Rightarrow> nat \<times> 'c"

function recv_loop :: "'c tls \<Rightarrow> 'c \<Rightarrow> nat \<Rightarrow> bytes \<Rightarrow> bytes option \<times> 'c" where
  "recv_loop T c n buf =
     (if length buf < n
      then (case tls_read T c (n - length buf) of
              (r, c) \<Rightarrow> if r = [] then (None, c) else recv_loop T c n (buf @ r))
      else (Some buf, c))"
  by pat_completeness auto
termination
  by (relation "measure (\<lambda>(T, c, n, buf). n - length buf)") (auto simp: diff_less_mono2)

declare recv_loop.simps [simp del]

definition ssl_recv_all :: "'c tls \<Rightarrow> 'c \<Rightarrow> nat \<Rightarrow> bytes option \<times> 'c" where
  "ssl_recv_all T c n = recv_loop T c n []"

function send_loop :: "'c tls \<Rightarrow> 'c \<Rightarrow> bytes \<Rightarrow> nat \<Rightarrow> bool \<times> 'c" where
  "send_loop T c buf sent =
     (if sent < length buf
      then (case tls_write T c (drop sent buf) of
              (r, c) \<Rightarrow> if r = 0 then (False, c) else send_loop T c buf (sent + r))
      else (True, c))"
  by pat_completeness auto
termination
  by (relation "measure (\<lambda>(T, c, buf, sent). length buf - sent)") auto

declare send_loop.simps [simp del]

definition ssl_send_all :: "'c tls \<Rightarrow> 'c \<Rightarrow> bytes \<Rightarrow> bool \<times> 'c" where
  "ssl_send_all T c buf = send_loop T c buf 0"

section \<open>Key exchange and key injection\<close>

definition MAGIC :: bytes where "MAGIC = [0x50, 0x52, 0x4f, 0x47]"
definition MSG_KEY_OFFER :: u8 where "MSG_KEY_OFFER = 0x01"
definition MSG_KEY_ACK :: u8 where "MSG_KEY_ACK = 0x02"
definition MAX_FRAME_BYTES :: nat where "MAX_FRAME_BYTES = 8192"

definition do_key_exchange :: "'c tls \<Rightarrow> 'c \<Rightarrow> bytes option \<times> 'c" where
  "do_key_exchange T c =
     (case ssl_send_all T c MAGIC of
        (False, c) \<Rightarrow> (None, c)
      | (True, c) \<Rightarrow>
          (case ssl_recv_all T c 1 of
             (None, c) \<Rightarrow> (None, c)
           | (Some offer, c) \<Rightarrow>
               if hd offer \<noteq> MSG_KEY_OFFER then (None, c)
               else (case ssl_recv_all T c PHOTON_KEY_SIZE of
                       (None, c) \<Rightarrow> (None, c)
                     | (Some key, c) \<Rightarrow>
                         (case ssl_send_all T c [MSG_KEY_ACK] of
                            (False, c) \<Rightarrow> (None, c)
                          | (True, c) \<Rightarrow> (Some key, c)))))"

text \<open>Open the device, hand over the key, close.  \<open>cap\<close> tells whether the agent has \<open>CAP_SYS_ADMIN\<close>.\<close>

definition set_kernel_key ::
  "'t kenv \<Rightarrow> task \<Rightarrow> bool \<Rightarrow> bytes \<Rightarrow> 't em_state \<Rightarrow> (bool \<times> 't em_state) option" where
  "set_kernel_key K current cap key s =
     (case photon_cdev_open cap s of
        (Inl _, s) \<Rightarrow> Some (False, s)
      | (Inr _, s) \<Rightarrow> do {
          (r, s) \<leftarrow> photon_cdev_ioctl K current cap PHOTON_IOC_SET_KEY (Some key) s;
          (case r of
             Inl e \<Rightarrow> if e = EEXIST then Some (True, photon_cdev_release s) else Some (False, photon_cdev_release s)
           | Inr _ \<Rightarrow> Some (True, photon_cdev_release s))
        })"

section \<open>The relay loop\<close>

record relay_stats =
  total_frames :: u64
  total_bytes :: u64
  total_errors :: u64

text \<open>
  One iteration.  The first result tells whether the loop goes on; \<open>None\<close> is an iteration that waits in
  \<open>read\<close>.  \<open>sig\<close> tells whether a signal is pending.
\<close>

definition relay_iteration ::
  "'c tls \<Rightarrow> bool \<Rightarrow> 't em_state \<times> 'c \<times> relay_stats \<Rightarrow> (bool \<times> 't em_state \<times> 'c \<times> relay_stats) option" where
  "relay_iteration T sig = (\<lambda>(s, c, st). do {
     (r, s) \<leftarrow> photon_cdev_read sig True (of_nat MAX_FRAME_BYTES) s;
     (case r of
        Inl e \<Rightarrow>
          if e = EINTR then Some (True, s, c, st)
          else if e = EIO then Some (False, s, c, st)
          else Some (True, s, c, st\<lparr>total_errors := total_errors st + 1\<rparr>)
      | Inr frame_buf \<Rightarrow>
          if length frame_buf = 0 then Some (True, s, c, st)
          else if length frame_buf < 4 then Some (True, s, c, st\<lparr>total_errors := total_errors st + 1\<rparr>)
          else
            (case ssl_send_all T c frame_buf of
               (False, c) \<Rightarrow> Some (False, s, c, st\<lparr>total_errors := total_errors st + 1\<rparr>)
             | (True, c) \<Rightarrow>
                 Some (True, s, c, st\<lparr>total_frames := total_frames st + 1,
                                      total_bytes := total_bytes st + of_nat (length frame_buf)\<rparr>)))
   })"

text \<open>
  The loop runs while \<open>g_running\<close> is set; the list has one element for each time it finds it set, with
  the pending signal of that iteration.
\<close>

fun relay_loop ::
  "'c tls \<Rightarrow> bool list \<Rightarrow> 't em_state \<times> 'c \<times> relay_stats \<Rightarrow> ('t em_state \<times> 'c \<times> relay_stats) option" where
  "relay_loop T [] st = Some st"
| "relay_loop T (sig # sigs) st = do {
     (go, st) \<leftarrow> relay_iteration T sig st;
     (if go then relay_loop T sigs st else Some st)
   }"

definition run_relay ::
  "'c tls \<Rightarrow> bool \<Rightarrow> bool list \<Rightarrow> 't em_state \<Rightarrow> 'c \<Rightarrow> (bool \<times> 't em_state \<times> 'c \<times> relay_stats) option" where
  "run_relay T cap sigs s c =
     (let st = \<lparr>total_frames = 0, total_bytes = 0, total_errors = 0\<rparr>
      in case photon_cdev_open cap s of
           (Inl _, s) \<Rightarrow> Some (False, s, c, st)
         | (Inr _, s) \<Rightarrow> do {
             (s, c, st) \<leftarrow> relay_loop T sigs (s, c, st);
             Some (True, photon_cdev_release s, c, st)
           })"

text \<open>\<open>conn\<close> is the result of \<open>connect_tls\<close>.\<close>

definition connect_and_run ::
  "'t kenv \<Rightarrow> task \<Rightarrow> bool \<Rightarrow> 'c tls \<Rightarrow> 'c option \<Rightarrow> bool \<Rightarrow> bool list \<Rightarrow> 't em_state \<Rightarrow> (bool \<times> 't em_state \<times> 'c option) option" where
  "connect_and_run K current cap T conn inject_key sigs s =
     (case conn of
        None \<Rightarrow> Some (False, s, None)
      | Some c \<Rightarrow>
          (case do_key_exchange T c of
             (None, c) \<Rightarrow> Some (False, s, Some c)
           | (Some key, c) \<Rightarrow> do {
               (injected, s) \<leftarrow> (if inject_key then set_kernel_key K current cap key s else Some (True, s));
               (if \<not> injected then Some (False, s, Some c)
                else do {
                  (_, s, c, _) \<leftarrow> run_relay T cap sigs s c;
                  Some (True, s, Some c)
                })
             }))"

section \<open>The connection as two byte streams\<close>

text \<open>
  What the code relies on of TLS: reading consumes the stream of bytes that the peer sends, at most
  as many as asked for; writing appends an initial part of the buffer to the stream the peer
  receives.  \<open>tls_up\<close>: the connection makes progress.
\<close>

definition tls_laws :: "'c tls \<Rightarrow> ('c \<Rightarrow> bytes) \<Rightarrow> ('c \<Rightarrow> bytes) \<Rightarrow> bool" where
  "tls_laws T incoming sent \<longleftrightarrow>
     (\<forall>c n r c'. tls_read T c n = (r, c') \<longrightarrow> length r \<le> n \<and> incoming c = r @ incoming c' \<and> sent c' = sent c) \<and>
     (\<forall>c p k c'. tls_write T c p = (k, c') \<longrightarrow> k \<le> length p \<and> incoming c' = incoming c \<and> sent c' = sent c @ take k p)"

definition tls_up :: "'c tls \<Rightarrow> ('c \<Rightarrow> bytes) \<Rightarrow> bool" where
  "tls_up T incoming \<longleftrightarrow>
     (\<forall>c n. 0 < n \<longrightarrow> incoming c \<noteq> [] \<longrightarrow> fst (tls_read T c n) \<noteq> []) \<and> (\<forall>c p. p \<noteq> [] \<longrightarrow> 0 < fst (tls_write T c p))"

lemma tls_lawsD:
  assumes "tls_laws T incoming sent"
  shows "tls_read T c n = (r, c') \<Longrightarrow> length r \<le> n \<and> incoming c = r @ incoming c' \<and> sent c' = sent c"
    and "tls_write T c p = (k, c') \<Longrightarrow> k \<le> length p \<and> incoming c' = incoming c \<and> sent c' = sent c @ take k p"
  using assms unfolding tls_laws_def by blast+

lemma recv_loop_spec:
  assumes laws: "tls_laws T incoming sent"
  shows "length buf \<le> n \<Longrightarrow> recv_loop T c n buf = (r, c') \<Longrightarrow> sent c' = sent c \<and>
    (case r of Some bs \<Rightarrow> length bs = n \<and> buf @ incoming c = bs @ incoming c' | None \<Rightarrow> True) \<and>
    (tls_up T incoming \<and> n - length buf \<le> length (incoming c) \<longrightarrow> r \<noteq> None)"
proof (induction "n - length buf" arbitrary: c buf rule: less_induct)
  case less
  obtain q d where q: "tls_read T c (n - length buf) = (q, d)" by fastforce
  note l = tls_lawsD(1) [OF laws q]
  show ?case
  proof (cases "length buf < n")
    case False
    with less.prems have "r = Some buf" "c' = c" by (simp_all add: recv_loop.simps [of T c n buf])
    with less.prems False show ?thesis by simp
  next
    case room: True
    show ?thesis
    proof (cases "q = []")
      case True
      with less.prems room q have "r = None" "c' = d" by (simp_all add: recv_loop.simps [of T c n buf])
      moreover have "\<not> (tls_up T incoming \<and> n - length buf \<le> length (incoming c))"
        using q True room unfolding tls_up_def by (metis fst_conv le_zero_eq list.size(3) not_le zero_less_diff)
      ultimately show ?thesis using l by simp
    next
      case False
      with less.prems(2) room q have "recv_loop T d n (buf @ q) = (r, c')" by (simp add: recv_loop.simps [of T c n buf])
      moreover have "n - length (buf @ q) < n - length buf" "length (buf @ q) \<le> n" using False room l by (cases q; simp)+
      ultimately show ?thesis using less.hyps [of "buf @ q" d] l by (auto split: option.splits)
    qed
  qed
qed

lemma recv_all_spec:
  assumes "tls_laws T incoming sent" "ssl_recv_all T c n = (r, c')"
  shows "sent c' = sent c" "r = Some bs \<Longrightarrow> length bs = n \<and> incoming c = bs @ incoming c'"
    "tls_up T incoming \<Longrightarrow> n \<le> length (incoming c) \<Longrightarrow> r \<noteq> None"
  using recv_loop_spec [OF assms(1), of "[]" n c r c'] assms(2) by (auto simp: ssl_recv_all_def)

lemma send_loop_spec:
  assumes laws: "tls_laws T incoming sent"
  shows "k \<le> length p \<Longrightarrow> send_loop T c p k = (b, c') \<Longrightarrow> incoming c' = incoming c \<and>
    (\<exists>j \<le> length p. k \<le> j \<and> sent c' = sent c @ drop k (take j p) \<and> (b \<longleftrightarrow> j = length p)) \<and> (tls_up T incoming \<longrightarrow> b)"
proof (induction "length p - k" arbitrary: c k rule: less_induct)
  case less
  obtain q d where q: "tls_write T c (drop k p) = (q, d)" by fastforce
  note l = tls_lawsD(2) [OF laws q]
  show ?case
  proof (cases "k < length p")
    case False
    then have "send_loop T c p k = (True, c)" by (simp add: send_loop.simps [of T c p k])
    with less.prems False show ?thesis by auto
  next
    case room: True
    show ?thesis
    proof (cases "q = 0")
      case True
      with less.prems room q have b: "\<not> b" "c' = d" by (simp_all add: send_loop.simps [of T c p k])
      have "\<not> tls_up T incoming" using q True room unfolding tls_up_def by (metis drop_eq_Nil fst_conv not_le less_irrefl)
      with b l True room show ?thesis by (auto intro!: exI [of _ k])
    next
      case False
      with less.prems(2) room q have run: "send_loop T d p (k + q) = (b, c')" by (simp add: send_loop.simps [of T c p k])
      moreover have "length p - (k + q) < length p - k" and kq: "k + q \<le> length p" using False room l by auto
      ultimately obtain j where j: "incoming c' = incoming d" "j \<le> length p" "k + q \<le> j"
        "sent c' = sent d @ drop (k + q) (take j p)" "b \<longleftrightarrow> j = length p" "tls_up T incoming \<longrightarrow> b"
        using less.hyps [of "k + q" d] by blast
      have "take q (drop k p) = drop k (take (k + q) p)" by (simp add: take_drop add.commute)
      also have "\<dots> @ drop (k + q) (take j p) = drop k (take j p)"
      proof -
        have "take (k + q) p @ drop (k + q) (take j p) = take j p"
          using j(3) by (metis append_take_drop_id min.absorb1 take_take)
        then show ?thesis using kq by (metis drop_append length_take min.absorb2 le_add1 diff_is_0_eq drop_0)
      qed
      finally have "sent c' = sent c @ drop k (take j p)" using j(4) l by simp
      with j l show ?thesis by auto
    qed
  qed
qed

lemma send_all_spec:
  assumes "tls_laws T incoming sent" "ssl_send_all T c p = (b, c')"
  shows "incoming c' = incoming c" "b \<Longrightarrow> sent c' = sent c @ p" "\<not> b \<Longrightarrow> \<exists>j < length p. sent c' = sent c @ take j p"
    "tls_up T incoming \<Longrightarrow> b"
  using send_loop_spec [OF assms(1), of 0 p c b c'] assms(2) by (auto simp: ssl_send_all_def le_less)

section \<open>Key exchange\<close>

lemma key_exchange_sound:
  assumes laws: "tls_laws T incoming sent" and run: "do_key_exchange T c = (Some key, c')"
  shows "length key = 32 \<and> incoming c = MSG_KEY_OFFER # key @ incoming c' \<and> sent c' = sent c @ MAGIC @ [MSG_KEY_ACK]"
proof -
  from run obtain c1 where 1: "ssl_send_all T c MAGIC = (True, c1)"
    by (auto simp: do_key_exchange_def split: prod.splits bool.splits)
  with run obtain offer c2 where 2: "ssl_recv_all T c1 1 = (Some offer, c2)" "hd offer = MSG_KEY_OFFER"
    by (auto simp: do_key_exchange_def split: prod.splits bool.splits option.splits if_splits)
  with 1 run obtain c3 where 3: "ssl_recv_all T c2 PHOTON_KEY_SIZE = (Some key, c3)" "ssl_send_all T c3 [MSG_KEY_ACK] = (True, c')"
    by (auto simp: do_key_exchange_def split: prod.splits bool.splits option.splits if_splits)
  note s1 = send_all_spec [OF laws 1] and r2 = recv_all_spec [OF laws 2(1)] and r3 = recv_all_spec [OF laws 3(1)]
    and s4 = send_all_spec [OF laws 3(2)]
  have "length offer = 1" "incoming c1 = offer @ incoming c2" using r2(2) by simp_all
  then have "incoming c1 = MSG_KEY_OFFER # incoming c2" using 2(2) by (cases offer) simp_all
  with s1(1,2) r2(1) r3(1,2) s4(1,2) show ?thesis by simp
qed

lemma key_exchange_complete:
  assumes laws: "tls_laws T incoming sent" and up: "tls_up T incoming"
    and offer: "incoming c = MSG_KEY_OFFER # key @ rest" "length key = 32"
  shows "\<exists>c'. do_key_exchange T c = (Some key, c') \<and> incoming c' = rest"
proof -
  obtain b1 c1 where 1: "ssl_send_all T c MAGIC = (b1, c1)" by fastforce
  note s1 = send_all_spec [OF laws 1]
  obtain o2 c2 where 2: "ssl_recv_all T c1 1 = (o2, c2)" by fastforce
  note r2 = recv_all_spec [OF laws 2]
  obtain bs where o2: "o2 = Some bs" "bs = [MSG_KEY_OFFER]" "incoming c2 = key @ rest"
    using r2(2,3) up offer(1) s1(1) by (cases o2) (auto simp: length_Suc_conv)
  obtain o3 c3 where 3: "ssl_recv_all T c2 PHOTON_KEY_SIZE = (o3, c3)" by fastforce
  note r3 = recv_all_spec [OF laws 3]
  have o3: "o3 = Some key" "incoming c3 = rest"
    using r3(2,3) up o2(3) offer(2) by (cases o3; auto)+
  obtain b4 c4 where 4: "ssl_send_all T c3 [MSG_KEY_ACK] = (b4, c4)" by fastforce
  note s4 = send_all_spec [OF laws 4]
  have "do_key_exchange T c = (Some key, c4)"
    using 1 2 3 4 s1(4) [OF up] s4(4) [OF up] o2(1,2) o3(1) by (simp add: do_key_exchange_def)
  with s4(1) o3(2) show ?thesis by simp
qed

section \<open>The relay\<close>

lemma relay_one:
  assumes inv: "module_inv K has_key n (s, h)" and ring: "ring_frames (g_ring s) = f # fs" and len: "4 \<le> length f"
    and laws: "tls_laws T incoming sent" and up: "tls_up T incoming"
  shows "\<exists>s' c'. relay_iteration T sig (s, c, st) = Some (True, s', c',
      st\<lparr>total_frames := total_frames st + 1, total_bytes := total_bytes st + of_nat (length f)\<rparr>) \<and>
    ring_frames (g_ring s') = fs \<and> module_inv K has_key n (s', h) \<and> sent c' = sent c @ f"
proof -
  have big: "356 \<le> unat (of_nat MAX_FRAME_BYTES :: u64)" "unat (of_nat MAX_FRAME_BYTES :: u64) < 2 ^ 32"
    by (simp_all add: MAX_FRAME_BYTES_def)
  obtain s' where s': "photon_cdev_read sig True (of_nat MAX_FRAME_BYTES) s = Some (Inr f, s')"
    "ring_frames (g_ring s') = fs" "module_inv K has_key n (s', h)"
    using read_oldest [OF inv ring big] by blast
  obtain b c' where send: "ssl_send_all T c f = (b, c')" by fastforce
  have "b" "sent c' = sent c @ f" using send_all_spec [OF laws send] up by auto
  with s' send len show ?thesis by (auto simp: relay_iteration_def)
qed

lemma relay_many:
  assumes laws: "tls_laws T incoming sent" and up: "tls_up T incoming"
  shows "module_inv K has_key n (s, h) \<Longrightarrow> ring_frames (g_ring s) = fs \<Longrightarrow> \<forall>f \<in> set fs. 4 \<le> length f \<Longrightarrow>
    length sigs = length fs \<Longrightarrow>
    \<exists>s' c' b. relay_loop T sigs (s, c, st) =
       Some (s', c', st\<lparr>total_frames := total_frames st + of_nat (length fs), total_bytes := b\<rparr>) \<and>
     ring_frames (g_ring s') = [] \<and> module_inv K has_key n (s', h) \<and> sent c' = sent c @ concat fs"
proof (induction fs arbitrary: s c st sigs)
  case Nil
  then show ?case by (auto intro!: exI [of _ "total_bytes st"])
next
  case (Cons f fs)
  from Cons.prems(4) obtain sig sigs' where sigs: "sigs = sig # sigs'" "length sigs' = length fs" by (cases sigs) auto
  let ?st = "st\<lparr>total_frames := total_frames st + 1, total_bytes := total_bytes st + of_nat (length f)\<rparr>"
  obtain s1 c1 where one: "relay_iteration T sig (s, c, st) = Some (True, s1, c1, ?st)"
    "ring_frames (g_ring s1) = fs" "module_inv K has_key n (s1, h)" "sent c1 = sent c @ f"
    using relay_one [OF Cons.prems(1,2) _ laws up, of sig c st] Cons.prems(3) by auto
  obtain s' c' b where rest: "relay_loop T sigs' (s1, c1, ?st) =
      Some (s', c', ?st\<lparr>total_frames := total_frames ?st + of_nat (length fs), total_bytes := b\<rparr>)"
    "ring_frames (g_ring s') = []" "module_inv K has_key n (s', h)" "sent c' = sent c1 @ concat fs"
    using Cons.IH [OF one(3,2) _ sigs(2), of c1 ?st] Cons.prems(3) by auto
  show ?case
    using one(1,4) rest sigs(1) by (intro exI [of _ s'] exI [of _ c'] exI [of _ b]) (simp add: add.assoc)
qed

lemma relay_all:
  assumes inv: "module_inv K has_key n (s, 0)" and frames: "\<forall>f \<in> set (ring_frames (g_ring s)). 4 \<le> length f"
    and laws: "tls_laws T incoming sent" and up: "tls_up T incoming"
    and sigs: "length sigs = length (ring_frames (g_ring s))"
  shows "\<exists>s' c' st. run_relay T True sigs s c = Some (True, s', c', st) \<and> ring_frames (g_ring s') = [] \<and>
    module_inv K has_key n (s', 0) \<and> sent c' = sent c @ concat (ring_frames (g_ring s)) \<and>
    total_frames st = of_nat (length (ring_frames (g_ring s))) \<and> total_errors st = 0"
proof -
  have closed: "\<not> g_is_open s" using inv by (simp add: module_inv_def split: if_splits)
  let ?s = "s\<lparr>g_is_open := True\<rparr>"
  have op: "photon_cdev_open True s = (ok, ?s)" using closed by (simp add: photon_cdev_open_def)
  note inv1 = open_release_step(1) [OF inv op]
  have ring: "ring_frames (g_ring ?s) = ring_frames (g_ring s)" by simp
  obtain s' c' b where run: "relay_loop T sigs (?s, c, \<lparr>total_frames = 0, total_bytes = 0, total_errors = 0\<rparr>) =
      Some (s', c', \<lparr>total_frames = of_nat (length (ring_frames (g_ring s))), total_bytes = b, total_errors = 0\<rparr>)"
    "ring_frames (g_ring s') = []" "module_inv K has_key n (s', Suc 0)" "sent c' = sent c @ concat (ring_frames (g_ring s))"
    using relay_many [OF laws up inv1 ring frames sigs, of c "\<lparr>total_frames = 0, total_bytes = 0, total_errors = 0\<rparr>"] by auto
  have "module_inv K has_key n (photon_cdev_release s', 0)" by (rule open_release_step(3) [OF run(3) refl])
  with op run show ?thesis by (simp add: run_relay_def photon_cdev_release_def)
qed

section \<open>Properties\<close>


text \<open>A connection that transfers one byte at a time.\<close>

definition demo_tls :: "(bytes \<times> bytes) tls" where
  "demo_tls = \<lparr>tls_read = (\<lambda>(i, o') n. (take (min n 1) i, (drop (min n 1) i, o'))),
               tls_write = (\<lambda>(i, o') p. (min 1 (length p), (i, o' @ take 1 p)))\<rparr>"

lemma demo_tls_ok: "tls_laws demo_tls fst snd" "tls_up demo_tls fst"
  by (auto simp: tls_laws_def tls_up_def demo_tls_def min_def take_all)


text \<open>
  The relay.  Over a working connection the agent forwards all frames queued in a running module
  verbatim and in order, counts them, reports no error, and leaves the ring empty and the device
  closed.
\<close>

theorem relay_forwards_frames_in_order:
  assumes "module_inv K has_key n (s, 0)" "\<forall>f \<in> set (ring_frames (g_ring s)). 4 \<le> length f"
    and "tls_laws T incoming sent" "tls_up T incoming" "length sigs = length (ring_frames (g_ring s))"
  shows "\<exists>s' c' st. run_relay T True sigs s c = Some (True, s', c', st) \<and> ring_frames (g_ring s') = [] \<and>
    module_inv K has_key n (s', 0) \<and> sent c' = sent c @ concat (ring_frames (g_ring s)) \<and>
    total_frames st = of_nat (length (ring_frames (g_ring s))) \<and> total_errors st = 0"
  by (rule relay_all [OF assms])

lemma demo_closed_inv: "module_inv demo_env (\<lambda>t k. t = k) 2 (photon_cdev_release demo_queued, 0)"
  "ring_frames (g_ring (photon_cdev_release demo_queued)) = [replicate 356 1]"
  using open_release_step(3) [OF demo_queued_inv(1), of 0] demo_queued_inv(2) by (simp_all add: photon_cdev_release_def)

theorem relay_forwards_frames_in_order_witness:
  "\<exists>s' c' st. run_relay demo_tls True [False] (photon_cdev_release demo_queued) ([], []) = Some (True, s', c', st) \<and>
     snd c' = replicate 356 1"
  using relay_forwards_frames_in_order [OF demo_closed_inv(1) _ demo_tls_ok, of "[False]" "([], [])"]
  by (auto simp: demo_closed_inv(2))

end
