(* ===== verification/Server.thy ===== *)
theory Server
  imports Agent
begin

text \<open>
  The part of \<open>python_tools/server.py\<close> that the module and the agent depend on: key derivation, the cache
  of session keys, frame parsing and the receive loop.  HMAC-SHA256 and AES-GCM are parameters; a
  raised exception is \<open>None\<close> or an outcome.  The connection is the finite stream of bytes that the server
  receives after the handshake.
\<close>

section \<open>Key derivation and cache\<close>

text \<open>\<open>bytes([counter])\<close> raises an exception for a counter above 255.\<close>

function expand_loop :: "(bytes \<Rightarrow> bytes \<Rightarrow> bytes) \<Rightarrow> bytes \<Rightarrow> bytes \<Rightarrow> nat \<Rightarrow> bytes \<Rightarrow> bytes \<Rightarrow> nat \<Rightarrow> bytes option" where
  "expand_loop hmac prk info len okm t counter =
     (if length okm < len
      then if counter > 255 then None
           else let t = hmac prk (t @ info @ [of_nat counter])
                in expand_loop hmac prk info len (okm @ t) t (counter + 1)
      else Some (take len okm))"
  by pat_completeness auto
termination
  by (relation "measure (\<lambda>(hmac, prk, info, len, okm, t, counter). 256 - counter)") auto

declare expand_loop.simps [simp del]

definition server_hkdf_extract :: "(bytes \<Rightarrow> bytes \<Rightarrow> bytes) \<Rightarrow> bytes \<Rightarrow> bytes \<Rightarrow> bytes" where
  "server_hkdf_extract hmac salt ikm = hmac salt ikm"

definition server_hkdf_expand :: "(bytes \<Rightarrow> bytes \<Rightarrow> bytes) \<Rightarrow> bytes \<Rightarrow> bytes \<Rightarrow> nat \<Rightarrow> bytes option" where
  "server_hkdf_expand hmac prk info len =
     (if len > 255 * 32 then None else expand_loop hmac prk info len [] [] 1)"

definition derive_session_key :: "(bytes \<Rightarrow> bytes \<Rightarrow> bytes) \<Rightarrow> bytes \<Rightarrow> u64 \<Rightarrow> bytes option" where
  "derive_session_key hmac master_key rotation_num =
     (let salt = le_word 8 rotation_num;
          info = char_bytes (''photon-ring-v1-'' @ dec_digits (unat rotation_num));
          prk = server_hkdf_extract hmac salt master_key
      in server_hkdf_expand hmac prk info 32)"

record session_key_cache =
  sc_master :: bytes
  sc_cache :: "(u64 \<times> bytes) list"
  sc_max :: nat

definition cache_get ::
  "(bytes \<Rightarrow> bytes \<Rightarrow> bytes) \<Rightarrow> u64 \<Rightarrow> session_key_cache \<Rightarrow> bytes option \<times> session_key_cache" where
  "cache_get hmac rotation_num sc =
     (case map_of (sc_cache sc) rotation_num of
        Some key \<Rightarrow> (Some key, sc)
      | None \<Rightarrow>
          let sc = (if length (sc_cache sc) \<ge> sc_max sc
                    then let oldest = Min (set (map fst (sc_cache sc)))
                         in sc\<lparr>sc_cache := filter (\<lambda>e. fst e \<noteq> oldest) (sc_cache sc)\<rparr>
                    else sc)
          in case derive_session_key hmac (sc_master sc) rotation_num of
               None \<Rightarrow> (None, sc)
             | Some key \<Rightarrow> (Some key, sc\<lparr>sc_cache := sc_cache sc @ [(rotation_num, key)]\<rparr>))"

section \<open>Frames and events\<close>

record encrypted_frame =
  ef_sequence_num :: u64
  ef_rotation_num :: u64
  ef_iv :: bytes
  ef_encrypted_len :: u16
  ef_auth_tag :: bytes
  ef_ciphertext :: bytes

definition ENC_HDR_SIZE :: nat where "ENC_HDR_SIZE = 8 + 8 + 12 + 2 + 16"

definition parse_encrypted_frame :: "bytes \<Rightarrow> encrypted_frame option" where
  "parse_encrypted_frame body =
     (if length body < ENC_HDR_SIZE then None
      else let encrypted_len = le_nat (take 2 (drop 28 body))
           in if length body < ENC_HDR_SIZE + encrypted_len then None
              else Some \<lparr>ef_sequence_num = word_of_le (take 8 body), ef_rotation_num = word_of_le (take 8 (drop 8 body)),
                     ef_iv = take 12 (drop 16 body), ef_encrypted_len = of_nat encrypted_len, ef_auth_tag = take 16 (drop 30 body),
                     ef_ciphertext = take encrypted_len (drop ENC_HDR_SIZE body)\<rparr>)"

record server_event =
  se_sequence_num :: u64
  se_timestamp_ns :: u64
  se_event_type :: u32
  se_detector_id :: u32
  se_data_len :: u16
  se_data :: bytes

text \<open>\<open>struct.calcsize('<QQIIH512s')\<close>.\<close>

definition PHOTON_EVENT_SIZE :: nat where "PHOTON_EVENT_SIZE = 8 + 8 + 4 + 4 + 2 + 512"

definition parse_photon_event :: "bytes \<Rightarrow> server_event option" where
  "parse_photon_event plaintext =
     (if length plaintext < PHOTON_EVENT_SIZE then None
      else Some \<lparr>se_sequence_num = word_of_le (take 8 plaintext), se_timestamp_ns = word_of_le (take 8 (drop 8 plaintext)),
             se_event_type = word_of_le (take 4 (drop 16 plaintext)), se_detector_id = word_of_le (take 4 (drop 20 plaintext)),
             se_data_len = word_of_le (take 2 (drop 24 plaintext)), se_data = take 512 (drop 26 plaintext)\<rparr>)"

text \<open>What happens to one frame; the plaintext of a rejected event is kept for the statements below.\<close>

datatype frame_outcome =
    Frame_Parse_Error
  | Key_Error
  | Decryption_Failed
  | Event_Parse_Error bytes
  | Indexed server_event

definition handle_frame ::
  "(bytes \<Rightarrow> bytes \<Rightarrow> bytes) \<Rightarrow> (bytes \<Rightarrow> bytes \<Rightarrow> bytes \<Rightarrow> bytes option) \<Rightarrow> bytes \<Rightarrow> session_key_cache \<Rightarrow>
   frame_outcome \<times> session_key_cache" where
  "handle_frame hmac aes_gcm_open body sc =
     (case parse_encrypted_frame body of
        None \<Rightarrow> (Frame_Parse_Error, sc)
      | Some frame \<Rightarrow>
          (case cache_get hmac (ef_rotation_num frame) sc of
             (None, sc) \<Rightarrow> (Key_Error, sc)
           | (Some session_key, sc) \<Rightarrow>
               (case aes_gcm_open session_key (ef_iv frame) (ef_ciphertext frame @ ef_auth_tag frame) of
                  None \<Rightarrow> (Decryption_Failed, sc)
                | Some plaintext \<Rightarrow>
                    (case parse_photon_event plaintext of
                       None \<Rightarrow> (Event_Parse_Error plaintext, sc)
                     | Some event \<Rightarrow> (Indexed event, sc)))))"

definition recv_exactly :: "bytes \<Rightarrow> nat \<Rightarrow> (bytes \<times> bytes) option" where
  "recv_exactly stream n = (if length stream < n then None else Some (take n stream, drop n stream))"

function frame_loop ::
  "(bytes \<Rightarrow> bytes \<Rightarrow> bytes) \<Rightarrow> (bytes \<Rightarrow> bytes \<Rightarrow> bytes \<Rightarrow> bytes option) \<Rightarrow> bytes \<Rightarrow> session_key_cache \<Rightarrow>
   frame_outcome list \<times> session_key_cache" where
  "frame_loop hmac aes_gcm_open stream sc =
     (case recv_exactly stream 4 of
        None \<Rightarrow> ([], sc)
      | Some (hdr, stream) \<Rightarrow>
          let body_len = le_nat hdr
          in if body_len = 0 \<or> body_len > 65536 then frame_loop hmac aes_gcm_open stream sc
             else (case recv_exactly stream body_len of
                     None \<Rightarrow> ([], sc)
                   | Some (body, stream) \<Rightarrow>
                       let (out, sc) = handle_frame hmac aes_gcm_open body sc;
                           (outs, sc) = frame_loop hmac aes_gcm_open stream sc
                       in (out # outs, sc)))"
  by pat_completeness auto
termination
  by (relation "measure (\<lambda>(hmac, op, stream, sc). length stream)") (auto simp: recv_exactly_def split: if_splits)

declare frame_loop.simps [simp del]

section \<open>The server's keys are the module's keys\<close>

lemma derive_agrees:
  assumes "\<And>key msg. length (hmac key msg) = 32"
  shows "derive_session_key hmac master rot = Some (session_key_spec hmac master rot)"
proof -
  have "take 32 (hmac k m) = hmac k m" for k m by (simp add: assms)
  then show ?thesis
    by (simp add: derive_session_key_def server_hkdf_expand_def server_hkdf_extract_def expand_loop.simps assms Let_def
        session_key_spec_def rfc5869_expand_def info_string_def upt_rec)
qed

definition cache_ok :: "(bytes \<Rightarrow> bytes \<Rightarrow> bytes) \<Rightarrow> session_key_cache \<Rightarrow> bool" where
  "cache_ok hmac sc \<longleftrightarrow> distinct (map fst (sc_cache sc)) \<and> length (sc_cache sc) \<le> sc_max sc \<and> 0 < sc_max sc \<and>
     (\<forall>(r, k) \<in> set (sc_cache sc). k = session_key_spec hmac (sc_master sc) r)"

lemma filter_min_shorter:
  "xs \<noteq> [] \<Longrightarrow> length (filter (\<lambda>e. fst e \<noteq> Min (set (map fst xs))) xs) < length (xs :: (u64 \<times> bytes) list)"
proof -
  assume "xs \<noteq> []"
  then have "Min (set (map fst xs)) \<in> set (map fst xs)" by (intro Min_in) auto
  then obtain e where "e \<in> set xs" "fst e = Min (set (map fst xs))" by auto
  then show ?thesis by (intro length_filter_less [of e]) auto
qed

lemma cache_get_spec:
  assumes hmac: "\<And>key msg. length (hmac key msg) = 32" and ok: "cache_ok hmac sc"
  shows "\<exists>sc'. cache_get hmac rot sc = (Some (session_key_spec hmac (sc_master sc) rot), sc') \<and> cache_ok hmac sc' \<and>
    sc_master sc' = sc_master sc"
proof (cases "map_of (sc_cache sc) rot")
  case (Some key)
  then have "(rot, key) \<in> set (sc_cache sc)" by (rule map_of_SomeD)
  then have "key = session_key_spec hmac (sc_master sc) rot" using ok by (auto simp: cache_ok_def)
  with Some ok show ?thesis by (simp add: cache_get_def)
next
  case None
  then have new: "rot \<notin> fst ` set (sc_cache sc)" by (simp add: map_of_eq_None_iff)
  define kept where "kept = (if length (sc_cache sc) \<ge> sc_max sc
      then filter (\<lambda>e. fst e \<noteq> Min (set (map fst (sc_cache sc)))) (sc_cache sc) else sc_cache sc)"
  have get: "cache_get hmac rot sc = (Some (session_key_spec hmac (sc_master sc) rot),
      sc\<lparr>sc_cache := kept @ [(rot, session_key_spec hmac (sc_master sc) rot)]\<rparr>)"
    using None by (simp add: cache_get_def derive_agrees [OF hmac] kept_def Let_def)
  have sub: "set kept \<subseteq> set (sc_cache sc)" by (auto simp: kept_def)
  have dist: "distinct (map fst kept)" using ok by (simp add: kept_def cache_ok_def distinct_map_filter)
  have "length kept < sc_max sc"
  proof (cases "length (sc_cache sc) \<ge> sc_max sc")
    case True
    with ok have "sc_cache sc \<noteq> []" "length (sc_cache sc) = sc_max sc" by (auto simp: cache_ok_def)
    with filter_min_shorter [of "sc_cache sc"] True show ?thesis by (simp add: kept_def)
  qed (simp add: kept_def)
  with ok sub dist new get show ?thesis by (auto simp: cache_ok_def)
qed

section \<open>The server opens the module's frames\<close>

text \<open>The body of a frame, without the length prefix.\<close>

lemma frame_spec_parts:
  assumes laws: "aead_laws K has_key seal unseal" and ev: "event_ok ev" and iv: "length iv = 12"
  obtains body where "frame_spec seal key rot iv ev = le_word 4 (352 :: u32) @ body" "length body = 352"
    "parse_encrypted_frame body = Some \<lparr>ef_sequence_num = sequence_num ev, ef_rotation_num = rot, ef_iv = iv,
       ef_encrypted_len = 306, ef_auth_tag = drop 306 (seal key iv (event_bytes ev)),
       ef_ciphertext = take 306 (seal key iv (event_bytes ev))\<rparr>"
proof -
  let ?ct = "seal key iv (event_bytes ev)"
  let ?body = "le_word 8 (sequence_num ev) @ le_word 8 rot @ iv @ le_word 2 (306 :: u16) @ drop 306 ?ct @ take 306 ?ct"
  have ct: "length ?ct = 322"
    using aead_lawsD(5) [OF laws] length_event_bytes [OF ev] by (simp add: sizeof_photon_event_value)
  then have len: "length ?body = 352" using iv by simp
  have "frame_spec seal key rot iv ev = le_word 4 (352 :: u32) @ ?body"
    by (simp add: frame_spec_def Let_def frame_sizes sizeof_photon_event_value)
  moreover have "parse_encrypted_frame ?body = Some \<lparr>ef_sequence_num = sequence_num ev, ef_rotation_num = rot,
      ef_iv = iv, ef_encrypted_len = 306, ef_auth_tag = drop 306 ?ct, ef_ciphertext = take 306 ?ct\<rparr>"
    using ct iv by (simp add: parse_encrypted_frame_def ENC_HDR_SIZE_def Let_def word_of_le_le_word)
  ultimately show thesis using that len by blast
qed

lemma handle_frame_opens:
  assumes laws: "aead_laws K has_key seal unseal" and hmac: "hmac_ok K" and ok: "cache_ok (k_hmac_sha256 K) sc"
    and ev: "event_ok ev" and iv: "length iv = 12"
    and body: "frame_spec seal (session_key_spec (k_hmac_sha256 K) (sc_master sc) rot) rot iv ev = pre @ body" "length pre = 4"
  shows "\<exists>sc'. handle_frame (k_hmac_sha256 K) unseal body sc = (Event_Parse_Error (event_bytes ev), sc') \<and>
    cache_ok (k_hmac_sha256 K) sc' \<and> sc_master sc' = sc_master sc"
proof -
  let ?key = "session_key_spec (k_hmac_sha256 K) (sc_master sc) rot"
  obtain b where b: "frame_spec seal ?key rot iv ev = le_word 4 (352 :: u32) @ b"
    "parse_encrypted_frame b = Some \<lparr>ef_sequence_num = sequence_num ev, ef_rotation_num = rot, ef_iv = iv,
       ef_encrypted_len = 306, ef_auth_tag = drop 306 (seal ?key iv (event_bytes ev)),
       ef_ciphertext = take 306 (seal ?key iv (event_bytes ev))\<rparr>"
    by (rule frame_spec_parts [OF laws ev iv, of ?key rot])
  have "b = body" using b(1) body by (metis append_eq_append_conv length_le_word)
  have h: "length (k_hmac_sha256 K key msg) = 32" for key msg using hmac by (simp add: hmac_ok_def)
  obtain sc' where sc': "cache_get (k_hmac_sha256 K) rot sc = (Some ?key, sc')" "cache_ok (k_hmac_sha256 K) sc'"
    "sc_master sc' = sc_master sc"
    using cache_get_spec [OF h ok] by blast
  have "parse_photon_event (event_bytes ev) = None"
    using length_event_bytes [OF ev] by (simp add: parse_photon_event_def PHOTON_EVENT_SIZE_def sizeof_photon_event_value)
  with b(2) sc' aead_lawsD(6) [OF laws] show ?thesis by (simp add: handle_frame_def \<open>b = body\<close>)
qed

text \<open>A list of genuine frames under a master key: rotation number, IV and event of each.\<close>

definition genuine_frame ::
  "'t kenv \<Rightarrow> (bytes \<Rightarrow> bytes \<Rightarrow> bytes \<Rightarrow> bytes) \<Rightarrow> bytes \<Rightarrow> photon_event \<Rightarrow> bytes \<Rightarrow> bool" where
  "genuine_frame K seal master ev f \<longleftrightarrow> event_ok ev \<and> (\<exists>rot iv. length iv = 12 \<and>
     f = frame_spec seal (session_key_spec (k_hmac_sha256 K) master rot) rot iv ev)"

lemma frame_loop_opens:
  assumes laws: "aead_laws K has_key seal unseal" and hmac: "hmac_ok K"
  shows "list_all2 (genuine_frame K seal (sc_master sc)) evs fs \<Longrightarrow> cache_ok (k_hmac_sha256 K) sc \<Longrightarrow>
    \<exists>sc'. frame_loop (k_hmac_sha256 K) unseal (concat fs) sc = (map (\<lambda>ev. Event_Parse_Error (event_bytes ev)) evs, sc') \<and>
      cache_ok (k_hmac_sha256 K) sc'"
proof (induction fs arbitrary: evs sc)
  case Nil
  then show ?case by (simp add: frame_loop.simps recv_exactly_def)
next
  case (Cons f fs)
  from Cons.prems(1) obtain ev evs' where evs: "evs = ev # evs'" "genuine_frame K seal (sc_master sc) ev f"
    "list_all2 (genuine_frame K seal (sc_master sc)) evs' fs"
    by (auto simp: list_all2_Cons2)
  then obtain rot iv where g: "event_ok ev" "length iv = 12"
    "f = frame_spec seal (session_key_spec (k_hmac_sha256 K) (sc_master sc) rot) rot iv ev"
    by (auto simp: genuine_frame_def)
  obtain body where body: "f = le_word 4 (352 :: u32) @ body" "length body = 352"
    using frame_spec_parts [OF laws g(1,2)] g(3) by blast
  obtain sc1 where sc1: "handle_frame (k_hmac_sha256 K) unseal body sc = (Event_Parse_Error (event_bytes ev), sc1)"
    "cache_ok (k_hmac_sha256 K) sc1" "sc_master sc1 = sc_master sc"
    using handle_frame_opens [OF laws hmac Cons.prems(2) g(1,2), of rot "le_word 4 (352 :: u32)" body] g(3) body(1) by auto
  obtain sc' where "frame_loop (k_hmac_sha256 K) unseal (concat fs) sc1 =
      (map (\<lambda>ev. Event_Parse_Error (event_bytes ev)) evs', sc')" "cache_ok (k_hmac_sha256 K) sc'"
    using Cons.IH [of sc1 evs'] evs(3) sc1(2,3) by auto
  with sc1(1) body show ?case
    by (simp add: frame_loop.simps [of _ _ "body_stream" for body_stream] recv_exactly_def evs(1))
qed

end
