(* ===== verification/End_To_End.thy ===== *)
theory End_To_End
  imports Server
begin

text \<open>
  The whole path of an event: module, device, agent, server.  First an invariant of the running
  module: every frame in the ring seals a well-formed event under the HKDF key of the master key
  and of the rotation number that the frame carries, and while no key is set the ring is empty.
  With it, whatever the agent relays from a reachable state can be opened by a server that holds
  the master key.
\<close>

section \<open>The frames in the ring are genuine\<close>

definition ring_genuine :: "'t kenv \<Rightarrow> (bytes \<Rightarrow> bytes \<Rightarrow> bytes \<Rightarrow> bytes) \<Rightarrow> 't em_state \<Rightarrow> bool" where
  "ring_genuine K seal s \<longleftrightarrow> (\<forall>f \<in> set (ring_frames (g_ring s)). \<exists>ev. genuine_frame K seal (g_master_key s) ev f) \<and>
     (\<not> g_key_set s \<longrightarrow> ring_frames (g_ring s) = [])"

lemma ring_genuine_frame:
  assumes "ring_genuine K seal s" "set (ring_frames (g_ring s')) \<subseteq> set (ring_frames (g_ring s))"
    and "g_master_key s' = g_master_key s" "g_key_set s' = g_key_set s"
  shows "ring_genuine K seal s'"
  using assms by (auto simp: ring_genuine_def)

lemma ring_genuine_push:
  assumes "ring_genuine K seal s" "crypto_inv K has_key s" "g_key_set s" "event_ok ev" "length iv = 12"
    and "ring_frames (g_ring s') =
      take 255 (ring_frames (g_ring s) @ [frame_spec seal (g_session_key s) (g_rotation_counter s) iv ev])"
    and "g_master_key s' = g_master_key s" "g_key_set s' = g_key_set s"
  shows "ring_genuine K seal s'"
proof -
  let ?f = "frame_spec seal (g_session_key s) (g_rotation_counter s) iv ev"
  have "g_session_key s = session_key_spec (k_hmac_sha256 K) (g_master_key s) (g_rotation_counter s)"
    using assms(2,3) by (auto simp: crypto_inv_def)
  then have new: "genuine_frame K seal (g_master_key s) ev ?f" using assms(4,5) by (auto simp: genuine_frame_def)
  have "set (ring_frames (g_ring s')) \<subseteq> insert ?f (set (ring_frames (g_ring s)))"
    using assms(6) set_take_subset [of 255 "ring_frames (g_ring s) @ [?f]"] by simp
  then have "\<exists>ev. genuine_frame K seal (g_master_key s') ev f" if "f \<in> set (ring_frames (g_ring s'))" for f
    using that new assms(1,7) by (cases "f = ?f") (auto simp: ring_genuine_def)
  with assms(3,8) show ?thesis by (simp add: ring_genuine_def)
qed

lemma log_genuine:
  assumes env: "env_ok K has_key seal unseal n" and inv: "em_inv K has_key s" "length (event_buffers s) = n"
    and ring: "ring_genuine K seal s"
    and pay: "payload_ok data len" and log: "photon_log_event K current ty det sev data len s = Some (r, s')"
  shows "ring_genuine K seal s'"
proof -
  have s: "crypto_inv K has_key s" "cdev_up s" "buffers_ok s" "pending s = []" "length (event_buffers s) = n"
    using inv by (simp_all add: em_inv_def)
  have same: "same_statics s s'"
    using log_event_statics [OF s(3,4) _ pay log] env_okD(4) [OF env] s(5) by simp
  show ?thesis
  proof (cases "unat len \<le> 256")
    case False
    with log ring show ?thesis by (simp add: photon_log_event_def)
  next
    case small: True
    let ?ev = "build_event (g_sequence_counter s + 1) (k_ktime_real_ns K (now s)) ty det sev current data len"
    let ?s = "s\<lparr>g_sequence_counter := g_sequence_counter s + 1, total_events := total_events s + 1, now := Suc (Suc (now s))\<rparr>"
    obtain bs where "photon_log_event K current ty det sev data len s =
        Some (ok, (log_spec K current ty det sev data len s)\<lparr>event_buffers := bs\<rparr>)"
      using log_event_refines [OF s(3,4) _ small pay] env_okD(4) [OF env] s(5) by blast
    then have g: "g_ring s' = g_ring (send_and_count K ?ev ?s)" using log by (auto simp: log_spec_def Let_def)
    have inv2: "crypto_inv K has_key ?s" "cdev_up ?s" using s(1,2) by (auto simp: crypto_inv_def cdev_up_def)
    note eff = send_and_count_effect [OF env inv2 build_event_ok [OF small pay]]
    show ?thesis
    proof (cases "g_key_set s \<and> g_ring s' \<noteq> g_ring s")
      case True
      with eff(4) [of "g_sequence_counter s + 1" "k_ktime_real_ns K (now s)" ty det sev current] g
      obtain iv where "length iv = 12" "ring_frames (g_ring s') =
          take 255 (ring_frames (g_ring s) @ [frame_spec seal (g_session_key s) (g_rotation_counter s) iv ?ev])"
        by auto
      with True same show ?thesis
        by (intro ring_genuine_push [OF ring s(1) _ build_event_ok [OF small pay]]) (auto simp: same_statics_def)
    next
      case False
      then have "g_ring s' = g_ring s"
        using eff(3) [of "g_sequence_counter s + 1" "k_ktime_real_ns K (now s)" ty det sev current] g by auto
      with same show ?thesis by (intro ring_genuine_frame [OF ring]) (auto simp: same_statics_def)
    qed
  qed
qed

lemma module_em_inv: "module_inv K has_key n (s, h) \<Longrightarrow> em_inv K has_key s \<and> length (event_buffers s) = n"
  by (simp add: module_inv_def)

lemma heartbeat_genuine:
  assumes env: "env_ok K has_key seal unseal n" and inv: "module_inv K has_key n (s, h)" and ring: "ring_genuine K seal s"
    and beat: "photon_send_heartbeat K current s = Some (r, s')"
  shows "ring_genuine K seal s'"
proof -
  let ?s = "s\<lparr>now := Suc (now s)\<rparr>"
  obtain d where d: "photon_log_event K current (event_type_code PHOTON_EVENT_SYSTEM_HEARTBEAT) 0
           (severity_code PHOTON_SEV_INFO) (Some (system_bytes d)) 32 ?s = Some (r, s')"
    using beat unfolding photon_send_heartbeat_def ext_def Let_def by auto
  have "em_inv K has_key ?s" "length (event_buffers ?s) = n" using module_em_inv [OF inv] em_inv_now [of K has_key s] by auto
  moreover have "ring_genuine K seal ?s" by (rule ring_genuine_frame [OF ring]) simp_all
  ultimately show ?thesis by (rule log_genuine [OF env _ _ _ payload_system d])
qed

lemma ioctl_genuine:
  assumes env: "env_ok K has_key seal unseal n" and inv: "module_inv K has_key n (s, h)" and ring: "ring_genuine K seal s"
    and call: "photon_cdev_ioctl K current cap cmd arg s = Some (r, s')"
  shows "ring_genuine K seal s'"
proof (cases "cap \<and> cmd = PHOTON_IOC_SET_KEY \<and> \<not> g_key_set s \<and> arg \<noteq> None")
  case False
  then have "s' = s"
    using call by (cases arg) (auto simp: photon_cdev_ioctl_def photon_has_key_def split: if_splits)
  with ring show ?thesis by simp
next
  case True
  then obtain key where key: "arg = Some key" and nk: "\<not> g_key_set s" by blast
  obtain r1 s1 where set: "photon_set_encryption_key K (Some (take 32 key)) s = Some (r1, s1)"
    and rest: "(if failed r1 then Some (r1, s1)
             else do { (_, s) \<leftarrow> photon_send_heartbeat K current s1; Some (ok, s) }) = Some (r, s')"
    using call True key by (auto simp: photon_cdev_ioctl_def photon_has_key_def split: bind_splits)
  obtain t where t: "g_tfm s = Some t" "\<not> crypto_mutex s"
    using inv by (auto simp: module_inv_def em_inv_def crypto_inv_def)
  then have "g_ring s1 = g_ring s"
    by (cases rule: set_key_cases [where K = K and k = "take 32 key"]) (use set in auto)
  then have g1: "ring_genuine K seal s1" using ring nk by (simp add: ring_genuine_def)
  show ?thesis
  proof (cases "failed r1")
    case False
    then obtain q where "photon_send_heartbeat K current s1 = Some (q, s')" using rest by (auto split: bind_splits)
    then show ?thesis by (rule heartbeat_genuine [OF env set_key_step(1) [OF env inv nk set] g1])
  qed (use rest g1 in simp)
qed

lemma rotate_genuine:
  assumes env: "env_ok K has_key seal unseal n" and inv: "module_inv K has_key n (s, h)" and ring: "ring_genuine K seal s"
    and rot: "photon_rotate_key K current s = Some (r, s')"
  shows "ring_genuine K seal s'"
proof (cases "g_key_set s")
  case False
  with rot ring show ?thesis by (simp add: photon_rotate_key_def)
next
  case key: True
  have em: "em_inv K has_key s" "length (event_buffers s) = n" using module_em_inv [OF inv] by simp_all
  obtain t where t: "g_tfm s = Some t" "\<not> crypto_mutex s" using em key by (auto simp: em_inv_def crypto_inv_def)
  show ?thesis
  proof (rule rotate_cases [OF key t(2,1), of K current])
    fix e m assume "photon_rotate_key K current s = Some (Inl e, s\<lparr>now := m\<rparr>)"
    with rot have "s' = s\<lparr>now := m\<rparr>" by simp
    then show ?thesis by (intro ring_genuine_frame [OF ring]) simp_all
  next
    assume "photon_rotate_key K current s = None"
    with rot show ?thesis by simp
  next
    fix m k t' s1 d
    assume k: "k_aead_setkey K m k t = (ok, t')"
      "hmac_ok K \<Longrightarrow> k = session_key_spec (k_hmac_sha256 K) (g_master_key s) (g_rotation_counter s + 1)"
      and s1: "s1 = s\<lparr>g_rotation_counter := g_rotation_counter s + 1, g_session_key := k, g_tfm := Some t', now := Suc (Suc m)\<rparr>"
      and run: "photon_rotate_key K current s = do {
         (_, s) \<leftarrow> photon_log_event K current (event_type_code PHOTON_EVENT_SYSTEM_KEY_ROTATION) 0
                    (severity_code PHOTON_SEV_INFO) (Some (system_bytes d)) 32 s1;
         Some (ok, s)
       }"
    have em1: "em_inv K has_key s1" "length (event_buffers s1) = n"
      using rotated_crypto_inv [OF env_okD(1,5) [OF env] _ k] em
      unfolding s1 em_inv_def by (simp_all add: cdev_up_def buffers_ok_def pending_def)
    have g1: "ring_genuine K seal s1" by (rule ring_genuine_frame [OF ring]) (simp_all add: s1)
    obtain q where "photon_log_event K current (event_type_code PHOTON_EVENT_SYSTEM_KEY_ROTATION) 0
                    (severity_code PHOTON_SEV_INFO) (Some (system_bytes d)) 32 s1 = Some (q, s')"
      using rot run by (auto split: bind_splits)
    then show ?thesis by (rule log_genuine [OF env em1 g1 payload_system])
  qed
qed

lemma read_genuine:
  assumes inv: "module_inv K has_key n (s, h)" and ring: "ring_genuine K seal s"
    and read: "photon_cdev_read sig buf count s = Some (r, s')"
  shows "ring_genuine K seal s'"
proof -
  have s: "ring_ok (g_ring s)" "\<not> g_shutting_down s" "length (g_read_staging s) = PHOTON_FRAME_SLOT_SIZE"
    using inv by (simp_all add: module_inv_def em_inv_def cdev_up_def)
  show ?thesis
  proof (cases "ring_frames (g_ring s)")
    case Nil
    with read ring s show ?thesis by (simp add: read_empty split: if_splits)
  next
    case (Cons f fs)
    then show ?thesis
      by (rule read_next [OF s(1) _ s(2,3), of f fs sig buf count])
        (use read Cons in \<open>auto intro!: ring_genuine_frame [OF ring] split: if_splits\<close>)
  qed
qed

lemma step_genuine:
  assumes "env_ok K has_key seal unseal n" "module_step K st st'" "module_inv K has_key n st" "ring_genuine K seal (fst st)"
  shows "ring_genuine K seal (fst st')"
  using assms(2-)
proof cases
  case (read sig buf count s r s' h)
  then show ?thesis using read_genuine assms(3,4) by auto
next
  case (ioctl current cap cmd arg s r' s' h)
  then show ?thesis using ioctl_genuine [OF assms(1)] assms(3,4) by auto
next
  case (log data len current ty det sev s r' s' h)
  then show ?thesis using log_genuine [OF assms(1)] module_em_inv [of K has_key n s h] assms(3,4) by auto
next
  case (heartbeat current s r' s' h)
  then show ?thesis using heartbeat_genuine [OF assms(1)] assms(3,4) by auto
next
  case (rotate current s r' s' h)
  then show ?thesis using rotate_genuine [OF assms(1)] assms(3,4) by auto
qed (auto simp: photon_cdev_open_def photon_cdev_release_def ring_genuine_def split: if_splits)

lemma reachable_genuine:
  assumes "env_ok K has_key seal unseal (length (event_buffers s0))" "fresh s0" "reachable K s0 st"
  shows "ring_genuine K seal (fst st)"
  using assms(3)
proof induction
  case (loaded s)
  have down: "em_down s0" using assms(2) by (simp add: fresh_def)
  show ?case
    by (cases rule: em_init_cases [OF env_okD(3) [OF assms(1)] down, of has_key])
      (use loaded in \<open>simp_all add: ring_genuine_def\<close>)
next
  case (step st st')
  then show ?case using step_genuine [OF assms(1) step(2) reachable_inv [OF assms(1,2) step(1)]] by blast
qed

section \<open>Properties\<close>

text \<open>
  C3. The frames in the ring are genuine.  In every state the loaded module can reach, each queued frame is 356
  bytes long and seals a well-formed event under the HKDF key of the master key and the rotation
  number in the frame, also frames that were queued before later rotations; while no key is set
  nothing is queued.
\<close>

theorem ring_frames_are_genuine:
  assumes "env_ok K has_key seal unseal (length (event_buffers s0))" "fresh s0" "reachable K s0 (s, h)"
  shows "(\<not> g_key_set s \<longrightarrow> ring_frames (g_ring s) = []) \<and>
    (\<forall>f \<in> set (ring_frames (g_ring s)). length f = 356 \<and> (\<exists>rot iv ev. event_ok ev \<and> length iv = 12 \<and>
       f = frame_spec seal (session_key_spec (k_hmac_sha256 K) (g_master_key s) rot) rot iv ev))"
proof -
  have "ring_genuine K seal s" using reachable_genuine [OF assms] by simp
  then show ?thesis
    using length_frame_spec [OF env_okD(5) [OF assms(1)]]
    by (fastforce simp: ring_genuine_def genuine_frame_def frame_sizes)
qed

text \<open>
  A reachable state of the concrete environment with a key and a queued frame, the device closed: in
  that environment no send fails, so a logged event is queued.
\<close>

lemma demo_send_ok:
  "g_key_set s \<Longrightarrow> g_tfm s \<noteq> None \<Longrightarrow> fst (photon_send_encrypted_event demo_env ev s) = ok"
  by (simp add: photon_send_encrypted_event_def photon_has_key_def photon_encrypt_event_def verify_crypto_transform_def
      ext_def kmalloc_def demo_env_def Let_def sizeof_photon_event_value frame_sizes split_beta)

lemma demo_log_queues:
  assumes "em_inv demo_env (\<lambda>t k. t = k) s" "length (event_buffers s) = 2" "g_key_set s" "g_tfm s \<noteq> None"
  shows "\<exists>s'. photon_log_event demo_env current ty det sev None 0 s = Some (ok, s') \<and> ring_frames (g_ring s') \<noteq> []"
proof -
  have s: "crypto_inv demo_env (\<lambda>t k. t = k) s" "cdev_up s" "buffers_ok s" "pending s = []"
    using assms(1) by (simp_all add: em_inv_def)
  have pay: "payload_ok None 0" by (simp add: payload_ok_def)
  let ?ev = "build_event (g_sequence_counter s + 1) (k_ktime_real_ns demo_env (now s)) ty det sev current None 0"
  let ?s = "s\<lparr>g_sequence_counter := g_sequence_counter s + 1, total_events := total_events s + 1, now := Suc (Suc (now s))\<rparr>"
  have ev: "event_ok ?ev" by (rule build_event_ok [OF _ pay]) simp
  obtain bs where log: "photon_log_event demo_env current ty det sev None 0 s =
      Some (ok, (log_spec demo_env current ty det sev None 0 s)\<lparr>event_buffers := bs\<rparr>)"
    using log_event_refines [OF s(3,4) _ _ pay] demo_env_cpus assms(2) by fastforce
  have "crypto_inv demo_env (\<lambda>t k. t = k) ?s" "cdev_up ?s" using s(1,2) by (auto simp: crypto_inv_def cdev_up_def)
  note eff = send_and_count_effect(4) [OF demo_env_all this ev]
  have "fst (photon_send_encrypted_event demo_env ?ev ?s) = ok" using assms(3,4) by (intro demo_send_ok) simp_all
  then have "send_failures (send_and_count demo_env ?ev ?s) = send_failures ?s"
    using send_frame [of demo_env ?ev ?s] by (auto simp: send_and_count_def split: prod.splits sum.splits)
  moreover have "send_failures ?s \<noteq> send_failures ?s + 1" by simp
  ultimately have "ring_frames (g_ring (send_and_count demo_env ?ev ?s)) \<noteq> []" using eff assms(3) by fastforce
  with log show ?thesis by (auto simp: log_spec_def)
qed

lemma queued_reachable: "\<exists>s. reachable demo_env em_initial (s, 0) \<and> g_key_set s \<and> ring_frames (g_ring s) \<noteq> []"
proof -
  obtain s where s: "reachable demo_env em_initial (s, 1)" "g_key_set s" using keyed_reachable by blast
  note inv = reachable_inv [OF em_initial_env em_initial_fresh s(1)]
  then have m: "em_inv demo_env (\<lambda>t k. t = k) s" "length (event_buffers s) = 2" "g_tfm s \<noteq> None"
    by (simp_all add: module_inv_def em_initial_def cdev_state.defs)
  obtain s' where s': "photon_log_event demo_env \<lparr>task_pid = 7, task_comm = ''sh''\<rparr> 1 1 0 None 0 s = Some (ok, s')"
    "ring_frames (g_ring s') \<noteq> []"
    using demo_log_queues [OF m(1,2) s(2) m(3)] by blast
  have pay: "payload_ok None 0" by (simp add: payload_ok_def)
  have "same_statics s s'" by (rule log_step(2) [OF em_initial_env inv pay s'(1)])
  then have "g_key_set s'" using s(2) by (simp add: same_statics_def)
  moreover have "reachable demo_env em_initial (photon_cdev_release s', 0)"
    using reachable.step [OF reachable.step [OF s(1) module_step.log [OF pay s'(1)]], of "(photon_cdev_release s', 0)"]
      module_step.release [of demo_env s' 0] by simp
  ultimately show ?thesis using s'(2) by (intro exI [of _ "photon_cdev_release s'"]) (simp add: photon_cdev_release_def)
qed

theorem ring_frames_are_genuine_witness:
  "\<exists>s f. reachable demo_env em_initial (s, 0) \<and> g_key_set s \<and> f \<in> set (ring_frames (g_ring s)) \<and> length f = 356"
proof -
  obtain s where "reachable demo_env em_initial (s, 0)" "g_key_set s" "ring_frames (g_ring s) \<noteq> []"
    using queued_reachable by blast
  moreover then have "hd (ring_frames (g_ring s)) \<in> set (ring_frames (g_ring s))" by simp
  ultimately show ?thesis using ring_frames_are_genuine [OF em_initial_env em_initial_fresh] by blast
qed

lemma genuine_events:
  assumes "ring_genuine K seal s"
  obtains evs where "list_all2 (genuine_frame K seal (g_master_key s)) evs (ring_frames (g_ring s))"
proof -
  have "\<forall>f \<in> set (ring_frames (g_ring s)). \<exists>ev. genuine_frame K seal (g_master_key s) ev f"
    using assms by (simp add: ring_genuine_def)
  then have "\<exists>evs. list_all2 (genuine_frame K seal (g_master_key s)) evs fs" if "set fs \<subseteq> set (ring_frames (g_ring s))" for fs
    using that by (induction fs) (auto simp: list_all2_Cons2)
  with that show thesis by blast
qed

lemma genuine_long: "aead_laws K has_key seal unseal \<Longrightarrow> genuine_frame K seal m ev f \<Longrightarrow> length f = 356"
  using length_frame_spec by (fastforce simp: genuine_frame_def frame_sizes)



end
