(* ===== verification/Concurrent_Logging.thy ===== *)
theory Concurrent_Logging
  imports Event_Manager "HOL-Library.Multiset"
begin

text \<open>
  \<open>photon_log_event\<close> of \<open>comms/event_manager.c\<close> called by many threads at once.  A thread's position in the
  code is a value of \<open>pc\<close>; a step of a thread is what the code does between two points at which
  another thread can observe it: an atomic increment, the critical section of a buffer lock, or
  the sending of one event with the lock released.  Any thread may take the next step, and between
  two steps the rest of the module (reads, ioctls, key rotation) may change whatever is not
  part of the event manager.  A trace of labels records what became of every event.
\<close>

section \<open>One thread\<close>

record log_call =
  lc_type :: u32
  lc_detector :: u32
  lc_severity :: u8
  lc_current :: task
  lc_data :: "bytes option"
  lc_len :: u16

text \<open>
  \<open>Flushing r cpus\<close> is a thread in \<open>flush_all_buffers\<close> that has yet to drain the buffers of \<open>cpus\<close>; \<open>r\<close> is the event
  of a first attempt that found the buffer full, and is enqueued again after the flush.
  \<open>Sending r cpus ev\<close> has taken \<open>ev\<close> out of the buffer of the first of \<open>cpus\<close>.
\<close>

datatype pc =
    Idle
  | Numbered u64 log_call
  | Built photon_event
  | Flushing "photon_event option" "nat list"
  | Sending "photon_event option" "nat list" photon_event
  | Returned "unit kresult"

definition begin_log :: "log_call \<Rightarrow> 't em_state \<Rightarrow> pc \<times> 't em_state" where
  "begin_log c s =
     (if unat (lc_len c) > PHOTON_MAX_EVENT_DATA then (Returned (Inl EINVAL), s)
      else (Numbered (g_sequence_counter s + 1) c, s\<lparr>g_sequence_counter := g_sequence_counter s + 1\<rparr>))"

definition all_cpus :: "'t em_state \<Rightarrow> nat list" where
  "all_cpus s = [0..<length (event_buffers s)]"

fun thread_step :: "'t kenv \<Rightarrow> pc \<Rightarrow> 't em_state \<Rightarrow> pc \<times> 't em_state" where
  "thread_step K Idle s = (Idle, s)"
| "thread_step K (Returned r) s = (Returned r, s)"
| "thread_step K (Numbered seq c) s =
     (let (time, s) = ext (k_ktime_real_ns K) s
      in (Built (build_event seq time (lc_type c) (lc_detector c) (lc_severity c) (lc_current c) (lc_data c) (lc_len c)),
          s\<lparr>total_events := total_events s + 1\<rparr>))"
| "thread_step K (Built event) s =
     (case enqueue_event K event s of
        (Inr _, s) \<Rightarrow> (Flushing None (all_cpus s), s)
      | (Inl _, s) \<Rightarrow> (Flushing (Some event) (all_cpus s), s))"
| "thread_step K (Flushing r (cpu # cpus)) s =
     (case buffer_take (event_buffers s ! cpu) of
        (None, _) \<Rightarrow> (Flushing r cpus, s)
      | (Some event, buf) \<Rightarrow> (Sending r (cpu # cpus) event, s\<lparr>event_buffers := (event_buffers s)[cpu := buf]\<rparr>))"
| "thread_step K (Sending r cpus event) s = (Flushing r cpus, send_and_count K event s)"
| "thread_step K (Flushing None []) s = (Returned ok, s)"
| "thread_step K (Flushing (Some event) []) s =
     (case enqueue_event K event s of
        (Inr _, s) \<Rightarrow> (Flushing None (all_cpus s), s)
      | (Inl e, s) \<Rightarrow> (Returned (Inl e), s))"

section \<open>Interleaving\<close>

datatype label =
    Tau
  | Accepted
  | Counted photon_event
  | Refused photon_event
  | Sent photon_event
  | Failed photon_event
  | Lost photon_event

fun label_of :: "'t kenv \<Rightarrow> pc \<Rightarrow> 't em_state \<Rightarrow> label" where
  "label_of K (Numbered seq c) s =
     (case fst (thread_step K (Numbered seq c) s) of Built event \<Rightarrow> Counted event | _ \<Rightarrow> Tau)"
| "label_of K (Built event) s = (if failed (fst (enqueue_event K event s)) then Refused event else Tau)"
| "label_of K (Flushing (Some event) []) s = (if failed (fst (enqueue_event K event s)) then Lost event else Tau)"
| "label_of K (Sending r cpus event) s =
     (if failed (fst (photon_send_encrypted_event K event s)) then Failed event else Sent event)"
| "label_of K _ s = Tau"

text \<open>The variables of \<open>event_manager.c\<close>, which no other file touches.\<close>

definition logging_part :: "'t em_state \<Rightarrow> u64 \<times> event_buffer list \<times> u64 \<times> u64 \<times> u64 \<times> u64" where
  "logging_part s = (g_sequence_counter s, event_buffers s, total_events s, total_dropped s, total_sent s, send_failures s)"

inductive concurrent_step :: "'t kenv \<Rightarrow> 't em_state \<times> pc list \<Rightarrow> label \<Rightarrow> 't em_state \<times> pc list \<Rightarrow> bool" for K where
  call: "i < length pcs \<Longrightarrow> pcs ! i = Idle \<or> pcs ! i = Returned r \<Longrightarrow> payload_ok (lc_data c) (lc_len c) \<Longrightarrow>
    begin_log c s = (p, s') \<Longrightarrow>
    concurrent_step K (s, pcs) (if unat (lc_len c) > PHOTON_MAX_EVENT_DATA then Tau else Accepted) (s', pcs[i := p])"
| advance: "i < length pcs \<Longrightarrow> thread_step K (pcs ! i) s = (p, s') \<Longrightarrow>
    concurrent_step K (s, pcs) (label_of K (pcs ! i) s) (s', pcs[i := p])"
| other: "logging_part s' = logging_part s \<Longrightarrow> concurrent_step K (s, pcs) Tau (s', pcs)"

inductive concurrent_run :: "'t kenv \<Rightarrow> 't em_state \<Rightarrow> nat \<Rightarrow> label list \<Rightarrow> 't em_state \<times> pc list \<Rightarrow> bool" for K s0 n where
  start: "concurrent_run K s0 n [] (s0, replicate n Idle)"
| step: "concurrent_run K s0 n tr conf \<Longrightarrow> concurrent_step K conf l conf' \<Longrightarrow> concurrent_run K s0 n (tr @ [l]) conf'"

text \<open>What a trace says of the events.\<close>

fun counted_of :: "label \<Rightarrow> photon_event list" where
  "counted_of (Counted ev) = [ev]" | "counted_of _ = []"

fun sent_of :: "label \<Rightarrow> photon_event list" where
  "sent_of (Sent ev) = [ev]" | "sent_of _ = []"

fun failed_of :: "label \<Rightarrow> photon_event list" where
  "failed_of (Failed ev) = [ev]" | "failed_of _ = []"

fun refused_of :: "label \<Rightarrow> photon_event list" where
  "refused_of (Refused ev) = [ev]" | "refused_of _ = []"

fun lost_of :: "label \<Rightarrow> photon_event list" where
  "lost_of (Lost ev) = [ev]" | "lost_of _ = []"

definition outcomes :: "(label \<Rightarrow> photon_event list) \<Rightarrow> label list \<Rightarrow> photon_event list" where
  "outcomes f tr = concat (map f tr)"

lemma outcomes_simps [simp]: "outcomes f [] = []" "outcomes f (tr @ [l]) = outcomes f tr @ f l"
  by (simp_all add: outcomes_def)

text \<open>The events a thread holds, and the buffers it has yet to drain.\<close>

fun held :: "pc \<Rightarrow> photon_event multiset" where
  "held (Built ev) = {#ev#}"
| "held (Flushing r cpus) = mset_set (set_option r)"
| "held (Sending r cpus ev) = add_mset ev (mset_set (set_option r))"
| "held _ = {#}"

fun todo :: "pc \<Rightarrow> nat set" where
  "todo (Flushing r cpus) = set cpus"
| "todo (Sending r cpus ev) = set cpus"
| "todo _ = {}"

fun pc_ok :: "nat \<Rightarrow> pc \<Rightarrow> bool" where
  "pc_ok n (Numbered seq c) = (unat (lc_len c) \<le> 256 \<and> payload_ok (lc_data c) (lc_len c))"
| "pc_ok n (Built ev) = event_ok ev"
| "pc_ok n (Flushing r cpus) = ((\<forall>ev \<in> set_option r. event_ok ev) \<and> set cpus \<subseteq> {..<n})"
| "pc_ok n (Sending r cpus ev) = (event_ok ev \<and> (\<forall>ev \<in> set_option r. event_ok ev) \<and> set cpus \<subseteq> {..<n})"
| "pc_ok n _ = True"

section \<open>One step of one thread\<close>

lemma sum_list_update_swap:
  "i < length xs \<Longrightarrow> sum_list (map f (xs[i := x])) + f (xs ! i) = sum_list (map f xs) + (f x :: 'b :: comm_monoid_add)"
proof (induction xs arbitrary: i)
  case (Cons y xs)
  show ?case
  proof (cases i)
    case 0
    then show ?thesis by (simp add: ac_simps)
  next
    case (Suc j)
    with Cons.IH [of j] Cons.prems show ?thesis by (simp add: add.assoc)
  qed
qed simp

lemma mset_concat_map: "mset (concat (map f xs)) = sum_list (map (\<lambda>x. mset (f x)) xs)"
  by (induction xs) simp_all

lemma mset_pending: "mset (pending s) = sum_list (map (\<lambda>b. mset (buffer_events b)) (event_buffers s))"
  by (simp add: pending_def mset_concat_map)

lemma pending_update:
  assumes "c < length (event_buffers s)" "event_buffers s' = (event_buffers s)[c := b]"
  shows "mset (pending s') + mset (buffer_events (event_buffers s ! c)) = mset (pending s) + mset (buffer_events b)"
  using sum_list_update_swap [OF assms(1), of "\<lambda>b. mset (buffer_events b)" b] by (simp add: mset_pending assms(2))

text \<open>What a step does to the buffers, the counters and the events on the way.\<close>

definition accounted :: "'t em_state \<Rightarrow> pc \<Rightarrow> 't em_state \<Rightarrow> pc \<Rightarrow> label \<Rightarrow> bool" where
  "accounted s p s' p' l \<longleftrightarrow>
     buffers_ok s' \<and> length (event_buffers s') = length (event_buffers s) \<and> pc_ok (length (event_buffers s)) p' \<and>
     mset (pending s') + held p' + (mset (sent_of l) + mset (failed_of l) + mset (lost_of l)) =
       mset (pending s) + held p + mset (counted_of l) \<and>
     g_sequence_counter s' = g_sequence_counter s \<and>
     total_events s' = total_events s + of_nat (length (counted_of l)) \<and>
     total_sent s' = total_sent s + of_nat (length (sent_of l)) \<and>
     send_failures s' = send_failures s + of_nat (length (failed_of l)) \<and>
     total_dropped s' = total_dropped s + of_nat (length (refused_of l) + length (lost_of l)) \<and>
     (\<forall>c < length (event_buffers s). buffer_events (event_buffers s' ! c) \<noteq> [] \<longrightarrow>
        c \<in> todo p' \<or> buffer_events (event_buffers s ! c) \<noteq> [] \<and> c \<notin> todo p)"

lemma enqueue_cases:
  assumes "enqueue_event K ev s = (r, s')"
  obtains
    (full) n cpu where "cpu = k_this_cpu K (now s)" "r = Inl ENOSPC" "s' = s\<lparr>now := n,
      event_buffers := (event_buffers s)[cpu := (event_buffers s ! cpu)\<lparr>eb_dropped := eb_dropped (event_buffers s ! cpu) + 1\<rparr>],
      total_dropped := total_dropped s + 1\<rparr>"
  | (room) n cpu where "cpu = k_this_cpu K (now s)" "\<not> buffer_is_full (event_buffers s ! cpu)" "r = ok"
      "s' = s\<lparr>now := n, event_buffers := (event_buffers s)[cpu := snd (buffer_put (event_buffers s ! cpu) ev)]\<rparr>"
proof (cases "buffer_is_full (event_buffers s ! k_this_cpu K (now s))")
  case True
  show thesis by (rule full [OF refl, where n = "Suc (now s)"]) (use assms enqueue_full [where ev = ev, OF refl True] in simp_all)
next
  case False
  show thesis by (rule room [OF refl False, where n = "Suc (now s)"]) (use assms enqueue_room [where ev = ev, OF refl False] in simp_all)
qed

lemma enqueue_result:
  assumes "buffers_ok s" "cpus_ok K (length (event_buffers s))" "event_ok ev" "enqueue_event K ev s = (r, s')"
  shows "buffers_ok s'" "length (event_buffers s') = length (event_buffers s)"
    "g_sequence_counter s' = g_sequence_counter s" "total_events s' = total_events s"
    "total_sent s' = total_sent s" "send_failures s' = send_failures s"
    "total_dropped s' = total_dropped s + (if failed r then 1 else 0)"
    "failed r \<Longrightarrow> c < length (event_buffers s) \<Longrightarrow> buffer_events (event_buffers s' ! c) = buffer_events (event_buffers s ! c)"
    "mset (pending s') = (if failed r then mset (pending s) else add_mset ev (mset (pending s)))"
proof -
  show "buffers_ok s'" "length (event_buffers s') = length (event_buffers s)" using enqueue_buffers_ok [OF assms] by simp_all
  show "g_sequence_counter s' = g_sequence_counter s" "total_events s' = total_events s"
    "total_sent s' = total_sent s" "send_failures s' = send_failures s"
    "total_dropped s' = total_dropped s + (if failed r then 1 else 0)"
    by (rule enqueue_cases [OF assms(4)]; simp)+
  show "failed r \<Longrightarrow> c < length (event_buffers s) \<Longrightarrow> buffer_events (event_buffers s' ! c) = buffer_events (event_buffers s ! c)"
    by (rule enqueue_cases [OF assms(4)]; cases "c = k_this_cpu K (now s)"; simp)
  show "mset (pending s') = (if failed r then mset (pending s) else add_mset ev (mset (pending s)))"
  proof (rule enqueue_cases [OF assms(4)])
    fix n cpu
    assume cpu: "cpu = k_this_cpu K (now s)" and r: "r = Inl ENOSPC" and s': "s' = s\<lparr>now := n,
      event_buffers := (event_buffers s)[cpu := (event_buffers s ! cpu)\<lparr>eb_dropped := eb_dropped (event_buffers s ! cpu) + 1\<rparr>],
      total_dropped := total_dropped s + 1\<rparr>"
    have c: "cpu < length (event_buffers s)" using assms(2) cpu by (simp add: cpus_ok_def)
    from pending_update [OF c, of s' "(event_buffers s ! cpu)\<lparr>eb_dropped := eb_dropped (event_buffers s ! cpu) + 1\<rparr>"] r
    show ?thesis by (simp add: s')
  next
    fix n cpu
    assume cpu: "cpu = k_this_cpu K (now s)" and nf: "\<not> buffer_is_full (event_buffers s ! cpu)" and r: "r = ok"
      and s': "s' = s\<lparr>now := n, event_buffers := (event_buffers s)[cpu := snd (buffer_put (event_buffers s ! cpu) ev)]\<rparr>"
    have c: "cpu < length (event_buffers s)" using assms(2) cpu by (simp add: cpus_ok_def)
    then have "buffer_ok (event_buffers s ! cpu)" using assms(1) by (simp add: buffers_ok_def)
    from buffer_put_room(2) [OF this nf, of ev] pending_update [OF c, of s' "snd (buffer_put (event_buffers s ! cpu) ev)"] r
    show ?thesis by (simp add: s')
  qed
qed

lemma send_result:
  "g_sequence_counter (send_and_count K ev s) = g_sequence_counter s"
  "total_events (send_and_count K ev s) = total_events s" "total_dropped (send_and_count K ev s) = total_dropped s"
  "total_sent (send_and_count K ev s) = total_sent s + (if failed (fst (photon_send_encrypted_event K ev s)) then 0 else 1)"
  "send_failures (send_and_count K ev s) = send_failures s + (if failed (fst (photon_send_encrypted_event K ev s)) then 1 else 0)"
  using send_frame [of K ev s] by (auto simp: send_and_count_def split: prod.splits sum.splits)

lemma pending_same: "event_buffers s' = event_buffers s \<Longrightarrow> pending s' = pending s \<and> buffers_ok s' = buffers_ok s"
  by (simp add: pending_def buffers_ok_def)

lemma all_cpus_set: "set (all_cpus s) = {..<length (event_buffers s)}"
  by (auto simp: all_cpus_def)

lemma accounted_enqueue:
  assumes s: "buffers_ok s" "cpus_ok K (length (event_buffers s))" "event_ok ev"
    and enq: "enqueue_event K ev s = (r, s')"
  shows "\<not> failed r \<Longrightarrow> todo p = {} \<Longrightarrow> held p = {#ev#} \<Longrightarrow> accounted s p s' (Flushing None (all_cpus s')) Tau"
    and "failed r \<Longrightarrow> accounted s (Built ev) s' (Flushing (Some ev) (all_cpus s')) (Refused ev)"
    and "failed r \<Longrightarrow> accounted s (Flushing (Some ev) []) s' (Returned r) (Lost ev)"
  using enqueue_result [OF s enq] s(3) by (auto simp: accounted_def all_cpus_set)

lemma accounted_take:
  assumes s: "buffers_ok s" and ok: "pc_ok (length (event_buffers s)) (Flushing r (cpu # cpus))"
  shows "accounted s (Flushing r (cpu # cpus)) (snd (thread_step K (Flushing r (cpu # cpus)) s))
    (fst (thread_step K (Flushing r (cpu # cpus)) s)) Tau"
proof -
  have cpu: "cpu < length (event_buffers s)" using ok by simp
  then have b: "buffer_ok (event_buffers s ! cpu)" using s by (simp add: buffers_ok_def)
  show ?thesis
  proof (cases "buffer_events (event_buffers s ! cpu)")
    case Nil
    then show ?thesis using s ok event_ring.pop_empty [OF b] by (auto simp: accounted_def)
  next
    case (Cons ev evs)
    obtain b' where t: "buffer_take (event_buffers s ! cpu) = (Some ev, b')" "buffer_ok b'" "buffer_events b' = evs"
      using buffer_take_next [OF b Cons] by blast
    let ?s = "s\<lparr>event_buffers := (event_buffers s)[cpu := b']\<rparr>"
    have "event_ok ev" using b Cons by (simp add: buffer_ok_def)
    moreover have "buffers_ok ?s" using buffers_ok_update [OF s t(2)] by (simp add: buffers_ok_def)
    moreover have "add_mset ev (mset (pending ?s)) = mset (pending s)"
      using pending_update [OF cpu, of ?s b'] Cons t(3) by simp
    moreover have "buffer_events (event_buffers s ! c) \<noteq> []" "c \<noteq> cpu \<or> c \<in> insert cpu (set cpus)"
      if "c < length (event_buffers s)" "buffer_events (event_buffers ?s ! c) \<noteq> []" for c
      using that Cons cpu by (cases "c = cpu"; simp)+
    ultimately show ?thesis using t(1) ok by (auto simp: accounted_def)
  qed
qed

lemma accounted_send:
  assumes "buffers_ok s" "pc_ok (length (event_buffers s)) (Sending r cpus ev)"
  shows "accounted s (Sending r cpus ev) (send_and_count K ev s) (Flushing r cpus) (label_of K (Sending r cpus ev) s)"
  using assms pending_same [OF send_keeps_buffers [of K ev s]] by (auto simp: accounted_def send_result)

lemma accounted_build:
  assumes "buffers_ok s" "pc_ok (length (event_buffers s)) (Numbered seq c)"
  shows "accounted s (Numbered seq c) (snd (thread_step K (Numbered seq c) s)) (fst (thread_step K (Numbered seq c) s))
    (label_of K (Numbered seq c) s)"
  using assms build_event_ok [of "lc_len c" "lc_data c"]
  by (auto simp: accounted_def ext_def buffers_ok_def pending_def)

lemma thread_step_accounted:
  assumes s: "buffers_ok s" "cpus_ok K (length (event_buffers s))" "pc_ok (length (event_buffers s)) p"
    and step: "thread_step K p s = (p', s')"
  shows "accounted s p s' p' (label_of K p s)"
proof (cases "(K, p, s)" rule: thread_step.cases)
  case (3 K' seq c s1)
  then show ?thesis using accounted_build [OF s(1), of seq c K] s(3) step by simp
next
  case (4 K' ev s1)
  obtain r t where enq: "enqueue_event K ev s = (r, t)" by fastforce
  then show ?thesis using accounted_enqueue [OF s(1,2) _ enq] 4 s(3) step by (cases r) auto
next
  case (5 K' r cpu cpus s1)
  then show ?thesis using accounted_take [OF s(1), of r cpu cpus K] s(3) step by (cases r) auto
next
  case (6 K' r cpus ev s1)
  then show ?thesis using accounted_send [OF s(1), of r cpus ev K] s(3) step by auto
next
  case (8 K' ev s1)
  obtain r t where enq: "enqueue_event K ev s = (r, t)" by fastforce
  then show ?thesis using accounted_enqueue [OF s(1,2) _ enq] 8 s(3) step by (cases r) auto
qed (use s step in \<open>auto simp: accounted_def\<close>)

section \<open>Every interleaving\<close>

text \<open>The numbers that are assigned and not yet in an event, and the number of accepted calls.\<close>

fun numbered :: "pc \<Rightarrow> u64 multiset" where
  "numbered (Numbered seq c) = {#seq#}" | "numbered _ = {#}"

fun accepted_of :: "label \<Rightarrow> nat" where
  "accepted_of Accepted = 1" | "accepted_of _ = 0"

definition accepted :: "label list \<Rightarrow> nat" where
  "accepted tr = sum_list (map accepted_of tr)"

definition sequence_numbers :: "u64 \<Rightarrow> nat \<Rightarrow> u64 multiset" where
  "sequence_numbers g k = mset (map (\<lambda>j. g + of_nat (Suc j)) [0..<k])"

definition threads_inv :: "'t em_state \<Rightarrow> 't em_state \<times> pc list \<Rightarrow> bool" where
  "threads_inv s0 = (\<lambda>(s, pcs). buffers_ok s \<and> length (event_buffers s) = length (event_buffers s0) \<and>
     (\<forall>p \<in> set pcs. pc_ok (length (event_buffers s0)) p) \<and>
     (\<forall>c < length (event_buffers s0). buffer_events (event_buffers s ! c) \<noteq> [] \<longrightarrow> (\<exists>p \<in> set pcs. c \<in> todo p)))"

definition trace_inv :: "'t em_state \<Rightarrow> label list \<Rightarrow> 't em_state \<times> pc list \<Rightarrow> bool" where
  "trace_inv s0 tr = (\<lambda>(s, pcs).
     mset (pending s) + sum_list (map held pcs) +
       (mset (outcomes sent_of tr) + mset (outcomes failed_of tr) + mset (outcomes lost_of tr)) = mset (outcomes counted_of tr) \<and>
     g_sequence_counter s = g_sequence_counter s0 + of_nat (accepted tr) \<and>
     total_events s = total_events s0 + of_nat (length (outcomes counted_of tr)) \<and>
     total_sent s = total_sent s0 + of_nat (length (outcomes sent_of tr)) \<and>
     send_failures s = send_failures s0 + of_nat (length (outcomes failed_of tr)) \<and>
     total_dropped s = total_dropped s0 + of_nat (length (outcomes refused_of tr) + length (outcomes lost_of tr)) \<and>
     image_mset sequence_num (mset (outcomes counted_of tr)) + sum_list (map numbered pcs) =
       sequence_numbers (g_sequence_counter s0) (accepted tr))"

lemma accepted_snoc [simp]: "accepted [] = 0" "accepted (tr @ [l]) = accepted tr + accepted_of l"
  by (simp_all add: accepted_def)

lemma numbered_step:
  assumes "thread_step K p s = (p', s')"
  shows "image_mset sequence_num (mset (counted_of (label_of K p s))) + numbered p' = numbered p"
    "accepted_of (label_of K p s) = 0"
proof -
  show "image_mset sequence_num (mset (counted_of (label_of K p s))) + numbered p' = numbered p"
    using assms by (cases "(K, p, s)" rule: thread_step.cases)
      (auto simp: ext_def build_event_def split: prod.splits sum.splits option.splits)
  show "accepted_of (label_of K p s) = 0"
    by (cases "(K, p, s)" rule: label_of.cases) (auto simp: ext_def)
qed

lemma threads_advance:
  assumes inv: "threads_inv s0 (s, pcs)" "cpus_ok K (length (event_buffers s0))" "i < length pcs"
    and step: "thread_step K (pcs ! i) s = (p, s')"
  shows "threads_inv s0 (s', pcs[i := p])" "accounted s (pcs ! i) s' p (label_of K (pcs ! i) s)"
proof -
  let ?n = "length (event_buffers s0)"
  have s: "buffers_ok s" "length (event_buffers s) = ?n" "pc_ok ?n (pcs ! i)"
    using inv(1,3) by (auto simp: threads_inv_def)
  show acc: "accounted s (pcs ! i) s' p (label_of K (pcs ! i) s)"
    using thread_step_accounted [OF s(1) _ _ step] inv(2) s(2,3) by simp
  have "\<exists>q \<in> set (pcs[i := p]). c \<in> todo q" if c: "c < ?n" "buffer_events (event_buffers s' ! c) \<noteq> []" for c
  proof (cases "c \<in> todo p")
    case True
    with inv(3) show ?thesis by (auto simp: set_update_memI)
  next
    case False
    with acc c s(2) have "buffer_events (event_buffers s ! c) \<noteq> []" "c \<notin> todo (pcs ! i)" by (auto simp: accounted_def)
    then obtain j where j: "j < length pcs" "c \<in> todo (pcs ! j)" "j \<noteq> i"
      using inv(1) c(1) by (fastforce simp: threads_inv_def in_set_conv_nth)
    then have "pcs[i := p] ! j = pcs ! j" "j < length (pcs[i := p])" by simp_all
    with j(2) show ?thesis by (metis nth_mem)
  qed
  moreover have "set (pcs[i := p]) \<subseteq> insert p (set pcs)" by (rule set_update_subset_insert)
  ultimately show "threads_inv s0 (s', pcs[i := p])"
    using acc inv(1) s(2) unfolding threads_inv_def accounted_def by auto
qed

lemma multiset_balance:
  fixes P P' :: "'a multiset"
  assumes "H' + h = H + h'" "P' + h' + (s + f + l) = P + h + c" "P + H + (S + F + L) = C"
  shows "P' + H' + ((S + s) + (F + f) + (L + l)) = C + c"
proof (rule multiset_eqI)
  fix x
  have "count H' x + count h x = count H x + count h' x"
    "count P' x + count h' x + (count s x + count f x + count l x) = count P x + count h x + count c x"
    "count P x + count H x + (count S x + count F x + count L x) = count C x"
    using assms by (metis count_union)+
  then show "count (P' + H' + ((S + s) + (F + f) + (L + l))) x = count (C + c) x" by simp
qed

lemma multiset_transfer:
  fixes C :: "'a multiset"
  assumes "N' + n = N + n'" "c + n' = n" "C + N = X"
  shows "(C + c) + N' = X"
proof (rule multiset_eqI)
  fix x
  have "count N' x + count n x = count N x + count n' x" "count c x + count n' x = count n x" "count C x + count N x = count X x"
    using assms by (metis count_union)+
  then show "count ((C + c) + N') x = count X x" by simp
qed

lemma trace_advance:
  assumes acc: "accounted s p s' p' l" and i: "i < length pcs" "pcs ! i = p"
    and num: "image_mset sequence_num (mset (counted_of l)) + numbered p' = numbered p" "accepted_of l = 0"
    and inv: "trace_inv s0 tr (s, pcs)"
  shows "trace_inv s0 (tr @ [l]) (s', pcs[i := p'])"
proof -
  have h: "sum_list (map held (pcs[i := p'])) + held p = sum_list (map held pcs) + held p'"
    and m: "sum_list (map numbered (pcs[i := p'])) + numbered p = sum_list (map numbered pcs) + numbered p'"
    using sum_list_update_swap [OF i(1), of held p'] sum_list_update_swap [OF i(1), of numbered p'] i(2) by simp_all
  have a: "mset (pending s') + held p' + (mset (sent_of l) + mset (failed_of l) + mset (lost_of l)) =
       mset (pending s) + held p + mset (counted_of l)" using acc by (simp add: accounted_def)
  have b: "mset (pending s) + sum_list (map held pcs) +
       (mset (outcomes sent_of tr) + mset (outcomes failed_of tr) + mset (outcomes lost_of tr)) = mset (outcomes counted_of tr)"
    using inv by (simp add: trace_inv_def)
  note balance = multiset_balance [OF h a b]
  then have "mset (pending s') + sum_list (map held (pcs[i := p'])) + (mset (outcomes sent_of tr @ sent_of l) +
       mset (outcomes failed_of tr @ failed_of l) + mset (outcomes lost_of tr @ lost_of l)) = mset (outcomes counted_of tr @ counted_of l)"
    unfolding mset_append .
  moreover have "image_mset sequence_num (mset (outcomes counted_of tr @ counted_of l)) + sum_list (map numbered (pcs[i := p'])) =
      sequence_numbers (g_sequence_counter s0) (accepted tr)"
  proof -
    have "image_mset sequence_num (mset (outcomes counted_of tr)) + sum_list (map numbered pcs) =
       sequence_numbers (g_sequence_counter s0) (accepted tr)" using inv by (simp add: trace_inv_def)
    from multiset_transfer [OF m num(1) this] show ?thesis unfolding mset_append image_mset_union .
  qed
  ultimately show ?thesis using acc inv num(2) by (simp add: trace_inv_def accounted_def)
qed

lemma sequence_numbers_Suc: "sequence_numbers g (Suc k) = add_mset (g + of_nat (Suc k)) (sequence_numbers g k)"
  by (simp add: sequence_numbers_def)

lemma call_inv:
  assumes i: "i < length pcs" "pcs ! i = Idle \<or> pcs ! i = Returned r" and pay: "payload_ok (lc_data c) (lc_len c)"
    and begin_log: "begin_log c s = (p, s')"
    and inv: "threads_inv s0 (s, pcs)" "trace_inv s0 tr (s, pcs)"
  defines "l \<equiv> if unat (lc_len c) > PHOTON_MAX_EVENT_DATA then Tau else Accepted"
  shows "threads_inv s0 (s', pcs[i := p])" "trace_inv s0 (tr @ [l]) (s', pcs[i := p])"
proof -
  have old: "held (pcs ! i) = {#}" "numbered (pcs ! i) = {#}" "todo (pcs ! i) = {}" using i(2) by auto
  have new: "held p = {#}" "todo p = {}" "pc_ok n p" for n using begin_log pay by (auto simp: begin_log_def split: if_splits)
  have same: "event_buffers s' = event_buffers s" "total_events s' = total_events s" "total_sent s' = total_sent s"
    "send_failures s' = send_failures s" "total_dropped s' = total_dropped s"
    using begin_log by (auto simp: begin_log_def split: if_splits)
  have held: "sum_list (map held (pcs[i := p])) = sum_list (map held pcs)"
    using sum_list_update_swap [OF i(1), of held p] old(1) new(1) by simp
  have num: "sum_list (map numbered (pcs[i := p])) = sum_list (map numbered pcs) + numbered p"
    using sum_list_update_swap [OF i(1), of numbered p] old(2) by simp
  have "\<exists>q \<in> set (pcs[i := p]). c \<in> todo q" if "\<exists>q \<in> set pcs. c \<in> todo q" for c
  proof -
    from that obtain j where j: "j < length pcs" "c \<in> todo (pcs ! j)" "j \<noteq> i" using old(3) by (fastforce simp: in_set_conv_nth)
    then have "pcs[i := p] ! j = pcs ! j" "j < length (pcs[i := p])" by simp_all
    with j(2) show ?thesis by (metis nth_mem)
  qed
  moreover have "set (pcs[i := p]) \<subseteq> insert p (set pcs)" by (rule set_update_subset_insert)
  ultimately show "threads_inv s0 (s', pcs[i := p])"
    using inv(1) new(3) pending_same [OF same(1)] same(1) unfolding threads_inv_def by auto
  have seq: "g_sequence_counter s' = g_sequence_counter s + of_nat (accepted_of l) \<and>
      numbered p = (if l = Accepted then {#g_sequence_counter s + 1#} else {#}) \<and> (l = Tau \<or> l = Accepted)"
    using begin_log by (auto simp: begin_log_def l_def)
  have add: "sequence_numbers g (k + accepted_of l) = sequence_numbers g k + (if l = Accepted then {#g + of_nat k + 1#} else {#})"
    for g k using seq by (auto simp: sequence_numbers_Suc add.assoc add.commute)
  show "trace_inv s0 (tr @ [l]) (s', pcs[i := p])"
    using inv(2) seq pending_same [OF same(1)] same add held num
    by (auto simp: trace_inv_def add.assoc)
qed

lemma other_inv:
  assumes "logging_part s' = logging_part s" "threads_inv s0 (s, pcs)" "trace_inv s0 tr (s, pcs)"
  shows "threads_inv s0 (s', pcs)" "trace_inv s0 (tr @ [Tau]) (s', pcs)"
  using assms pending_same [of s' s] by (auto simp: logging_part_def threads_inv_def trace_inv_def)

lemma sum_list_empty: "sum_list (replicate n {#}) = {#}"
  by (induction n) simp_all

lemma run_inv:
  assumes s0: "buffers_ok s0" "pending s0 = []" "cpus_ok K (length (event_buffers s0))"
    and run: "concurrent_run K s0 n tr conf"
  shows "threads_inv s0 conf \<and> trace_inv s0 tr conf"
  using run
proof induction
  case start
  then show ?case
    using s0 by (auto simp: threads_inv_def trace_inv_def pending_empty sequence_numbers_def sum_list_empty pending_def)
next
  case (step tr conf l conf')
  from step(2) show ?case
  proof cases
    case (call i pcs r c s p s')
    then show ?thesis using call_inv [of i pcs r c s p s' s0 tr] step.IH by auto
  next
    case (advance i pcs s p s')
    note adv = threads_advance [OF _ s0(3) advance(4,5)]
    have "threads_inv s0 (s, pcs)" using step.IH advance(1) by simp
    note t = adv [OF this]
    have "trace_inv s0 (tr @ [l]) (s', pcs[i := p])"
      using trace_advance [OF t(2) advance(4) refl numbered_step [OF advance(5)]] step.IH advance(1,2) by simp
    with t(1) advance(3) show ?thesis by simp
  next
    case (other s' s pcs)
    then show ?thesis using other_inv [of s' s s0 pcs tr] step.IH by auto
  qed
qed

section \<open>One thread alone\<close>

definition thread_run :: "'t kenv \<Rightarrow> nat \<Rightarrow> pc \<times> 't em_state \<Rightarrow> pc \<times> 't em_state" where
  "thread_run K k = (\<lambda>(p, s). thread_step K p s) ^^ k"

definition runs_to :: "'t kenv \<Rightarrow> pc \<times> 't em_state \<Rightarrow> pc \<times> 't em_state \<Rightarrow> bool" where
  "runs_to K c c' \<longleftrightarrow> (\<exists>k. thread_run K k c = c')"

lemma runs_to_refl: "runs_to K c c"
  unfolding runs_to_def thread_run_def by (rule exI [of _ 0]) simp

lemma runs_to_trans: "runs_to K a b \<Longrightarrow> runs_to K b c \<Longrightarrow> runs_to K a c"
  unfolding runs_to_def thread_run_def by (metis comp_apply funpow_add)

lemma runs_to_step: "thread_step K p s = c \<Longrightarrow> runs_to K c c' \<Longrightarrow> runs_to K (p, s) c'"
  unfolding runs_to_def thread_run_def by (metis (mono_tags, lifting) comp_apply funpow_Suc_right case_prod_conv)

lemma runs_flush_one:
  "flush_event_buffer K cpu s = Some t \<Longrightarrow> runs_to K (Flushing r (cpu # cpus), s) (Flushing r cpus, t)"
proof (induction rule: flush_event_buffer.raw_induct [rotated, consumes 1, case_names 1])
  case (1 flush K cpu s t)
  obtain e b where take: "buffer_take (event_buffers s ! cpu) = (e, b)" by fastforce
  show ?case
  proof (cases e)
    case None
    with 1(2) take show ?thesis by (intro runs_to_step [OF refl]) (simp add: runs_to_refl)
  next
    case (Some ev)
    let ?s = "s\<lparr>event_buffers := (event_buffers s)[cpu := b]\<rparr>"
    have "flush K cpu (send_and_count K ev ?s) = Some t" using 1(2) take Some by simp
    then have "runs_to K (Flushing r (cpu # cpus), send_and_count K ev ?s) (Flushing r cpus, t)" by (rule 1(1))
    then have "runs_to K (Sending r (cpu # cpus) ev, ?s) (Flushing r cpus, t)" by (intro runs_to_step [OF refl]) simp
    with take Some show ?thesis by (intro runs_to_step [OF refl]) simp
  qed
qed

lemma runs_flush_cpus: "flush_cpus K cpus s = Some t \<Longrightarrow> runs_to K (Flushing r cpus, s) (Flushing r [], t)"
proof (induction cpus arbitrary: s)
  case Nil
  then show ?case by (simp add: runs_to_refl)
next
  case (Cons cpu cpus)
  then obtain s1 where "flush_event_buffer K cpu s = Some s1" "flush_cpus K cpus s1 = Some t"
    by (auto split: bind_splits)
  then show ?case using runs_flush_one Cons.IH runs_to_trans by blast
qed

lemma runs_flush_return:
  assumes "flush_all_buffers K s = Some t"
  shows "runs_to K (Flushing None (all_cpus s), s) (Returned ok, t)"
proof -
  have "runs_to K (Flushing None (all_cpus s), s) (Flushing None [], t)"
    using assms by (intro runs_flush_cpus) (simp add: flush_all_buffers_def all_cpus_def)
  moreover have "runs_to K (Flushing None [], t) (Returned ok, t)" by (rule runs_to_step [OF refl]) (simp add: runs_to_refl)
  ultimately show ?thesis by (rule runs_to_trans)
qed

lemma log_event_runs:
  assumes "photon_log_event K (lc_current c) (lc_type c) (lc_detector c) (lc_severity c) (lc_data c) (lc_len c) s = Some (r, s')"
  shows "runs_to K (begin_log c s) (Returned r, s')"
proof (cases "unat (lc_len c) > PHOTON_MAX_EVENT_DATA")
  case True
  with assms show ?thesis by (simp add: photon_log_event_def begin_log_def runs_to_refl)
next
  case False
  let ?s = "s\<lparr>g_sequence_counter := g_sequence_counter s + 1, now := Suc (now s), total_events := total_events s + 1\<rparr>"
  let ?ev = "build_event (g_sequence_counter s + 1) (k_ktime_real_ns K (now s)) (lc_type c) (lc_detector c) (lc_severity c)
    (lc_current c) (lc_data c) (lc_len c)"
  obtain q s1 where enq: "enqueue_event K ?ev ?s = (q, s1)" by fastforce
  have "runs_to K (Built ?ev, ?s) (Returned r, s')"
  proof (cases q)
    case (Inr u)
    with assms False enq have "flush_all_buffers K s1 = Some s'" "r = ok"
      by (auto simp: photon_log_event_def ext_def Let_def split: bind_splits)
    with runs_flush_return [of K s1 s'] enq Inr show ?thesis by (intro runs_to_step [OF refl]) simp
  next
    case (Inl e)
    obtain q2 s2 s3 where f: "flush_all_buffers K s1 = Some s2" "enqueue_event K ?ev s2 = (q2, s3)"
      and rest: "(case q2 of Inl e \<Rightarrow> Some (Inl e, s3) | Inr _ \<Rightarrow> do { s \<leftarrow> flush_all_buffers K s3; Some (ok, s) }) = Some (r, s')"
      using assms False enq Inl by (auto simp: photon_log_event_def ext_def Let_def split: bind_splits prod.splits)
    have "runs_to K (Flushing (Some ?ev) [], s2) (Returned r, s')"
    proof (cases q2)
      case Inl2: (Inl e2)
      with rest have "r = Inl e2" "s3 = s'" by simp_all
      with f(2) Inl2 show ?thesis by (intro runs_to_step [OF refl]) (simp add: runs_to_refl)
    next
      case Inr2: (Inr u)
      with rest have "flush_all_buffers K s3 = Some s'" "r = ok" by (auto split: bind_splits)
      with runs_flush_return [of K s3 s'] f Inr2 show ?thesis by (intro runs_to_step [OF refl]) simp
    qed
    moreover have "runs_to K (Flushing (Some ?ev) (all_cpus s1), s1) (Flushing (Some ?ev) [], s2)"
      using f(1) by (intro runs_flush_cpus) (simp add: flush_all_buffers_def all_cpus_def)
    ultimately show ?thesis using enq Inl by (intro runs_to_step [OF refl]) (simp, rule runs_to_trans)
  qed
  with False show ?thesis by (auto simp: begin_log_def ext_def intro!: runs_to_step [OF refl])
qed

lemma runs_returned_unique:
  assumes "runs_to K c (Returned r, s)" "runs_to K c (Returned r', s')"
  shows "r = r' \<and> s = s'"
proof -
  have stay: "thread_run K k (Returned r, s) = (Returned r, s)" for k r s by (induction k) (simp_all add: thread_run_def)
  obtain k k' where k: "thread_run K k c = (Returned r, s)" "thread_run K k' c = (Returned r', s')"
    using assms by (auto simp: runs_to_def)
  have "thread_run K (k' + k) c = (Returned r, s)" "thread_run K (k + k') c = (Returned r', s')"
    using stay k unfolding thread_run_def funpow_add by simp_all
  then show ?thesis by (simp add: add.commute)
qed

section \<open>Every thread can finish\<close>

fun finished :: "pc \<Rightarrow> bool" where
  "finished Idle = True" | "finished (Returned r) = True" | "finished _ = False"

lemma runs_flush:
  assumes "buffers_ok s" "set cpus \<subseteq> {..<length (event_buffers s)}"
  shows "\<exists>t. runs_to K (Flushing r cpus, s) (Flushing r [], t) \<and> buffers_ok t \<and> length (event_buffers t) = length (event_buffers s)"
  using assms
proof (induction cpus arbitrary: s)
  case Nil
  then show ?case using runs_to_refl by blast
next
  case (Cons cpu cpus)
  have cpu: "cpu < length (event_buffers s)" using Cons.prems(2) by simp
  then have "buffer_ok (event_buffers s ! cpu)" using Cons.prems(1) by (simp add: buffers_ok_def)
  from flush_one [OF cpu this refl, of K] obtain b where b: "flush_event_buffer K cpu s =
      Some ((fold (send_and_count K) (buffer_events (event_buffers s ! cpu)) s)\<lparr>event_buffers := (event_buffers s)[cpu := b]\<rparr>)"
    "buffer_ok b" by (auto simp: drained_def)
  let ?t = "(fold (send_and_count K) (buffer_events (event_buffers s ! cpu)) s)\<lparr>event_buffers := (event_buffers s)[cpu := b]\<rparr>"
  have "buffers_ok ?t" using buffers_ok_update [OF Cons.prems(1) b(2)] by (simp add: buffers_ok_def)
  then obtain t where "runs_to K (Flushing r cpus, ?t) (Flushing r [], t)" "buffers_ok t"
    "length (event_buffers t) = length (event_buffers s)" using Cons.IH [of ?t] Cons.prems(2) by auto
  with runs_to_trans [OF runs_flush_one [OF b(1)]] show ?case by blast
qed

lemma flushing_none_finishes:
  assumes "buffers_ok s" "set cpus \<subseteq> {..<length (event_buffers s)}"
  shows "\<exists>r t. runs_to K (Flushing None cpus, s) (Returned r, t)"
proof -
  obtain t where "runs_to K (Flushing None cpus, s) (Flushing None [], t)" using runs_flush [OF assms] by blast
  moreover have "runs_to K (Flushing None [], t) (Returned ok, t)" by (rule runs_to_step [OF refl]) (simp add: runs_to_refl)
  ultimately show ?thesis using runs_to_trans by blast
qed

lemma flushing_some_finishes:
  assumes "buffers_ok s" "cpus_ok K (length (event_buffers s))" "event_ok ev" "set cpus \<subseteq> {..<length (event_buffers s)}"
  shows "\<exists>r t. runs_to K (Flushing (Some ev) cpus, s) (Returned r, t)"
proof -
  obtain t where t: "runs_to K (Flushing (Some ev) cpus, s) (Flushing (Some ev) [], t)" "buffers_ok t"
    "length (event_buffers t) = length (event_buffers s)" using runs_flush [OF assms(1,4)] by blast
  obtain q u where enq: "enqueue_event K ev t = (q, u)" by fastforce
  have u: "buffers_ok u" using enqueue_result(1) [OF t(2) _ assms(3) enq] assms(2) t(3) by simp
  have "\<exists>r v. runs_to K (Flushing (Some ev) [], t) (Returned r, v)"
  proof (cases q)
    case (Inl e)
    with enq have "runs_to K (Flushing (Some ev) [], t) (Returned (Inl e), u)"
      by (intro runs_to_step [OF refl]) (simp add: runs_to_refl)
    then show ?thesis by blast
  next
    case (Inr x)
    obtain r v where "runs_to K (Flushing None (all_cpus u), u) (Returned r, v)"
      using flushing_none_finishes [OF u] by (metis all_cpus_set order.refl)
    with enq Inr have "runs_to K (Flushing (Some ev) [], t) (Returned r, v)" by (intro runs_to_step [OF refl]) simp
    then show ?thesis by blast
  qed
  with t(1) runs_to_trans show ?thesis by blast
qed

lemma flushing_finishes:
  assumes "buffers_ok s" "cpus_ok K (length (event_buffers s))" "pc_ok (length (event_buffers s)) (Flushing r cpus)"
  shows "\<exists>q t. runs_to K (Flushing r cpus, s) (Returned q, t)"
  using assms flushing_none_finishes flushing_some_finishes by (cases r) auto

lemma built_finishes:
  assumes "buffers_ok s" "cpus_ok K (length (event_buffers s))" "event_ok ev"
  shows "\<exists>q t. runs_to K (Built ev, s) (Returned q, t)"
proof -
  obtain q u where enq: "enqueue_event K ev s = (q, u)" by fastforce
  have u: "buffers_ok u" "length (event_buffers u) = length (event_buffers s)" using enqueue_result [OF assms enq] by simp_all
  obtain r where r: "thread_step K (Built ev) s = (Flushing r (all_cpus u), u)" "r = None \<or> r = Some ev"
    using enq by (cases q) auto
  have "pc_ok (length (event_buffers u)) (Flushing r (all_cpus u))" using r(2) assms(3) by (auto simp: all_cpus_set)
  with flushing_finishes [OF u(1)] assms(2) u(2) obtain q t where "runs_to K (Flushing r (all_cpus u), u) (Returned q, t)" by metis
  with r(1) runs_to_step show ?thesis by blast
qed

lemma thread_finishes:
  assumes s: "buffers_ok s" "cpus_ok K (length (event_buffers s))" and p: "pc_ok (length (event_buffers s)) p"
  shows "\<exists>q t. runs_to K (p, s) (q, t) \<and> finished q"
proof (cases p)
  case (Numbered seq c)
  let ?ev = "build_event seq (k_ktime_real_ns K (now s)) (lc_type c) (lc_detector c) (lc_severity c) (lc_current c) (lc_data c) (lc_len c)"
  let ?s = "s\<lparr>now := Suc (now s), total_events := total_events s + 1\<rparr>"
  have "event_ok ?ev" "buffers_ok ?s" using p s(1) Numbered by (simp_all add: build_event_ok buffers_ok_def)
  with built_finishes [of ?s K ?ev] s(2) obtain q t where "runs_to K (Built ?ev, ?s) (Returned q, t)" by auto
  then have "runs_to K (p, s) (Returned q, t)" using Numbered by (intro runs_to_step [OF refl]) (simp add: ext_def)
  then show ?thesis by force
next
  case (Built ev)
  with built_finishes [OF s, of ev] p show ?thesis by force
next
  case (Flushing r cpus)
  with flushing_finishes [OF s, of r cpus] p show ?thesis by force
next
  case (Sending r cpus ev)
  let ?s = "send_and_count K ev s"
  have "buffers_ok ?s" using pending_same [OF send_keeps_buffers [of K ev s]] s(1) by simp
  with flushing_finishes [of ?s K r cpus] p s(2) Sending obtain q t where "runs_to K (Flushing r cpus, ?s) (Returned q, t)" by auto
  then have "runs_to K (p, s) (Returned q, t)" using Sending by (intro runs_to_step [OF refl]) simp
  then show ?thesis by force
qed (use runs_to_refl in force)+

lemma run_extend:
  assumes "concurrent_run K s0 n tr (s, pcs)" "i < length pcs" "thread_run K k (pcs ! i, s) = (p, t)"
  shows "\<exists>tr'. concurrent_run K s0 n (tr @ tr') (t, pcs[i := p]) \<and> accepted tr' = 0"
  using assms(3)
proof (induction k arbitrary: p t)
  case 0
  then show ?case using assms(1) by (intro exI [of _ "[]"]) (auto simp: thread_run_def)
next
  case (Suc k)
  obtain q u where q: "thread_run K k (pcs ! i, s) = (q, u)" by fastforce
  with Suc.prems have step: "thread_step K q u = (p, t)" by (simp add: thread_run_def)
  obtain tr' where tr': "concurrent_run K s0 n (tr @ tr') (u, pcs[i := q])" "accepted tr' = 0" using Suc.IH [OF q] by blast
  have "concurrent_step K (u, pcs[i := q]) (label_of K q u) (t, pcs[i := p])"
    using concurrent_step.advance [of i "pcs[i := q]" K u p t] step assms(2) by simp
  from concurrent_run.step [OF tr'(1) this] tr'(2) numbered_step(2) [OF step] show ?case
    by (intro exI [of _ "tr' @ [label_of K q u]"]) simp
qed

lemma run_finishes_below:
  assumes s0: "buffers_ok s0" "pending s0 = []" "cpus_ok K (length (event_buffers s0))"
    and run: "concurrent_run K s0 n tr (s, pcs)"
  shows "j \<le> length pcs \<Longrightarrow> \<exists>tr' t qcs. concurrent_run K s0 n (tr @ tr') (t, qcs) \<and> accepted tr' = 0 \<and>
    length qcs = length pcs \<and> (\<forall>i < j. finished (qcs ! i))"
proof (induction j)
  case 0
  then show ?case using run by (intro exI [of _ "[]"]) auto
next
  case (Suc j)
  then obtain tr1 t qcs where one: "concurrent_run K s0 n (tr @ tr1) (t, qcs)" "accepted tr1 = 0"
    "length qcs = length pcs" "\<forall>i < j. finished (qcs ! i)" by auto
  from run_inv [OF s0 one(1)] Suc.prems one(3) have inv: "buffers_ok t" "length (event_buffers t) = length (event_buffers s0)"
    "pc_ok (length (event_buffers t)) (qcs ! j)" by (auto simp: threads_inv_def)
  from thread_finishes [OF inv(1) _ inv(3)] s0(3) inv(2) obtain q u where q: "runs_to K (qcs ! j, t) (q, u)" "finished q" by metis
  obtain k where k: "thread_run K k (qcs ! j, t) = (q, u)" using q(1) by (auto simp: runs_to_def)
  from run_extend [OF one(1) _ k] Suc.prems one(3) obtain tr2 where
    two: "concurrent_run K s0 n ((tr @ tr1) @ tr2) (u, qcs[j := q])" "accepted tr2 = 0" by auto
  have "\<forall>i < Suc j. finished (qcs[j := q] ! i)" using one(3,4) q(2) Suc.prems by (auto simp: less_Suc_eq)
  with two one show ?case by (intro exI [of _ "tr1 @ tr2"] exI [of _ u] exI [of _ "qcs[j := q]"]) (simp add: accepted_def)
qed

section \<open>Properties\<close>

lemma distinct_sequence:
  assumes "k < 2 ^ 64"
  shows "distinct (map (\<lambda>j. (g :: u64) + of_nat (Suc j)) [0..<k])"
proof -
  have "i = j" if "i < k" "j < k" "(of_nat i :: u64) = of_nat j" for i j
  proof -
    have "unat (of_nat i :: u64) = i" "unat (of_nat j :: u64) = j"
      using that(1,2) assms by (simp_all add: unat_of_nat)
    with that(3) show ?thesis by metis
  qed
  then show ?thesis by (auto simp: distinct_map inj_on_def)
qed

lemma distinct_mset_sub:
  assumes "distinct ys" "mset xs + M = mset ys"
  shows "distinct xs"
proof -
  have "count (mset xs) x = (if x \<in> set xs then 1 else 0)" for x
  proof -
    have "count (mset xs) x \<le> count (mset ys) x" using assms(2) by (metis count_union le_add1)
    also have "\<dots> \<le> 1" using assms(1) by (simp add: distinct_count_atmost_1)
    finally show ?thesis using count_greater_zero_iff [of "mset xs" x] by (cases "x \<in> set xs") (simp_all add: not_in_iff le_antisym Suc_leI)
  qed
  then show ?thesis by (simp add: distinct_count_atmost_1)
qed

lemma finished_holds_nothing:
  assumes "\<forall>p \<in> set pcs. finished p"
  shows "sum_list (map held pcs) = {#}" "(\<forall>p \<in> set pcs. todo p = {})"
proof -
  have "held p = {#} \<and> todo p = {}" if "p \<in> set pcs" for p using assms that by (cases p) auto
  then show "sum_list (map held pcs) = {#}" "(\<forall>p \<in> set pcs. todo p = {})" by (induction pcs) auto
qed

lemma finished_buffers_empty:
  assumes "buffers_ok s0" "pending s0 = []" "cpus_ok K (length (event_buffers s0))"
    and "concurrent_run K s0 n tr (s, pcs)" "\<forall>p \<in> set pcs. finished p"
  shows "pending s = []"
proof -
  have "\<forall>c < length (event_buffers s). buffer_events (event_buffers s ! c) = []"
    using run_inv [OF assms(1-4)] finished_holds_nothing(2) [OF assms(5)] by (fastforce simp: threads_inv_def)
  then show ?thesis by (auto simp: pending_def in_set_conv_nth)
qed

text \<open>Two threads: the second call is numbered first.\<close>

definition demo_call :: log_call where
  "demo_call = \<lparr>lc_type = 1, lc_detector = 1, lc_severity = 0, lc_current = \<lparr>task_pid = 7, task_comm = ''sh''\<rparr>,
     lc_data = Some [1, 2], lc_len = 2\<rparr>"

lemma demo_race:
  "concurrent_run demo_env demo_em 2 [Accepted, Accepted]
     (demo_em\<lparr>g_sequence_counter := 2\<rparr>, [Numbered 2 demo_call, Numbered 1 demo_call])"
proof -
  have call: "begin_log demo_call s = (Numbered (g_sequence_counter s + 1) demo_call, s\<lparr>g_sequence_counter := g_sequence_counter s + 1\<rparr>)"
    for s :: "bytes em_state" by (simp add: begin_log_def demo_call_def)
  have pay: "payload_ok (lc_data demo_call) (lc_len demo_call)" "\<not> unat (lc_len demo_call) > PHOTON_MAX_EVENT_DATA"
    by (simp_all add: demo_call_def payload_ok_def)
  have zero: "g_sequence_counter demo_em = 0" by (simp add: demo_em_def cdev_state.defs)
  have "concurrent_run demo_env demo_em 2 ([] @ [Accepted]) (demo_em\<lparr>g_sequence_counter := 1\<rparr>, [Idle, Numbered 1 demo_call])"
    using concurrent_step.call [of 1 "[Idle, Idle]" ok demo_call demo_em, OF _ _ pay(1) call] pay(2) zero
    by (intro concurrent_run.step [OF concurrent_run.start]) (simp add: numeral_2_eq_2)
  from concurrent_run.step [OF this, of Accepted] show ?thesis
    using concurrent_step.call [of 0 "[Idle, Numbered 1 demo_call]" ok demo_call "demo_em\<lparr>g_sequence_counter := 1\<rparr>", OF _ _ pay(1) call] pay(2)
    by simp
qed

lemma demo_start: "buffers_ok demo_em" "pending demo_em = []" "cpus_ok demo_env (length (event_buffers demo_em))"
  using demo_em_parts demo_env_cpus by simp_all

lemma demo_race_finished:
  "\<exists>tr s pcs. concurrent_run demo_env demo_em 2 tr (s, pcs) \<and> accepted tr = 2 \<and> (\<forall>p \<in> set pcs. finished p)"
proof -
  from run_finishes_below [OF demo_start demo_race, of 2] obtain tr s pcs where
    "concurrent_run demo_env demo_em 2 ([Accepted, Accepted] @ tr) (s, pcs)" "accepted tr = 0"
    "length pcs = 2" "\<forall>i < 2. finished (pcs ! i)" by auto
  then show ?thesis
    by (intro exI [of _ "[Accepted, Accepted] @ tr"] exI [of _ s] exI [of _ pcs])
      (auto simp: accepted_def all_set_conv_all_nth)
qed

text \<open>
  C7. Any number of threads may log at once.  Every event that was counted has been sent, has failed to be sent, was
  dropped, waits in a buffer or is held by one thread, with its multiplicity; and the statistics
  agree with the trace, where \<open>total_dropped\<close> also counts every first attempt that found its buffer full,
  even if the event was enqueued and sent after the flush.
\<close>

theorem concurrent_logging_conserves_events:
  assumes "buffers_ok s0" "pending s0 = []" "cpus_ok K (length (event_buffers s0))"
    and "concurrent_run K s0 n tr (s, pcs)"
  shows "mset (outcomes counted_of tr) =
      mset (outcomes sent_of tr) + mset (outcomes failed_of tr) + mset (outcomes lost_of tr) +
      mset (pending s) + sum_list (map held pcs) \<and>
    photon_get_sequence s = photon_get_sequence s0 + of_nat (accepted tr) \<and>
    total_events s = total_events s0 + of_nat (length (outcomes counted_of tr)) \<and>
    total_sent s = total_sent s0 + of_nat (length (outcomes sent_of tr)) \<and>
    send_failures s = send_failures s0 + of_nat (length (outcomes failed_of tr)) \<and>
    total_dropped s = total_dropped s0 + of_nat (length (outcomes refused_of tr) + length (outcomes lost_of tr))"
  using run_inv [OF assms] by (simp add: trace_inv_def photon_get_sequence_def ac_simps)

theorem concurrent_logging_conserves_events_witness:
  "photon_get_sequence (demo_em\<lparr>g_sequence_counter := 2\<rparr>) = photon_get_sequence demo_em + of_nat (accepted [Accepted, Accepted]) \<and>
   (\<exists>tr s pcs. concurrent_run demo_env demo_em 2 tr (s, pcs) \<and> photon_get_sequence s = photon_get_sequence demo_em + 2 \<and>
     total_events s = total_events demo_em + of_nat (length (outcomes counted_of tr)))"
proof -
  obtain tr s pcs where run: "concurrent_run demo_env demo_em 2 tr (s, pcs)" "accepted tr = 2" using demo_race_finished by blast
  from concurrent_logging_conserves_events [OF demo_start demo_race] concurrent_logging_conserves_events [OF demo_start run(1)]
  show ?thesis using run by (intro conjI exI [of _ tr] exI [of _ s] exI [of _ pcs]) simp_all
qed

text \<open>
  C9. When every thread that logged has returned, nothing is left in any buffer, and every counted event was
  sent, failed to be sent, or was dropped, exactly once: an event that one thread finds in the
  buffers while another is flushing is never stranded.
\<close>

theorem no_event_is_stranded:
  assumes "buffers_ok s0" "pending s0 = []" "cpus_ok K (length (event_buffers s0))"
    and "concurrent_run K s0 n tr (s, pcs)" "\<forall>p \<in> set pcs. finished p"
  shows "pending s = [] \<and> buffers_ok s \<and>
    mset (outcomes counted_of tr) =
      mset (outcomes sent_of tr) + mset (outcomes failed_of tr) + mset (outcomes lost_of tr)"
  using run_inv [OF assms(1-4)] finished_holds_nothing(1) [OF assms(5)] finished_buffers_empty [OF assms]
  by (simp add: threads_inv_def trace_inv_def ac_simps)

theorem no_event_is_stranded_witness:
  "\<exists>tr s pcs. concurrent_run demo_env demo_em 2 tr (s, pcs) \<and> accepted tr = 2 \<and> pending s = []"
proof -
  obtain tr s pcs where run: "concurrent_run demo_env demo_em 2 tr (s, pcs)" "accepted tr = 2" "\<forall>p \<in> set pcs. finished p"
    using demo_race_finished by blast
  from no_event_is_stranded [OF demo_start run(1,3)] run show ?thesis by blast
qed

text \<open>
  C8. No thread waits for another: from every point of every interleaving the calls in progress can all
  return without a further call, and then the buffers are empty.
\<close>

theorem every_interleaving_can_finish:
  assumes "buffers_ok s0" "pending s0 = []" "cpus_ok K (length (event_buffers s0))"
    and "concurrent_run K s0 n tr (s, pcs)"
  shows "\<exists>tr' t qcs. concurrent_run K s0 n (tr @ tr') (t, qcs) \<and> accepted tr' = 0 \<and> length qcs = length pcs \<and>
    (\<forall>p \<in> set qcs. finished p) \<and> pending t = []"
proof -
  from run_finishes_below [OF assms, of "length pcs"] obtain tr' t qcs where
    fin: "concurrent_run K s0 n (tr @ tr') (t, qcs)" "accepted tr' = 0" "length qcs = length pcs" "\<forall>i < length pcs. finished (qcs ! i)"
    by auto
  have all: "\<forall>p \<in> set qcs. finished p" using fin(3,4) by (simp add: all_set_conv_all_nth)
  from fin all finished_buffers_empty [OF assms(1-3) fin(1) all] show ?thesis by blast
qed

theorem every_interleaving_can_finish_witness:
  "\<exists>tr' t qcs. concurrent_run demo_env demo_em 2 ([Accepted, Accepted] @ tr') (t, qcs) \<and> accepted tr' = 0 \<and>
     length qcs = length [Numbered 2 demo_call, Numbered 1 demo_call] \<and> (\<forall>p \<in> set qcs. finished p) \<and> pending t = []"
  by (rule every_interleaving_can_finish [OF demo_start demo_race])

text \<open>
  C17. No two events carry the same sequence number, however the calls interleave, as long as fewer than
  \<open>2 ^ 64\<close> calls are accepted; and the numbers are those after the counter's first value.
\<close>

theorem sequence_numbers_are_unique:
  assumes "buffers_ok s0" "pending s0 = []" "cpus_ok K (length (event_buffers s0))"
    and "concurrent_run K s0 n tr (s, pcs)" "accepted tr < 2 ^ 64"
  shows "distinct (map sequence_num (outcomes counted_of tr)) \<and>
    set (map sequence_num (outcomes counted_of tr)) \<subseteq> {photon_get_sequence s0 + of_nat j | j. 0 < j \<and> j \<le> accepted tr}"
proof -
  let ?seqs = "map (\<lambda>j. g_sequence_counter s0 + of_nat (Suc j)) [0..<accepted tr]"
  have sub: "mset (map sequence_num (outcomes counted_of tr)) + sum_list (map numbered pcs) = mset ?seqs"
    using run_inv [OF assms(1-4)] by (simp add: trace_inv_def sequence_numbers_def)
  from arg_cong [OF this, of set_mset] have "set (map sequence_num (outcomes counted_of tr)) \<subseteq> set ?seqs" by auto
  moreover have "set ?seqs \<subseteq> {g_sequence_counter s0 + of_nat j | j. 0 < j \<and> j \<le> accepted tr}"
  proof
    fix x assume "x \<in> set ?seqs"
    then obtain j where "j < accepted tr" "x = g_sequence_counter s0 + of_nat (Suc j)" by auto
    then show "x \<in> {g_sequence_counter s0 + of_nat j | j. 0 < j \<and> j \<le> accepted tr}" by (intro CollectI exI [of _ "Suc j"]) simp
  qed
  ultimately show ?thesis using distinct_mset_sub [OF distinct_sequence [OF assms(5)] sub]
    by (simp add: photon_get_sequence_def)
qed

theorem sequence_numbers_are_unique_witness:
  "\<exists>tr s pcs. concurrent_run demo_env demo_em 2 tr (s, pcs) \<and> accepted tr = 2 \<and>
     distinct (map sequence_num (outcomes counted_of tr))"
proof -
  obtain tr s pcs where run: "concurrent_run demo_env demo_em 2 tr (s, pcs)" "accepted tr = 2" using demo_race_finished by blast
  with sequence_numbers_are_unique [OF demo_start run(1)] show ?thesis by auto
qed

text \<open>
  C18. A thread that is not interrupted does what \<open>photon_log_event\<close> of theory \<open>Event_Manager\<close> does in one piece:
  it returns, with the same result and the same state.
\<close>

theorem thread_alone_is_log_event:
  assumes "buffers_ok s" "cpus_ok K (length (event_buffers s))" "payload_ok (lc_data c) (lc_len c)"
  shows "(\<exists>r s'. runs_to K (begin_log c s) (Returned r, s')) \<and>
    (photon_log_event K (lc_current c) (lc_type c) (lc_detector c) (lc_severity c) (lc_data c) (lc_len c) s = Some (r, s') \<longleftrightarrow>
     runs_to K (begin_log c s) (Returned r, s'))"
proof -
  let ?log = "photon_log_event K (lc_current c) (lc_type c) (lc_detector c) (lc_severity c) (lc_data c) (lc_len c) s"
  obtain r1 s1 where log: "?log = Some (r1, s1)"
  proof (cases "unat (lc_len c) \<le> 256")
    case True
    from log_event_total [OF assms True] that show thesis by blast
  next
    case False
    then show thesis using that by (simp add: photon_log_event_def)
  qed
  from log_event_runs [OF this] runs_returned_unique show ?thesis unfolding log by blast
qed

theorem thread_alone_is_log_event_witness:
  "\<exists>r s'. runs_to demo_env (begin_log demo_call demo_em) (Returned r, s')"
proof -
  have "payload_ok (lc_data demo_call) (lc_len demo_call)" by (simp add: demo_call_def payload_ok_def)
  from thread_alone_is_log_event [OF demo_start(1,3) this] show ?thesis by blast
qed

end
