(* ===== verification/Arch_Registers.thy ===== *)
theory Arch_Registers
  imports Hiding_Detectors Filter_Detectors
begin

text \<open>
  \<open>include/photon_ring_arch.h\<close> and the two shims of \<open>modules/hook_file_access.c\<close>: how a handler gets the
  arguments of the function it is hooked on out of the saved registers, on x86\_64 and on ARM64, and
  the handlers of the system call detectors from the registers on.  The theorems compare the
  ways to read an argument with one reference, the list of argument registers of the calling convention, and
  apply them to system calls, whose entry points receive the user's registers through a pointer.
\<close>

section \<open>Registers\<close>

text \<open>The members of \<open>struct pt_regs\<close> that are read; \<open>regs[0]\<close> to \<open>regs[30]\<close> on ARM64.\<close>

record x86_regs =
  x86_di :: ulong
  x86_si :: ulong
  x86_dx :: ulong
  x86_cx :: ulong
  x86_r8 :: ulong
  x86_r9 :: ulong
  x86_ax :: ulong

datatype pt_regs = X86_64 x86_regs | AArch64 "ulong list"

fun regs_ok :: "pt_regs \<Rightarrow> bool" where
  "regs_ok (X86_64 r) = True" | "regs_ok (AArch64 xs) = (length xs = 31)"

text \<open>
  What the handlers get from the kernel: whether it is 5.0 or newer, \<open>regs_get_kernel_argument\<close>, the saved registers
  at an address of the kernel, the string at an address of the user (\<open>None\<close> for a fault), the
  \<open>struct open_flags\<close> at an address, and the path and flags of a \<open>struct file\<close>.
\<close>

record arch_env =
  a_modern :: bool
  a_kernel_argument :: "pt_regs \<Rightarrow> nat \<Rightarrow> ulong"
  a_regs_at :: "ulong \<Rightarrow> pt_regs"
  a_user :: "ulong \<Rightarrow> string option"
  a_open_flags :: "ulong \<Rightarrow> (32 word \<times> u16) option"
  a_file :: "ulong \<Rightarrow> string option \<times> u32"

section \<open>The macros\<close>

text \<open>\<open>PHOTON_RING_KPROBE_GET_ARG\<close>: the fallback for old kernels of each architecture, and the choice.\<close>

fun kprobe_arg_fallback :: "pt_regs \<Rightarrow> nat \<Rightarrow> ulong" where
  "kprobe_arg_fallback (X86_64 r) n =
     (if n = 0 then x86_di r
      else if n = 1 then x86_si r
      else if n = 2 then x86_dx r
      else if n = 3 then x86_cx r
      else if n = 4 then x86_r8 r
      else if n = 5 then x86_r9 r
      else 0)"
| "kprobe_arg_fallback (AArch64 xs) n = (if n < 8 then xs ! n else 0)"

definition PHOTON_RING_KPROBE_GET_ARG :: "arch_env \<Rightarrow> pt_regs \<Rightarrow> nat \<Rightarrow> ulong" where
  "PHOTON_RING_KPROBE_GET_ARG A regs n = (if a_modern A then a_kernel_argument A regs n else kprobe_arg_fallback regs n)"

text \<open>\<open>PHOTON_RING_GET_ARG\<close>: the argument is the result of \<open>ftrace_get_regs\<close>, which may be null.\<close>

fun PHOTON_RING_GET_ARG :: "pt_regs option \<Rightarrow> nat \<Rightarrow> ulong" where
  "PHOTON_RING_GET_ARG (Some (X86_64 r)) n =
     (if n = 0 then x86_di r
      else if n = 1 then x86_si r
      else if n = 2 then x86_dx r
      else if n = 3 then x86_cx r
      else if n = 4 then x86_r8 r
      else if n = 5 then x86_r9 r
      else 0)"
| "PHOTON_RING_GET_ARG (Some (AArch64 xs)) n = (if n < 8 then xs ! n else 0)"
| "PHOTON_RING_GET_ARG None n = 0"

text \<open>The shims for return probes.\<close>

fun pr_get_arg :: "pt_regs \<Rightarrow> int \<Rightarrow> ulong" where
  "pr_get_arg (X86_64 r) n =
     (if n = 0 then x86_di r
      else if n = 1 then x86_si r
      else if n = 2 then x86_dx r
      else if n = 3 then x86_cx r
      else if n = 4 then x86_r8 r
      else if n = 5 then x86_r9 r
      else 0)"
| "pr_get_arg (AArch64 xs) n = (if n \<ge> 0 \<and> n < 8 then xs ! nat n else 0)"

fun pr_get_ret :: "pt_regs \<Rightarrow> ulong" where
  "pr_get_ret (X86_64 r) = x86_ax r" | "pr_get_ret (AArch64 xs) = xs ! 0"

section \<open>Handlers from the registers on\<close>

text \<open>A pointer to a string in user memory, which may be null, and a pointer to registers.\<close>

definition user_pointer :: "arch_env \<Rightarrow> ulong \<Rightarrow> string option option" where
  "user_pointer A p = (if p = 0 then None else Some (a_user A p))"

definition syscall_regs :: "arch_env \<Rightarrow> pt_regs option \<Rightarrow> pt_regs option" where
  "syscall_regs A fregs = (let regs = PHOTON_RING_GET_ARG fregs 0 in if regs = 0 then None else Some (a_regs_at A regs))"

definition stat_di_entry ::
  "arch_env \<Rightarrow> kernel_view \<Rightarrow> bool \<Rightarrow> bool \<Rightarrow> task \<Rightarrow> pt_regs option \<Rightarrow> stat_event option" where
  "stat_di_entry A V stat_rl nlink_rl current fregs =
     hook_stat_di V stat_rl nlink_rl current
       (map_option (\<lambda>regs. (user_pointer A (PHOTON_RING_KPROBE_GET_ARG A regs 0), None)) (syscall_regs A fregs))"

definition stat_si_entry ::
  "arch_env \<Rightarrow> kernel_view \<Rightarrow> bool \<Rightarrow> bool \<Rightarrow> task \<Rightarrow> pt_regs option \<Rightarrow> stat_event option" where
  "stat_si_entry A V stat_rl nlink_rl current fregs =
     hook_stat_si V stat_rl nlink_rl current
       (map_option (\<lambda>regs. (None, user_pointer A (PHOTON_RING_KPROBE_GET_ARG A regs 1))) (syscall_regs A fregs))"

definition getpriority_entry :: "arch_env \<Rightarrow> kernel_view \<Rightarrow> bool \<Rightarrow> task \<Rightarrow> pt_regs option \<Rightarrow> stat_event option" where
  "getpriority_entry A V getprio_rl current fregs =
     hook_getpriority_cb V getprio_rl current
       (map_option (\<lambda>regs. (PHOTON_RING_KPROBE_GET_ARG A regs 0, PHOTON_RING_KPROBE_GET_ARG A regs 1)) (syscall_regs A fregs))"

definition getdents_entry :: "arch_env \<Rightarrow> (int \<Rightarrow> string option option) \<Rightarrow> bool \<Rightarrow> pt_regs option \<Rightarrow> (string \<times> string) option" where
  "getdents_entry A fdtable dir_rl fregs =
     hook_getdents fdtable dir_rl (map_option (\<lambda>regs. PHOTON_RING_KPROBE_GET_ARG A regs 0) (syscall_regs A fregs))"

definition getdents64_entry :: "arch_env \<Rightarrow> (int \<Rightarrow> string option option) \<Rightarrow> bool \<Rightarrow> pt_regs option \<Rightarrow> (string \<times> string) option" where
  "getdents64_entry A fdtable dir_rl fregs =
     hook_getdents64 fdtable dir_rl (map_option (\<lambda>regs. PHOTON_RING_KPROBE_GET_ARG A regs 0) (syscall_regs A fregs))"

text \<open>Probes: the registers are those at the entry of the probed function.\<close>

definition chdir_entry :: "arch_env \<Rightarrow> pt_regs \<Rightarrow> verdict" where
  "chdir_entry A regs = chdir_handler_pre (user_pointer A (PHOTON_RING_KPROBE_GET_ARG A regs 0))"

definition bpf_entry :: "arch_env \<Rightarrow> tenv \<Rightarrow> tstate \<Rightarrow> pt_regs \<Rightarrow> verdict" where
  "bpf_entry A E s regs = bpf_handler_pre E s (PHOTON_RING_KPROBE_GET_ARG A regs 1) (PHOTON_RING_KPROBE_GET_ARG A regs 2)"

definition tcp_entry :: "arch_env \<Rightarrow> tstate \<Rightarrow> pt_regs \<Rightarrow> (string \<times> ulong) option" where
  "tcp_entry A s regs = tcp_handler_pre s (PHOTON_RING_KPROBE_GET_ARG A regs 1) (PHOTON_RING_KPROBE_GET_ARG A regs 2)"

definition icmp_entry :: "arch_env \<Rightarrow> tstate \<Rightarrow> pt_regs \<Rightarrow> (string \<times> ulong) option" where
  "icmp_entry A s regs = icmp_handler_pre s (PHOTON_RING_KPROBE_GET_ARG A regs 1) (PHOTON_RING_KPROBE_GET_ARG A regs 2)"

text \<open>The return probe: \<open>IS_ERR\<close> holds of the last 4095 addresses.\<close>

definition IS_ERR :: "ulong \<Rightarrow> bool" where
  "IS_ERR p \<longleftrightarrow> p \<ge> - 4095"

definition filp_open_entry ::
  "arch_env \<Rightarrow> u64 \<Rightarrow> task \<Rightarrow> 32 word option \<Rightarrow> u32 \<Rightarrow> u32 \<Rightarrow> pt_regs \<Rightarrow> open_call_ctx" where
  "filp_open_entry A ts current real_parent_pid uid gid regs =
     (let maybe_open_flags = pr_get_arg regs 2
      in do_filp_open_entry ts current real_parent_pid uid gid
           (if maybe_open_flags \<noteq> 0 then a_open_flags A maybe_open_flags else None))"

definition filp_open_return :: "arch_env \<Rightarrow> open_call_ctx \<Rightarrow> pt_regs \<Rightarrow> (string \<times> ulong \<times> file_alert) option" where
  "filp_open_return A ctx regs =
     (let filep = pr_get_ret regs
      in do_filp_open_ret ctx (if filep = 0 \<or> IS_ERR filep then None else Some (a_file A filep)))"

section \<open>The calling conventions\<close>

text \<open>The registers that hold the arguments, in order.\<close>

fun argument_registers :: "pt_regs \<Rightarrow> ulong list" where
  "argument_registers (X86_64 r) = [x86_di r, x86_si r, x86_dx r, x86_cx r, x86_r8 r, x86_r9 r]"
| "argument_registers (AArch64 xs) = take 8 xs"

definition or_zero :: "ulong list \<Rightarrow> nat \<Rightarrow> ulong" where
  "or_zero xs n = (if n < length xs then xs ! n else 0)"

text \<open>\<open>regs_get_kernel_argument\<close> is documented to return the n-th argument that is passed in a register.\<close>

definition kernel_argument_law :: "arch_env \<Rightarrow> bool" where
  "kernel_argument_law A \<longleftrightarrow> (\<forall>regs. regs_ok regs \<longrightarrow>
     (\<forall>n < length (argument_registers regs). a_kernel_argument A regs n = argument_registers regs ! n))"

lemma less_6: "n < 6 \<longleftrightarrow> n = 0 \<or> n = 1 \<or> n = 2 \<or> n = 3 \<or> n = 4 \<or> n = (5 :: nat)"
  by auto

lemma fallback_or_zero: "regs_ok regs \<Longrightarrow> kprobe_arg_fallback regs n = or_zero (argument_registers regs) n"
  by (cases regs) (auto simp: or_zero_def less_6)

lemma get_arg_or_zero: "regs_ok regs \<Longrightarrow> PHOTON_RING_GET_ARG (Some regs) n = or_zero (argument_registers regs) n"
  by (cases regs) (auto simp: or_zero_def less_6)

lemma pr_get_arg_or_zero: "regs_ok regs \<Longrightarrow> pr_get_arg regs (int n) = or_zero (argument_registers regs) n"
  by (cases regs) (auto simp: or_zero_def less_6)

lemma pr_get_arg_negative: "n < 0 \<Longrightarrow> pr_get_arg regs n = 0"
  by (cases regs) auto

lemma kprobe_get_arg:
  assumes "kernel_argument_law A" "regs_ok regs" "n < length (argument_registers regs)"
  shows "PHOTON_RING_KPROBE_GET_ARG A regs n = argument_registers regs ! n"
  using assms fallback_or_zero [of regs n] by (simp add: PHOTON_RING_KPROBE_GET_ARG_def kernel_argument_law_def or_zero_def)

lemma two_argument_registers: "regs_ok regs \<Longrightarrow> Suc 0 < length (argument_registers regs)"
  by (cases regs) auto


definition demo_regs :: pt_regs where
  "demo_regs = X86_64 \<lparr>x86_di = 0xFFFF888000000000, x86_si = 1, x86_dx = 2, x86_cx = 3, x86_r8 = 4, x86_r9 = 5, x86_ax = 6\<rparr>"

definition demo_user_regs :: pt_regs where
  "demo_user_regs = AArch64 (0x1000 # 0x1000 # replicate 29 0)"

text \<open>A modern kernel in which the first argument of a system call points to the user's registers.\<close>

definition demo_arch :: "string \<Rightarrow> arch_env" where
  "demo_arch path = \<lparr>a_modern = True, a_kernel_argument = (\<lambda>regs n. or_zero (argument_registers regs) n),
     a_regs_at = (\<lambda>_. demo_user_regs), a_user = (\<lambda>p. if p = 0x1000 then Some path else None),
     a_open_flags = (\<lambda>_. None), a_file = (\<lambda>_. (None, 0))\<rparr>"

lemma demo_arch_law: "kernel_argument_law (demo_arch path)"
  by (simp add: kernel_argument_law_def demo_arch_def or_zero_def)


section \<open>System calls\<close>

text \<open>
  The documented convention of kernels with system call wrappers (x86\_64 since 4.17, ARM64 since 4.19): the entry point
  \<open>__x64_sys_NAME\<close> or \<open>__arm64_sys_NAME\<close> receives one argument, the address of the user's
  registers, which hold the arguments of the call.  That address is one of the kernel, so reading it as user
  memory is a fault.
\<close>

definition wrapped_call :: "arch_env \<Rightarrow> pt_regs \<Rightarrow> pt_regs \<Rightarrow> bool" where
  "wrapped_call A regs uregs \<longleftrightarrow> regs_ok regs \<and> regs_ok uregs \<and>
     (let p = argument_registers regs ! 0 in p \<noteq> 0 \<and> a_regs_at A p = uregs \<and> a_user A p = None)"

lemma wrapped_syscall_regs:
  assumes "wrapped_call A regs uregs"
  shows "syscall_regs A (Some regs) = Some uregs"
  using assms two_argument_registers [of regs]
  by (auto simp: syscall_regs_def wrapped_call_def get_arg_or_zero or_zero_def Let_def)

lemma syscall_argument:
  assumes "kernel_argument_law A" "wrapped_call A regs uregs" "n < 2"
  shows "PHOTON_RING_KPROBE_GET_ARG A uregs n = argument_registers uregs ! n"
proof -
  have "regs_ok uregs" using assms(2) by (simp add: wrapped_call_def)
  with kprobe_get_arg [OF assms(1) this, of n] two_argument_registers [OF this] assms(3) show ?thesis by simp
qed


lemma demo_wrapped: "wrapped_call (demo_arch path) demo_regs demo_user_regs"
  by (simp add: wrapped_call_def demo_arch_def demo_regs_def demo_user_regs_def)


text \<open>
  C34. The chdir detector is blind.  On kernels with system call wrappers the handler takes the address of the user's
  registers for the path: whatever directory a process changes to, sensitive or not, it reports
  nothing, on either architecture.
\<close>

theorem chdir_detector_is_blind:
  assumes "kernel_argument_law A" "wrapped_call A regs uregs"
  shows "chdir_entry A regs = Silent"
proof -
  have ok: "regs_ok regs" using assms(2) by (simp add: wrapped_call_def)
  have "0 < length (argument_registers regs)" using two_argument_registers [OF ok] by (rule Suc_lessD)
  from kprobe_get_arg [OF assms(1) ok this] assms(2) show ?thesis
    by (simp add: chdir_entry_def chdir_handler_pre_def user_pointer_def strncpy_from_user_def wrapped_call_def Let_def)
qed

theorem chdir_detector_is_blind_witness:
  "chdir_entry (demo_arch ''/proc/4711'') demo_regs = Silent \<and> chdir_handler_pre (Some (Some ''/proc/4711'')) = Alert"
proof -
  have "strstr ''/proc/4711'' ''/proc/''" by (subst strstr.simps) simp
  with chdir_detector_is_blind [OF demo_arch_law demo_wrapped] show ?thesis
    by (simp add: chdir_handler_pre_def strncpy_from_user_def cstr_def)
qed

end
