(* ===== verification/Agent_Main.thy ===== *)
theory Agent_Main
  imports Agent
begin

text \<open>
  The rest of \<open>photon_agent.c\<close>: the command line, the TLS context, the connection, and \<open>main\<close> with its reconnect loop.
  The socket and OpenSSL calls are parameters that may fail at any time; what they allocate is counted
  in a ledger, so that the theorems can say that everything is released, once.  The theorems also
  say what the relay loop loses when a connection fails in the middle of a frame.
\<close>

section \<open>The command line\<close>

record agent_options =
  o_host :: string
  o_port :: string
  o_cert :: string
  o_key_file :: string
  o_ca :: string
  o_inject_key :: bool
  o_retry_delay :: "32 word"

definition default_options :: agent_options where
  "default_options = \<lparr>o_host = ''127.0.0.1'', o_port = ''9443'', o_cert = ''certs/client.crt'',
     o_key_file = ''certs/client.key'', o_ca = ''certs/ca.crt'', o_inject_key = True, o_retry_delay = 5\<rparr>"

text \<open>\<open>atoi\<close>: blanks, a sign, digits; the value of a number that does not fit is the parameter's.\<close>

fun digits_value_of :: "int \<Rightarrow> string \<Rightarrow> int" where
  "digits_value_of acc [] = acc"
| "digits_value_of acc (c # cs) =
     (let d = of_char c - 48 in if 0 \<le> d \<and> d \<le> (9 :: int) then digits_value_of (10 * acc + d) cs else acc)"

definition is_space :: "char \<Rightarrow> bool" where
  "is_space c \<longleftrightarrow> c = CHR '' '' \<or> (of_char c :: nat) \<in> {9..13}"

definition atoi :: "(int \<Rightarrow> 32 word) \<Rightarrow> string \<Rightarrow> 32 word" where
  "atoi overflow s =
     (let s = dropWhile is_space s;
          v = (case s of
                 [] \<Rightarrow> 0
               | c # cs \<Rightarrow> if c = CHR ''-'' then - digits_value_of 0 cs
                           else if c = CHR ''+'' then digits_value_of 0 cs
                           else digits_value_of 0 s)
      in if - (2 ^ 31) \<le> v \<and> v < 2 ^ 31 then word_of_int v else overflow v)"

datatype command_line = Options agent_options | Help | Unknown_Option string

text \<open>The loop over \<open>argv[1]\<close>, \<dots>: an option that takes a value needs a further argument.\<close>

function parse_args :: "(int \<Rightarrow> 32 word) \<Rightarrow> agent_options \<Rightarrow> string list \<Rightarrow> command_line" where
  "parse_args ov opt [] = Options opt"
| "parse_args ov opt (arg # args) =
     (if arg = ''--host'' \<and> args \<noteq> [] then parse_args ov (opt\<lparr>o_host := hd args\<rparr>) (tl args)
      else if arg = ''--port'' \<and> args \<noteq> [] then parse_args ov (opt\<lparr>o_port := hd args\<rparr>) (tl args)
      else if arg = ''--cert'' \<and> args \<noteq> [] then parse_args ov (opt\<lparr>o_cert := hd args\<rparr>) (tl args)
      else if arg = ''--key'' \<and> args \<noteq> [] then parse_args ov (opt\<lparr>o_key_file := hd args\<rparr>) (tl args)
      else if arg = ''--ca'' \<and> args \<noteq> [] then parse_args ov (opt\<lparr>o_ca := hd args\<rparr>) (tl args)
      else if arg = ''--retry-delay'' \<and> args \<noteq> [] then parse_args ov (opt\<lparr>o_retry_delay := atoi ov (hd args)\<rparr>) (tl args)
      else if arg = ''--no-inject'' then parse_args ov (opt\<lparr>o_inject_key := False\<rparr>) args
      else if arg = ''--help'' then Help
      else Unknown_Option arg)"
  by pat_completeness auto
termination
  by (relation "measure (\<lambda>(ov, opt, args). length args)") auto

declare parse_args.simps(2) [simp del]

section \<open>Sockets and OpenSSL objects\<close>

text \<open>
  The calls of the C library and of OpenSSL, as functions of the time of the call.  An address of the list that
  \<open>getaddrinfo\<close> returns is a number.  \<open>n_ssl_connect\<close> gives the connection that \<open>SSL_read\<close>
  and \<open>SSL_write\<close> work on.
\<close>

record 'c net_env =
  n_ctx_new :: "nat \<Rightarrow> bool"
  n_use_certificate_file :: "nat \<Rightarrow> string \<Rightarrow> bool"
  n_use_private_key_file :: "nat \<Rightarrow> string \<Rightarrow> bool"
  n_check_private_key :: "nat \<Rightarrow> bool"
  n_load_verify_locations :: "nat \<Rightarrow> string \<Rightarrow> bool"
  n_getaddrinfo :: "nat \<Rightarrow> string \<Rightarrow> string \<Rightarrow> nat list option"
  n_socket :: "nat \<Rightarrow> nat \<Rightarrow> bool"
  n_connect :: "nat \<Rightarrow> nat \<Rightarrow> bool"
  n_ssl_new :: "nat \<Rightarrow> bool"
  n_ssl_connect :: "nat \<Rightarrow> string \<Rightarrow> 'c option"

text \<open>The ledger: objects allocated minus objects freed, and the seconds slept.\<close>

record ledger =
  r_clock :: nat
  r_ctx :: int
  r_ssl :: int
  r_fds :: int
  r_addrinfo :: int
  r_slept :: "u32 list"

definition ask :: "(nat \<Rightarrow> 'a) \<Rightarrow> ledger \<Rightarrow> 'a \<times> ledger" where
  "ask f r = (f (r_clock r), r\<lparr>r_clock := Suc (r_clock r)\<rparr>)"

definition SSL_CTX_free :: "ledger \<Rightarrow> ledger" where "SSL_CTX_free r = r\<lparr>r_ctx := r_ctx r - 1\<rparr>"
definition SSL_free :: "ledger \<Rightarrow> ledger" where "SSL_free r = r\<lparr>r_ssl := r_ssl r - 1\<rparr>"
definition close_socket :: "ledger \<Rightarrow> ledger" where "close_socket r = r\<lparr>r_fds := r_fds r - 1\<rparr>"
definition freeaddrinfo :: "ledger \<Rightarrow> ledger" where "freeaddrinfo r = r\<lparr>r_addrinfo := r_addrinfo r - 1\<rparr>"

definition build_ssl_ctx :: "'c net_env \<Rightarrow> string \<Rightarrow> string \<Rightarrow> string \<Rightarrow> ledger \<Rightarrow> bool \<times> ledger" where
  "build_ssl_ctx N cert key ca r =
     (case ask (n_ctx_new N) r of
        (False, r) \<Rightarrow> (False, r)
      | (True, r) \<Rightarrow>
          let r = r\<lparr>r_ctx := r_ctx r + 1\<rparr>
          in case ask (\<lambda>t. n_use_certificate_file N t cert) r of
               (False, r) \<Rightarrow> (False, SSL_CTX_free r)
             | (True, r) \<Rightarrow>
                 (case ask (\<lambda>t. n_use_private_key_file N t key) r of
                    (False, r) \<Rightarrow> (False, SSL_CTX_free r)
                  | (True, r) \<Rightarrow>
                      (case ask (n_check_private_key N) r of
                         (False, r) \<Rightarrow> (False, SSL_CTX_free r)
                       | (True, r) \<Rightarrow>
                           (case ask (\<lambda>t. n_load_verify_locations N t ca) r of
                              (False, r) \<Rightarrow> (False, SSL_CTX_free r)
                            | (True, r) \<Rightarrow> (True, r)))))"

text \<open>The loop over the addresses; the result tells whether a connected socket is left.\<close>

fun try_addresses :: "'c net_env \<Rightarrow> nat list \<Rightarrow> ledger \<Rightarrow> bool \<times> ledger" where
  "try_addresses N [] r = (False, r)"
| "try_addresses N (ai # ais) r =
     (case ask (\<lambda>t. n_socket N t ai) r of
        (False, r) \<Rightarrow> try_addresses N ais r
      | (True, r) \<Rightarrow>
          (case ask (\<lambda>t. n_connect N t ai) (r\<lparr>r_fds := r_fds r + 1\<rparr>) of
             (True, r) \<Rightarrow> (True, r)
           | (False, r) \<Rightarrow> try_addresses N ais (close_socket r)))"

definition connect_tls :: "'c net_env \<Rightarrow> string \<Rightarrow> string \<Rightarrow> ledger \<Rightarrow> 'c option \<times> ledger" where
  "connect_tls N host port_str r =
     (case ask (\<lambda>t. n_getaddrinfo N t host port_str) r of
        (None, r) \<Rightarrow> (None, r)
      | (Some res, r) \<Rightarrow>
          (case try_addresses N res (r\<lparr>r_addrinfo := r_addrinfo r + 1\<rparr>) of
             (False, r) \<Rightarrow> (None, freeaddrinfo r)
           | (True, r) \<Rightarrow>
               (case ask (n_ssl_new N) (freeaddrinfo r) of
                  (False, r) \<Rightarrow> (None, close_socket r)
                | (True, r) \<Rightarrow>
                    (case ask (\<lambda>t. n_ssl_connect N t host) (r\<lparr>r_ssl := r_ssl r + 1\<rparr>) of
                       (None, r) \<Rightarrow> (None, close_socket (SSL_free r))
                     | (Some ssl, r) \<Rightarrow> (Some ssl, r)))))"

section \<open>Sessions and the reconnect loop\<close>

text \<open>
  \<open>connect_and_run\<close> with its resources: every way out of it after a connection was made, \<open>fail\<close> and
  \<open>fail_wipe\<close> included, shuts the connection down, frees it and closes the socket.
\<close>

definition agent_session ::
  "'t kenv \<Rightarrow> task \<Rightarrow> bool \<Rightarrow> 'c tls \<Rightarrow> 'c net_env \<Rightarrow> agent_options \<Rightarrow> bool list \<Rightarrow> 't em_state \<times> ledger \<Rightarrow>
   (bool \<times> 't em_state \<times> ledger) option" where
  "agent_session K current cap T N opt sigs = (\<lambda>(s, r).
     (case connect_tls N (o_host opt) (o_port opt) r of
        (None, r) \<Rightarrow> Some (False, s, r)
      | (Some ssl, r) \<Rightarrow> do {
          (rc, s, _) \<leftarrow> connect_and_run K current cap T (Some ssl) (o_inject_key opt) sigs s;
          Some (rc, s, close_socket (SSL_free r))
        }))"

text \<open>
  The reconnect loop.  The list has an entry for each time the loop finds \<open>g_running\<close> set: the rounds of its
  relay loop, and whether \<open>g_running\<close> is still set when the session is over.
\<close>

fun reconnect_loop ::
  "'t kenv \<Rightarrow> task \<Rightarrow> bool \<Rightarrow> 'c tls \<Rightarrow> 'c net_env \<Rightarrow> agent_options \<Rightarrow> (bool list \<times> bool) list \<Rightarrow> 't em_state \<times> ledger \<Rightarrow>
   ('t em_state \<times> ledger) option" where
  "reconnect_loop K current cap T N opt [] st = Some st"
| "reconnect_loop K current cap T N opt ((sigs, running) # rest) st = do {
     (_, s, r) \<leftarrow> agent_session K current cap T N opt sigs st;
     (if \<not> running then Some (s, r)
      else reconnect_loop K current cap T N opt rest (s, r\<lparr>r_slept := r_slept r @ [o_retry_delay opt]\<rparr>))
   }"

definition agent_main ::
  "'t kenv \<Rightarrow> task \<Rightarrow> bool \<Rightarrow> 'c tls \<Rightarrow> 'c net_env \<Rightarrow> (int \<Rightarrow> 32 word) \<Rightarrow> string list \<Rightarrow> (bool list \<times> bool) list \<Rightarrow>
   't em_state \<times> ledger \<Rightarrow> (int \<times> 't em_state \<times> ledger) option" where
  "agent_main K current cap T N ov args sessions = (\<lambda>(s, r).
     (case parse_args ov default_options args of
        Help \<Rightarrow> Some (0, s, r)
      | Unknown_Option _ \<Rightarrow> Some (1, s, r)
      | Options opt \<Rightarrow>
          (case build_ssl_ctx N (o_cert opt) (o_key_file opt) (o_ca opt) r of
             (False, r) \<Rightarrow> Some (1, s, r)
           | (True, r) \<Rightarrow> do {
               (s, r) \<leftarrow> reconnect_loop K current cap T N opt sessions (s, r);
               Some (0, s, SSL_CTX_free r)
             })))"

section \<open>The ledger\<close>

definition balanced :: "ledger \<Rightarrow> ledger \<Rightarrow> bool" where
  "balanced r r' \<longleftrightarrow> r_ctx r' = r_ctx r \<and> r_ssl r' = r_ssl r \<and> r_fds r' = r_fds r \<and> r_addrinfo r' = r_addrinfo r"

lemma balanced_refl: "balanced r r"
  by (simp add: balanced_def)

lemma balanced_trans: "balanced r s \<Longrightarrow> balanced s t \<Longrightarrow> balanced r t"
  by (simp add: balanced_def)

lemmas ledger_defs = ask_def SSL_CTX_free_def SSL_free_def close_socket_def freeaddrinfo_def balanced_def

lemma build_ssl_ctx_ledger:
  "build_ssl_ctx N cert key ca r = (b, r') \<Longrightarrow> balanced (r\<lparr>r_ctx := r_ctx r + of_bool b\<rparr>) r' \<and> r_slept r' = r_slept r"
  by (auto simp: build_ssl_ctx_def ledger_defs Let_def split: if_splits bool.splits prod.splits)

lemma try_addresses_ledger:
  "try_addresses N ais r = (b, r') \<Longrightarrow> balanced (r\<lparr>r_fds := r_fds r + of_bool b\<rparr>) r' \<and> r_slept r' = r_slept r"
proof (induction N ais r rule: try_addresses.induct)
  case (2 N ai ais r)
  show ?case
  proof (cases "n_socket N (r_clock r) ai")
    case False
    with 2 show ?thesis by (simp add: ledger_defs)
  next
    case sock: True
    show ?thesis
    proof (cases "n_connect N (Suc (r_clock r)) ai")
      case True
      with sock 2 show ?thesis by (auto simp: ledger_defs)
    next
      case False
      with sock 2 show ?thesis by (simp add: ledger_defs)
    qed
  qed
qed (simp add: ledger_defs)

lemma connect_tls_ledger:
  assumes "connect_tls N host port r = (c, r')"
  shows "balanced (r\<lparr>r_ssl := r_ssl r + of_bool (c \<noteq> None), r_fds := r_fds r + of_bool (c \<noteq> None)\<rparr>) r' \<and> r_slept r' = r_slept r"
proof (cases "n_getaddrinfo N (r_clock r) host port")
  case None
  with assms show ?thesis by (auto simp: connect_tls_def ledger_defs)
next
  case (Some res)
  let ?r = "r\<lparr>r_clock := Suc (r_clock r), r_addrinfo := r_addrinfo r + 1\<rparr>"
  obtain b r1 where attempt: "try_addresses N res ?r = (b, r1)" by fastforce
  from try_addresses_ledger [OF this] assms Some attempt show ?thesis
    by (cases b; cases "n_ssl_new N (r_clock r1)"; cases "n_ssl_connect N (Suc (r_clock r1)) host")
      (auto simp: connect_tls_def ledger_defs)
qed

section \<open>The relay on any connection\<close>

text \<open>One round of the relay loop on a device that is open.\<close>

lemma relay_round:
  assumes inv: "module_inv K has_key n (s, h)" and frames: "\<forall>f \<in> set (ring_frames (g_ring s)). 4 \<le> length f"
    and laws: "tls_laws T incoming sent"
  shows "ring_frames (g_ring s) = [] \<Longrightarrow>
      relay_iteration T sig (s, c, st) = (if sig then Some (True, s, c, st) else None)"
    and "ring_frames (g_ring s) = f # fs \<Longrightarrow> \<exists>go s' c' st'. relay_iteration T sig (s, c, st) = Some (go, s', c', st') \<and>
      module_inv K has_key n (s', h) \<and> ring_frames (g_ring s') = fs \<and> g_key_set s' = g_key_set s \<and> g_master_key s' = g_master_key s \<and>
      (if go then sent c' = sent c @ f \<and> total_frames st' = total_frames st + 1 \<and> total_errors st' = total_errors st
       else (\<exists>j < length f. sent c' = sent c @ take j f) \<and> total_frames st' = total_frames st \<and>
         total_errors st' = total_errors st + 1)"
proof -
  have ring: "ring_ok (g_ring s)" "\<not> g_shutting_down s" using inv by (simp_all add: module_inv_def em_inv_def cdev_up_def)
  show "ring_frames (g_ring s) = [] \<Longrightarrow>
      relay_iteration T sig (s, c, st) = (if sig then Some (True, s, c, st) else None)"
    using read_empty [OF ring(1) _ ring(2)] by (simp add: relay_iteration_def)
  assume next_frame: "ring_frames (g_ring s) = f # fs"
  have big: "356 \<le> unat (of_nat MAX_FRAME_BYTES :: u64)" "unat (of_nat MAX_FRAME_BYTES :: u64) < 2 ^ 32"
    by (simp_all add: MAX_FRAME_BYTES_def)
  obtain s' where s': "photon_cdev_read sig True (of_nat MAX_FRAME_BYTES) s = Some (Inr f, s')"
    "ring_frames (g_ring s') = fs" "module_inv K has_key n (s', h)"
    using read_oldest [OF inv next_frame big] by blast
  note key = read_step(2,3) [OF inv s'(1)]
  have len: "4 \<le> length f" using frames next_frame by simp
  obtain b c' where send: "ssl_send_all T c f = (b, c')" by fastforce
  note sent = send_all_spec [OF laws send]
  show "\<exists>go s' c' st'. relay_iteration T sig (s, c, st) = Some (go, s', c', st') \<and>
      module_inv K has_key n (s', h) \<and> ring_frames (g_ring s') = fs \<and> g_key_set s' = g_key_set s \<and> g_master_key s' = g_master_key s \<and>
      (if go then sent c' = sent c @ f \<and> total_frames st' = total_frames st + 1 \<and> total_errors st' = total_errors st
       else (\<exists>j < length f. sent c' = sent c @ take j f) \<and> total_frames st' = total_frames st \<and>
         total_errors st' = total_errors st + 1)"
    using s' key sent(2,3) send len by (cases b) (auto simp: relay_iteration_def)
qed

text \<open>What the loop has done with the frames \<open>fs\<close> that were queued: sent, lost in the middle, still queued.\<close>

definition relayed :: "('c \<Rightarrow> bytes) \<Rightarrow> bytes list \<Rightarrow> 'c \<Rightarrow> relay_stats \<Rightarrow> nat \<Rightarrow> bytes list \<Rightarrow> 'c \<Rightarrow> relay_stats \<Rightarrow> bool" where
  "relayed sent fs c st k fs' c' st' \<longleftrightarrow> (\<exists>done lost part. fs = done @ lost @ fs' \<and> sent c' = sent c @ concat done @ part \<and>
     length done + length lost \<le> k \<and>
     total_frames st' = total_frames st + of_nat (length done) \<and> total_errors st' = total_errors st + of_nat (length lost) \<and>
     (lost = [] \<and> part = [] \<or> (\<exists>f j. lost = [f] \<and> j < length f \<and> part = take j f)))"

lemma relayed_refl: "relayed sent fs c st k fs c st"
  unfolding relayed_def by (intro exI [of _ "[]"]) simp

lemma relayed_Cons:
  assumes "relayed sent fs c1 st1 k fs' c' st'" "sent c1 = sent c @ f" "total_frames st1 = total_frames st + 1"
    "total_errors st1 = total_errors st"
  shows "relayed sent (f # fs) c st (Suc k) fs' c' st'"
proof -
  obtain dn lost part where d: "fs = dn @ lost @ fs'" "sent c' = sent c1 @ concat dn @ part"
    "length dn + length lost \<le> k"
    "total_frames st' = total_frames st1 + of_nat (length dn)" "total_errors st' = total_errors st1 + of_nat (length lost)"
    "lost = [] \<and> part = [] \<or> (\<exists>f j. lost = [f] \<and> j < length f \<and> part = take j f)"
    using assms(1) unfolding relayed_def by blast
  with assms(2-4) show ?thesis
    unfolding relayed_def by (intro exI [of _ "f # dn"] exI [of _ lost] exI [of _ part]) (simp add: add.assoc)
qed

lemma relayed_lost:
  assumes "sent c' = sent c @ take j f" "j < length f" "total_frames st' = total_frames st" "total_errors st' = total_errors st + 1"
  shows "relayed sent (f # fs) c st (Suc k) fs c' st'"
  using assms unfolding relayed_def by (intro exI [of _ "[]"] exI [of _ "[f]"] exI [of _ "take j f"]) auto

lemma relay_loop_relayed:
  assumes laws: "tls_laws T incoming sent"
  shows "module_inv K has_key n (s, h) \<Longrightarrow> \<forall>f \<in> set (ring_frames (g_ring s)). 4 \<le> length f \<Longrightarrow>
    (set sigs \<subseteq> {True} \<or> length sigs \<le> length (ring_frames (g_ring s)) \<longrightarrow> relay_loop T sigs (s, c, st) \<noteq> None) \<and>
    (\<forall>s' c' st'. relay_loop T sigs (s, c, st) = Some (s', c', st') \<longrightarrow>
      module_inv K has_key n (s', h) \<and> g_key_set s' = g_key_set s \<and> g_master_key s' = g_master_key s \<and>
      relayed sent (ring_frames (g_ring s)) c st (length sigs) (ring_frames (g_ring s')) c' st')"
proof (induction sigs arbitrary: s c st)
  case Nil
  then show ?case using relayed_refl by auto
next
  case (Cons sig sigs)
  note round = relay_round [OF Cons.prems laws]
  show ?case
  proof (cases "ring_frames (g_ring s)")
    case empty: Nil
    have weaken: "relayed sent [] c st (length sigs) fs' c' st' \<Longrightarrow> relayed sent [] c st (Suc (length sigs)) fs' c' st'"
      for fs' c' st' by (auto simp: relayed_def)
    show ?thesis
      using Cons.IH [OF Cons.prems, of c st] round(1) [OF empty, of sig c st] empty weaken
      by (cases sig) auto
  next
    case frame: (Cons f fs)
    obtain go s1 c1 st1 where r: "relay_iteration T sig (s, c, st) = Some (go, s1, c1, st1)"
      "module_inv K has_key n (s1, h)" "ring_frames (g_ring s1) = fs" "g_key_set s1 = g_key_set s" "g_master_key s1 = g_master_key s"
      "if go then sent c1 = sent c @ f \<and> total_frames st1 = total_frames st + 1 \<and> total_errors st1 = total_errors st
       else (\<exists>j < length f. sent c1 = sent c @ take j f) \<and> total_frames st1 = total_frames st \<and> total_errors st1 = total_errors st + 1"
      using round(2) [OF frame, of sig c st] by blast
    show ?thesis
    proof (cases go)
      case False
      with r relayed_lost [of sent c1 c _ f st1 st fs "length sigs"] frame show ?thesis by auto
    next
      case True
      have "\<forall>f \<in> set (ring_frames (g_ring s1)). 4 \<le> length f" using Cons.prems(2) frame r(3) by simp
      from Cons.IH [OF r(2) this, of c1 st1] True r frame relayed_Cons [of sent fs c1 st1 "length sigs"]
      show ?thesis by auto
    qed
  qed
qed

section \<open>The module under the agent\<close>

text \<open>The module's invariant is kept, and once set the key stays.\<close>

definition kept :: "'t kenv \<Rightarrow> ('t \<Rightarrow> bytes \<Rightarrow> bool) \<Rightarrow> nat \<Rightarrow> nat \<Rightarrow> 't em_state \<Rightarrow> 't em_state \<Rightarrow> bool" where
  "kept K has_key n h s s' \<longleftrightarrow> module_inv K has_key n (s', h) \<and>
     (g_key_set s \<longrightarrow> g_key_set s' \<and> g_master_key s' = g_master_key s)"

lemma kept_trans: "kept K has_key n h s t \<Longrightarrow> kept K has_key n h' t u \<Longrightarrow> kept K has_key n h' s u"
  by (auto simp: kept_def)

lemma kept_inv: "kept K has_key n h s s' \<Longrightarrow> module_inv K has_key n (s', h)"
  by (simp add: kept_def)

lemma relay_iteration_kept:
  assumes "module_inv K has_key n (s, h)" "relay_iteration T sig (s, c, st) = Some (go, s', c', st')"
  shows "kept K has_key n h s s'"
proof -
  obtain r s1 where read: "photon_cdev_read sig True (of_nat MAX_FRAME_BYTES) s = Some (r, s1)"
    using assms(2) by (auto simp: relay_iteration_def split: bind_splits)
  with assms(2) have "s' = s1"
    by (auto simp: relay_iteration_def split: sum.splits if_splits prod.splits bool.splits)
  with read_step [OF assms(1) read] show ?thesis by (simp add: kept_def)
qed

lemma relay_iteration_returns: "relay_iteration T True st \<noteq> None"
proof -
  obtain s c q where st: "st = (s, c, q)" by (cases st)
  obtain r s1 where "photon_cdev_read True True (of_nat MAX_FRAME_BYTES) s = Some (r, s1)"
    by (fastforce simp: photon_cdev_read_def Let_def split: prod.splits)
  then show ?thesis by (auto simp: st relay_iteration_def split: sum.splits prod.splits bool.splits)
qed

lemma relay_loop_kept:
  "module_inv K has_key n (s, h) \<Longrightarrow> relay_loop T sigs (s, c, st) = Some (s', c', st') \<Longrightarrow> kept K has_key n h s s'"
proof (induction sigs arbitrary: s c st)
  case Nil
  then show ?case by (simp add: kept_def)
next
  case (Cons sig sigs)
  then obtain go s1 c1 st1 where one: "relay_iteration T sig (s, c, st) = Some (go, s1, c1, st1)"
    and rest: "(if go then relay_loop T sigs (s1, c1, st1) else Some (s1, c1, st1)) = Some (s', c', st')"
    by (auto split: bind_splits)
  note k1 = relay_iteration_kept [OF Cons.prems(1) one]
  show ?case
  proof (cases go)
    case True
    with rest Cons.IH [OF kept_inv [OF k1]] kept_trans [OF k1] show ?thesis by auto
  next
    case False
    with rest k1 show ?thesis by simp
  qed
qed

lemma relay_loop_returns: "set sigs \<subseteq> {True} \<Longrightarrow> relay_loop T sigs st \<noteq> None"
proof (induction sigs arbitrary: st)
  case (Cons sig sigs)
  obtain x where x: "relay_iteration T True st = Some x" using relay_iteration_returns [of T st] by auto
  obtain go st1 where "x = (go, st1)" by (rule prod.exhaust)
  with x Cons.IH [of st1] Cons.prems show ?case by (cases st1) simp
qed simp

lemma open_cases [consumes 1]:
  assumes "module_inv K has_key n (s, 0)"
  obtains (opened) s' where "photon_cdev_open cap s = (ok, s')" "kept K has_key n 1 s s'"
  | (refused) e where "photon_cdev_open cap s = (Inl e, s)"
proof (cases "photon_cdev_open cap s")
  case (Pair r s')
  show thesis
  proof (cases r)
    case (Inl e)
    with Pair open_release_step(2) [OF assms, of cap e s'] show thesis by (intro refused [of e]) simp
  next
    case (Inr u)
    then have o': "photon_cdev_open cap s = (ok, s')" using Pair by simp
    then have "g_key_set s' = g_key_set s" "g_master_key s' = g_master_key s" by (auto simp: photon_cdev_open_def split: if_splits)
    with open_release_step(1) [OF assms o'] show thesis by (intro opened [OF o']) (simp add: kept_def)
  qed
qed

lemma release_kept:
  assumes "module_inv K has_key n (s, 1)"
  shows "kept K has_key n 0 s (photon_cdev_release s)"
proof -
  have "module_inv K has_key n (photon_cdev_release s, 0)" by (rule open_release_step(3) [OF assms]) simp
  then show ?thesis by (simp add: kept_def) (simp add: photon_cdev_release_def)
qed

lemma run_relay_kept:
  assumes inv: "module_inv K has_key n (s, 0)"
  shows "run_relay T cap sigs s c = Some (b, s', c', st) \<Longrightarrow> kept K has_key n 0 s s'"
    and "set sigs \<subseteq> {True} \<Longrightarrow> run_relay T cap sigs s c \<noteq> None"
proof -
  let ?st = "\<lparr>total_frames = 0, total_bytes = 0, total_errors = 0\<rparr>"
  from inv show "kept K has_key n 0 s s'" if run: "run_relay T cap sigs s c = Some (b, s', c', st)"
  proof (cases rule: open_cases [where cap = cap])
    case (opened s1)
    from run opened(1) obtain s2 where loop: "relay_loop T sigs (s1, c, ?st) = Some (s2, c', st)" "s' = photon_cdev_release s2"
      by (auto simp: run_relay_def split: bind_splits)
    note k2 = kept_trans [OF opened(2) relay_loop_kept [OF kept_inv [OF opened(2)] loop(1)]]
    show ?thesis using kept_trans [OF k2 release_kept [OF kept_inv [OF k2]]] loop(2) by simp
  next
    case (refused e)
    with run inv show ?thesis by (simp add: run_relay_def kept_def)
  qed
  show "run_relay T cap sigs s c \<noteq> None" if pending: "set sigs \<subseteq> {True}"
  proof -
    obtain r s1 where o': "photon_cdev_open cap s = (r, s1)" by fastforce
    obtain x where "relay_loop T sigs (s1, c, ?st) = Some x" using relay_loop_returns [OF pending, of T "(s1, c, ?st)"] by blast
    with o' show ?thesis by (cases r; cases x) (auto simp: run_relay_def)
  qed
qed

lemma ioctl_returns:
  assumes env: "env_ok K has_key seal unseal n" and inv: "module_inv K has_key n (s, h)"
  shows "photon_cdev_ioctl K current cap cmd arg s \<noteq> None"
proof (cases "cap \<and> cmd = PHOTON_IOC_SET_KEY \<and> \<not> g_key_set s \<and> arg \<noteq> None")
  case False
  then show ?thesis by (cases arg) (auto simp: photon_cdev_ioctl_def photon_has_key_def)
next
  case True
  then obtain key where key: "arg = Some key" by blast
  have nk: "\<not> g_key_set s" using True by simp
  have free: "\<not> crypto_mutex s" using inv by (simp add: module_inv_def em_inv_def crypto_inv_def)
  obtain t where t: "g_tfm s = Some t" using inv by (auto simp: module_inv_def)
  obtain r1 s1 where set_key: "photon_set_encryption_key K (Some (take 32 key)) s = Some (r1, s1)"
    by (cases rule: set_key_cases [OF t free, of K "take 32 key"]) blast+
  have "module_inv K has_key n (s1, h)" by (rule set_key_step(1) [OF env inv nk set_key])
  then have "buffers_ok s1" "cpus_ok K (length (event_buffers s1))"
    using env_okD(4) [OF env] by (simp_all add: module_inv_def em_inv_def)
  from heartbeat_returns [OF this] obtain s2 where "photon_send_heartbeat K current s1 = Some (ok, s2)" by blast
  with set_key key True show ?thesis by (cases r1) (auto simp: photon_cdev_ioctl_def photon_has_key_def)
qed

lemma set_kernel_key_kept:
  assumes env: "env_ok K has_key seal unseal n" and inv: "module_inv K has_key n (s, 0)"
  shows "\<exists>b s'. set_kernel_key K current cap key s = Some (b, s') \<and> kept K has_key n 0 s s'"
  using inv
proof (cases rule: open_cases [where cap = cap])
  case (opened s1)
  note inv1 = kept_inv [OF opened(2)]
  obtain r s2 where io: "photon_cdev_ioctl K current cap PHOTON_IOC_SET_KEY (Some key) s1 = Some (r, s2)"
    using ioctl_returns [OF env inv1] by fastforce
  have "kept K has_key n 1 s1 s2" using ioctl_step(1,2) [OF env inv1 io] by (auto simp: kept_def)
  note k2 = kept_trans [OF opened(2) this]
  have "\<exists>b. set_kernel_key K current cap key s = Some (b, photon_cdev_release s2)"
    using opened(1) io by (cases r) (auto simp: set_kernel_key_def)
  then show ?thesis using kept_trans [OF k2 release_kept [OF kept_inv [OF k2]]] by blast
next
  case (refused e)
  with inv show ?thesis by (intro exI [of _ False] exI [of _ s]) (simp add: set_kernel_key_def kept_def)
qed

lemma connect_and_run_kept:
  assumes env: "env_ok K has_key seal unseal n" and inv: "module_inv K has_key n (s, 0)"
  shows "connect_and_run K current cap T conn inject sigs s = Some (b, s', c) \<Longrightarrow> kept K has_key n 0 s s'"
    and "set sigs \<subseteq> {True} \<Longrightarrow> connect_and_run K current cap T conn inject sigs s \<noteq> None"
proof -
  have refl: "kept K has_key n 0 s s" using inv by (simp add: kept_def)
  have main: "(set sigs \<subseteq> {True} \<longrightarrow> connect_and_run K current cap T conn inject sigs s \<noteq> None) \<and>
    (\<forall>b s' c. connect_and_run K current cap T conn inject sigs s = Some (b, s', c) \<longrightarrow> kept K has_key n 0 s s')"
  proof (cases conn)
    case None
    with refl show ?thesis by (simp add: connect_and_run_def)
  next
    case (Some c0)
    obtain ko c1 where ex: "do_key_exchange T c0 = (ko, c1)" by fastforce
    show ?thesis
    proof (cases ko)
      case None
      with Some ex refl show ?thesis by (simp add: connect_and_run_def)
    next
      case key: (Some key)
      have "\<exists>injected s1. (if inject then set_kernel_key K current cap key s else Some (True, s)) = Some (injected, s1) \<and>
          kept K has_key n 0 s s1"
        using set_kernel_key_kept [OF env inv, of current cap key] refl by (cases inject) auto
      then obtain injected s1 where set_key: "(if inject then set_kernel_key K current cap key s else Some (True, s)) = Some (injected, s1)"
        and k1: "kept K has_key n 0 s s1" by blast
      note relay = run_relay_kept [OF kept_inv [OF k1]]
      have "connect_and_run K current cap T conn inject sigs s =
          (if \<not> injected then Some (False, s1, Some c1)
           else do { (_, s, c, _) \<leftarrow> run_relay T cap sigs s1 c1; Some (True, s, Some c) })"
        unfolding connect_and_run_def using Some ex key set_key by simp
      with k1 relay(2) [where sigs = sigs and T = T and cap = cap and c = c1] show ?thesis
        by (cases injected) (auto split: bind_splits dest!: relay(1) intro: kept_trans [OF k1])
    qed
  qed
  then show "connect_and_run K current cap T conn inject sigs s = Some (b, s', c) \<Longrightarrow> kept K has_key n 0 s s'"
    "set sigs \<subseteq> {True} \<Longrightarrow> connect_and_run K current cap T conn inject sigs s \<noteq> None" by blast+
qed

lemma session_kept:
  assumes env: "env_ok K has_key seal unseal n" and inv: "module_inv K has_key n (s, 0)"
  shows "agent_session K current cap T N opt sigs (s, r) = Some (rc, s', r') \<Longrightarrow>
      kept K has_key n 0 s s' \<and> balanced r r' \<and> r_slept r' = r_slept r"
    and "set sigs \<subseteq> {True} \<Longrightarrow> agent_session K current cap T N opt sigs (s, r) \<noteq> None"
proof -
  obtain conn r1 where con: "connect_tls N (o_host opt) (o_port opt) r = (conn, r1)" by fastforce
  note ledger = connect_tls_ledger [OF con]
  note run = connect_and_run_kept [OF env inv, where current = current and cap = cap and T = T and conn = conn and
      inject = "o_inject_key opt" and sigs = sigs]
  have refl: "kept K has_key n 0 s s" using inv by (simp add: kept_def)
  have unfolded: "agent_session K current cap T N opt sigs (s, r) =
      (if conn = None then Some (False, s, r1)
       else do { (rc, s, _) \<leftarrow> connect_and_run K current cap T conn (o_inject_key opt) sigs s;
                 Some (rc, s, close_socket (SSL_free r1)) })"
    using con by (cases conn) (simp_all add: agent_session_def)
  show "kept K has_key n 0 s s' \<and> balanced r r' \<and> r_slept r' = r_slept r"
    if "agent_session K current cap T N opt sigs (s, r) = Some (rc, s', r')"
    using that run(1) ledger refl unfolding unfolded
    by (cases conn) (auto simp: ledger_defs split: bind_splits)
  show "set sigs \<subseteq> {True} \<Longrightarrow> agent_session K current cap T N opt sigs (s, r) \<noteq> None"
    unfolding unfolded using run(2) by auto
qed

lemma reconnect_loop_kept:
  assumes env: "env_ok K has_key seal unseal n"
  shows "module_inv K has_key n (s, 0) \<Longrightarrow>
    ((\<forall>(sigs, _) \<in> set sessions. set sigs \<subseteq> {True}) \<longrightarrow> reconnect_loop K current cap T N opt sessions (s, r) \<noteq> None) \<and>
    (\<forall>s' r'. reconnect_loop K current cap T N opt sessions (s, r) = Some (s', r') \<longrightarrow>
      kept K has_key n 0 s s' \<and> balanced r r' \<and>
      (\<exists>k \<le> length sessions. r_slept r' = r_slept r @ replicate k (o_retry_delay opt)))"
proof (induction sessions arbitrary: s r)
  case Nil
  then show ?case by (simp add: kept_def balanced_refl)
next
  case (Cons session sessions)
  obtain sigs running where session: "session = (sigs, running)" by fastforce
  note one = session_kept [OF env Cons.prems, where current = current and cap = cap and T = T and N = N and opt = opt and
      sigs = sigs and r = r]
  show ?case
  proof (cases "agent_session K current cap T N opt sigs (s, r)")
    case None
    with one(2) session show ?thesis by auto
  next
    case (Some x)
    then obtain rc s1 r1 where x: "agent_session K current cap T N opt sigs (s, r) = Some (rc, s1, r1)" by (cases x) auto
    note k1 = one(1) [OF x]
    show ?thesis
    proof (cases running)
      case False
      with x session k1 show ?thesis by auto
    next
      case True
      let ?r = "r1\<lparr>r_slept := r_slept r1 @ [o_retry_delay opt]\<rparr>"
      note IH = Cons.IH [OF kept_inv [OF conjunct1 [OF k1]], of ?r]
      have b: "balanced r r' \<longleftrightarrow> balanced ?r r'" for r' using k1 by (auto simp: balanced_def)
      have slept: "r_slept ?r @ replicate k (o_retry_delay opt) = r_slept r @ replicate (Suc k) (o_retry_delay opt)" for k
        using k1 by simp
      have step: "reconnect_loop K current cap T N opt (session # sessions) (s, r) =
          reconnect_loop K current cap T N opt sessions (s1, ?r)" using x session True by simp
      show ?thesis
        unfolding step using IH session kept_trans [OF conjunct1 [OF k1]] b slept by (auto simp del: replicate_Suc) (metis Suc_le_mono)+
    qed
  qed
qed

section \<open>Properties\<close>

text \<open>
  C11. The relay on a failing connection.  Whatever the connection does, the frames that were queued are split into
  those sent completely, in order, at most one that was taken from the device and lost in the middle, and those
  still queued in their order; the statistics count the first two.  A round of the loop takes at most one
  frame, so a stopped agent leaves the rest in the device.  The loop returns when every wait is
  interrupted by a signal, or when there are as many frames as rounds.
\<close>

theorem relay_loses_at_most_one_frame:
  assumes "module_inv K has_key n (s, 0)" "\<forall>f \<in> set (ring_frames (g_ring s)). 4 \<le> length f" "tls_laws T incoming sent"
  shows "(set sigs \<subseteq> {True} \<or> length sigs \<le> length (ring_frames (g_ring s)) \<longrightarrow> run_relay T cap sigs s c \<noteq> None) \<and>
    (\<forall>b s' c' st. run_relay T cap sigs s c = Some (b, s', c', st) \<longrightarrow> module_inv K has_key n (s', 0) \<and>
      (\<exists>complete lost part. ring_frames (g_ring s) = complete @ lost @ ring_frames (g_ring s') \<and>
        sent c' = sent c @ concat complete @ part \<and> length complete + length lost \<le> length sigs \<and>
        total_frames st = of_nat (length complete) \<and> total_errors st = of_nat (length lost) \<and>
        (lost = [] \<and> part = [] \<or> (\<exists>f j. lost = [f] \<and> j < length f \<and> part = take j f))))"
proof -
  let ?st = "\<lparr>total_frames = 0, total_bytes = 0, total_errors = 0\<rparr>"
  from assms(1) show ?thesis
  proof (cases rule: open_cases [where cap = cap])
    case (opened s1)
    have ring: "g_ring s1 = g_ring s" using opened(1) by (auto simp: photon_cdev_open_def split: if_splits)
    note loop = relay_loop_relayed [OF assms(3) kept_inv [OF opened(2)], of sigs c ?st, unfolded ring, OF assms(2)]
    have run_eq: "run_relay T cap sigs s c = (case relay_loop T sigs (s1, c, ?st) of None \<Rightarrow> None
        | Some (s, c, st) \<Rightarrow> Some (True, photon_cdev_release s, c, st))"
      using opened(1) by (auto simp: run_relay_def split: option.splits)
    show ?thesis
    proof (intro conjI impI allI)
      assume "set sigs \<subseteq> {True} \<or> length sigs \<le> length (ring_frames (g_ring s))"
      with loop obtain x where "relay_loop T sigs (s1, c, ?st) = Some x" by blast
      then show "run_relay T cap sigs s c \<noteq> None" unfolding run_eq by (cases x) simp
    next
      fix b s' c' st
      assume run: "run_relay T cap sigs s c = Some (b, s', c', st)"
      show "module_inv K has_key n (s', 0)" by (rule kept_inv [OF run_relay_kept(1) [OF assms(1) run]])
      from run obtain s2 where s2: "relay_loop T sigs (s1, c, ?st) = Some (s2, c', st)" "s' = photon_cdev_release s2"
        unfolding run_eq by (auto split: option.splits)
      with loop have "relayed sent (ring_frames (g_ring s)) c ?st (length sigs) (ring_frames (g_ring s')) c' st"
        by (simp add: photon_cdev_release_def)
      then show "\<exists>complete lost part. ring_frames (g_ring s) = complete @ lost @ ring_frames (g_ring s') \<and>
        sent c' = sent c @ concat complete @ part \<and> length complete + length lost \<le> length sigs \<and>
        total_frames st = of_nat (length complete) \<and> total_errors st = of_nat (length lost) \<and>
        (lost = [] \<and> part = [] \<or> (\<exists>f j. lost = [f] \<and> j < length f \<and> part = take j f))"
        by (simp add: relayed_def)
    qed
  next
    case (refused e)
    with assms(1) show ?thesis by (auto simp: run_relay_def)
  qed
qed

text \<open>A connection that transfers 100 bytes and then fails.\<close>

definition dying_tls :: "(bytes \<times> bytes) tls" where
  "dying_tls = \<lparr>tls_read = (\<lambda>(i, o') n. (take (min n 1) i, (drop (min n 1) i, o'))),
                tls_write = (\<lambda>(i, o') p. (let k = min (100 - length o') (length p) in (k, (i, o' @ take k p))))\<rparr>"

lemma dying_tls_laws: "tls_laws dying_tls fst snd"
  by (auto simp: tls_laws_def dying_tls_def Let_def min_def take_all)

theorem relay_loses_at_most_one_frame_witness:
  "\<exists>b s' c' st. run_relay dying_tls True [False] (photon_cdev_release demo_queued) ([], []) = Some (b, s', c', st) \<and>
     module_inv demo_env (\<lambda>t k. t = k) 2 (s', 0) \<and> length (ring_frames (g_ring s')) \<le> 1"
proof -
  let ?s = "photon_cdev_release demo_queued"
  have frames: "\<forall>f \<in> set (ring_frames (g_ring ?s)). 4 \<le> length f" by (simp add: demo_closed_inv(2))
  note relay = relay_loses_at_most_one_frame [OF demo_closed_inv(1) frames dying_tls_laws, of "[False]" True "([], [])"]
  have "run_relay dying_tls True [False] ?s ([], []) \<noteq> None" using relay by (simp add: demo_closed_inv(2))
  then obtain b s' c' st where run: "run_relay dying_tls True [False] ?s ([], []) = Some (b, s', c', st)" by auto
  from conjunct2 [OF relay, rule_format, OF run] have
    "\<exists>complete lost. [replicate 356 1] = complete @ lost @ ring_frames (g_ring s')" "module_inv demo_env (\<lambda>t k. t = k) 2 (s', 0)"
    unfolding demo_closed_inv(2) by blast+
  moreover from this(1) have "length (ring_frames (g_ring s')) \<le> 1" by (auto dest!: arg_cong [of _ _ length])
  ultimately show ?thesis using run by blast
qed

text \<open>
  C12. The agent cleans up.  Whatever the command line is, and whichever call of the C library or of OpenSSL fails, in
  any number of sessions: when \<open>main\<close> returns, every TLS context, TLS object, socket and address list it
  allocated has been freed exactly once, the module is in a good state with the device closed, a key that was set
  is unchanged, and the exit code is 1 only if no session was started.  \<open>main\<close> returns when every
  wait for a frame is interrupted by a signal.
\<close>

theorem agent_main_releases_everything:
  assumes "env_ok K has_key seal unseal n" "module_inv K has_key n (s, 0)"
  shows "((\<forall>(sigs, _) \<in> set sessions. set sigs \<subseteq> {True}) \<longrightarrow> agent_main K current cap T N ov args sessions (s, r) \<noteq> None) \<and>
    (\<forall>code s' r'. agent_main K current cap T N ov args sessions (s, r) = Some (code, s', r') \<longrightarrow>
      r_ctx r' = r_ctx r \<and> r_ssl r' = r_ssl r \<and> r_fds r' = r_fds r \<and> r_addrinfo r' = r_addrinfo r \<and>
      module_inv K has_key n (s', 0) \<and> (g_key_set s \<longrightarrow> g_key_set s' \<and> g_master_key s' = g_master_key s) \<and>
      (code = 0 \<or> code = 1 \<and> s' = s \<and> r_slept r' = r_slept r))"
proof (cases "parse_args ov default_options args")
  case (Options opt)
  obtain b r1 where ctx: "build_ssl_ctx N (o_cert opt) (o_key_file opt) (o_ca opt) r = (b, r1)" by fastforce
  note ledger = build_ssl_ctx_ledger [OF ctx]
  show ?thesis
  proof (cases b)
    case False
    with ctx ledger Options assms(2) show ?thesis by (simp add: agent_main_def balanced_def)
  next
    case True
    note loop = reconnect_loop_kept [OF assms, of sessions current cap T N opt r1]
    have main: "agent_main K current cap T N ov args sessions (s, r) = (case reconnect_loop K current cap T N opt sessions (s, r1) of
        None \<Rightarrow> None | Some (s, r) \<Rightarrow> Some (0, s, SSL_CTX_free r))"
      using ctx True Options by (auto simp: agent_main_def split: option.splits)
    show ?thesis
    proof (cases "reconnect_loop K current cap T N opt sessions (s, r1)")
      case None
      with loop show ?thesis unfolding main by simp
    next
      case (Some x)
      obtain s2 r2 where x: "x = (s2, r2)" by fastforce
      from loop Some x have "kept K has_key n 0 s s2" "balanced r1 r2" by simp_all
      with ledger True Some x show ?thesis unfolding main by (simp add: ledger_defs kept_def)
    qed
  qed
qed (use assms(2) in \<open>simp_all add: agent_main_def\<close>)

definition demo_net :: "(bytes \<times> bytes) net_env" where
  "demo_net = \<lparr>n_ctx_new = (\<lambda>_. True), n_use_certificate_file = (\<lambda>_ _. True), n_use_private_key_file = (\<lambda>_ _. True),
     n_check_private_key = (\<lambda>_. True), n_load_verify_locations = (\<lambda>_ _. True), n_getaddrinfo = (\<lambda>_ _ _. Some [1, 2]),
     n_socket = (\<lambda>_ _. True), n_connect = (\<lambda>_ ai. ai = 2), n_ssl_new = (\<lambda>_. True),
     n_ssl_connect = (\<lambda>_ _. Some (0x01 # replicate 32 5, []))\<rparr>"

theorem agent_main_releases_everything_witness:
  "\<exists>s code s' r'. agent_main demo_env \<lparr>task_pid = 1, task_comm = ''agent''\<rparr> True demo_tls demo_net (\<lambda>_. 0) [''--no-inject'']
      [([True], True), ([True, True], False)]
      (s, \<lparr>r_clock = 0, r_ctx = 0, r_ssl = 0, r_fds = 0, r_addrinfo = 0, r_slept = []\<rparr>) = Some (code, s', r') \<and>
     r_ctx r' = 0 \<and> r_ssl r' = 0 \<and> r_fds r' = 0 \<and> r_addrinfo r' = 0"
proof -
  obtain s where load: "event_manager_init demo_env em_initial = Some (ok, s)" using em_initial_loads by blast
  define r where "r = \<lparr>r_clock = 0, r_ctx = 0, r_ssl = 0, r_fds = 0, r_addrinfo = 0, r_slept = []\<rparr>"
  define sessions :: "(bool list \<times> bool) list" where "sessions = [([True], True), ([True, True], False)]"
  define run where "run = agent_main demo_env \<lparr>task_pid = 1, task_comm = ''agent''\<rparr> True demo_tls demo_net (\<lambda>_. 0) [''--no-inject'']
      sessions (s, r)"
  note all = agent_main_releases_everything [OF em_initial_env loaded_inv [OF em_initial_env em_initial_fresh load],
      where current = "\<lparr>task_pid = 1, task_comm = ''agent''\<rparr>" and cap = True and T = demo_tls and N = demo_net and ov = "\<lambda>_. 0"
        and args = "[''--no-inject'']" and sessions = sessions and r = r, folded run_def]
  have pending: "\<forall>(sigs, _) \<in> set sessions. set sigs \<subseteq> {True}" by (simp add: sessions_def)
  from mp [OF conjunct1 [OF all] pending] obtain code s' r' where run: "run = Some (code, s', r')" by (cases run) auto
  from conjunct2 [OF all, rule_format, OF run] have "r_ctx r' = 0 \<and> r_ssl r' = 0 \<and> r_fds r' = 0 \<and> r_addrinfo r' = 0"
    by (simp add: r_def)
  with run show ?thesis unfolding run_def sessions_def r_def by blast
qed

text \<open>A negative delay becomes an unsigned number of seconds: more than a century.\<close>

lemma negative_retry_delay:
  "parse_args ov default_options [''--retry-delay'', ''-1''] = Options (default_options\<lparr>o_retry_delay := 0xFFFFFFFF\<rparr>)"
  by (simp add: parse_args.simps(2) atoi_def is_space_def)

end
