(* ===== verification/Payload_Types.thy ===== *)
theory Payload_Types
  imports Filter_Detectors Privesc_Detector
begin

text \<open>
  What a consumer of events may rely on: for each event type, the struct in the payload and the
  contract that \<open>include/event_manager.h\<close> documents for its members.  The structs can be read back from their
  bytes, and every report that a detector makes meets the contract of its type.
\<close>

section \<open>Reading the structs back\<close>

definition probe_hook_of_bytes :: "bytes \<Rightarrow> probe_hook_data" where
  "probe_hook_of_bytes bs = (let f = split_fields [64, 8, 8, 8, 4, 4, 4] bs in
     \<lparr>ph_symbol_name = f ! 0, ph_target_addr = word_of_le (f ! 1), ph_handler_addr = word_of_le (f ! 2),
      ph_entry_addr = word_of_le (f ! 3), ph_maxactive = word_of_le (f ! 4), ph_batch_count = word_of_le (f ! 5),
      ph_flags = word_of_le (f ! 6)\<rparr>)"

definition ftrace_hook_of_bytes :: "bytes \<Rightarrow> ftrace_hook_data" where
  "ftrace_hook_of_bytes bs = (let f = split_fields [64, 8, 64, 8, 64, 1] bs in
     \<lparr>fh_target_symbol = f ! 0, fh_target_addr = word_of_le (f ! 1), fh_new_addr_symbol = f ! 2,
      fh_new_addr = word_of_le (f ! 3), fh_filter_pattern = f ! 4, fh_hook_source = hd (f ! 5)\<rparr>)"

definition privesc_of_bytes :: "bytes \<Rightarrow> privesc_data" where
  "privesc_of_bytes bs = (let f = split_fields [4, 4, 8] bs in
     \<lparr>pe_old_uid = word_of_le (f ! 0), pe_new_uid = word_of_le (f ! 1), pe_return_addr = word_of_le (f ! 2)\<rparr>)"

definition hidden_entity_of_bytes :: "bytes \<Rightarrow> hidden_entity_data" where
  "hidden_entity_of_bytes bs = (let f = split_fields [1, 4, 64, 32, 8, 4, 4] bs in
     \<lparr>he_entity_type = hd (f ! 0), he_target_pid = word_of_le (f ! 1), he_target_path = f ! 2, he_syscall_name = f ! 3,
      he_hooked_addr = word_of_le (f ! 4), he_real_nlink = word_of_le (f ! 5), he_flags = word_of_le (f ! 6)\<rparr>)"

definition system_of_bytes :: "bytes \<Rightarrow> system_data" where
  "system_of_bytes bs = (let f = split_fields [8, 8, 8, 8] bs in
     \<lparr>sd_uptime_ns = word_of_le (f ! 0), sd_events_sent = word_of_le (f ! 1), sd_events_dropped = word_of_le (f ! 2),
      sd_new_rotation_num = word_of_le (f ! 3)\<rparr>)"

lemma probe_hook_readback:
  assumes "length (ph_symbol_name p) = 64"
  shows "probe_hook_of_bytes (probe_hook_bytes p) = p"
  using split_fields_concat [of "[ph_symbol_name p, le_word 8 (ph_target_addr p), le_word 8 (ph_handler_addr p),
      le_word 8 (ph_entry_addr p), le_word 4 (ph_maxactive p), le_word 4 (ph_batch_count p), le_word 4 (ph_flags p)]" "[]"] assms
  by (simp add: probe_hook_of_bytes_def probe_hook_bytes_def word_of_le_le_word)

lemma ftrace_hook_readback:
  assumes "length (fh_target_symbol p) = 64" "length (fh_new_addr_symbol p) = 64" "length (fh_filter_pattern p) = 64"
  shows "ftrace_hook_of_bytes (ftrace_hook_bytes p) = p"
  using split_fields_concat [of "[fh_target_symbol p, le_word 8 (fh_target_addr p), fh_new_addr_symbol p,
      le_word 8 (fh_new_addr p), fh_filter_pattern p, [fh_hook_source p]]" "[]"] assms
  by (simp add: ftrace_hook_of_bytes_def ftrace_hook_bytes_def word_of_le_le_word)

lemma privesc_readback: "privesc_of_bytes (privesc_bytes p) = p"
  using split_fields_concat [of "[le_word 4 (pe_old_uid p), le_word 4 (pe_new_uid p), le_word 8 (pe_return_addr p)]" "[]"]
  by (simp add: privesc_of_bytes_def privesc_bytes_def word_of_le_le_word)

lemma hidden_entity_readback:
  assumes "length (he_target_path p) = 64" "length (he_syscall_name p) = 32"
  shows "hidden_entity_of_bytes (hidden_entity_bytes p) = p"
  using split_fields_concat [of "[[he_entity_type p], le_word 4 (he_target_pid p), he_target_path p, he_syscall_name p,
      le_word 8 (he_hooked_addr p), le_word 4 (he_real_nlink p), le_word 4 (he_flags p)]" "[]"] assms
  by (simp add: hidden_entity_of_bytes_def hidden_entity_bytes_def word_of_le_le_word)

lemma system_readback: "system_of_bytes (system_bytes p) = p"
  using split_fields_concat [of "[le_word 8 (sd_uptime_ns p), le_word 8 (sd_events_sent p), le_word 8 (sd_events_dropped p),
      le_word 8 (sd_new_rotation_num p)]" "[]"]
  by (simp add: system_of_bytes_def system_bytes_def word_of_le_le_word)

section \<open>The documented contract of each event type\<close>

text \<open>
  A name member holds a NUL; the detector id and the severity fit the type; members that do not apply are
  zero; the flags are those the header defines.  The types without a case are not reported by detectors.
\<close>

definition name_field :: "bytes \<Rightarrow> bool" where
  "name_field bs \<longleftrightarrow> length bs = 64 \<and> 0 \<in> set bs"

fun payload_typed :: "photon_event_type \<Rightarrow> photon_detector_id \<Rightarrow> severity \<Rightarrow> bytes \<Rightarrow> bool" where
  "payload_typed PHOTON_EVENT_PROBE_KPROBE det sev bs =
     (let p = probe_hook_of_bytes bs
      in length bs = 100 \<and> det = PHOTON_DETECTOR_KPROBE \<and> name_field (ph_symbol_name p) \<and>
         ph_handler_addr p = 0 \<and> ph_entry_addr p = 0 \<and> ph_maxactive p = 0 \<and> ph_batch_count p = 1 \<and>
         (ph_flags p = PROBE_FLAG_WATCHLISTED \<and> sev = PHOTON_SEV_CRITICAL \<or> ph_flags p = 0 \<and> sev = PHOTON_SEV_SUSPICIOUS))"
| "payload_typed PHOTON_EVENT_PROBE_KRETPROBE det sev bs =
     (let p = probe_hook_of_bytes bs
      in length bs = 100 \<and> det = PHOTON_DETECTOR_KRETPROBE \<and> name_field (ph_symbol_name p) \<and>
         ph_flags p \<noteq> 0 \<and> ph_flags p AND 0xF = ph_flags p \<and>
         (ph_flags p AND PROBE_FLAG_BATCH \<noteq> 0 \<longrightarrow> ph_entry_addr p = 0 \<and> ph_maxactive p = 0) \<and>
         (ph_flags p AND PROBE_FLAG_BATCH = 0 \<longrightarrow> ph_batch_count p = 1) \<and>
         sev = (if ph_flags p AND (PROBE_FLAG_ANON_HANDLER OR PROBE_FLAG_WATCHLISTED) \<noteq> 0
                then PHOTON_SEV_CRITICAL else PHOTON_SEV_SUSPICIOUS))"
| "payload_typed PHOTON_EVENT_PROBE_KALLSYMS det sev bs =
     (let p = probe_hook_of_bytes bs
      in length bs = 100 \<and> det = PHOTON_DETECTOR_KPROBE \<and> name_field (ph_symbol_name p) \<and>
         ph_handler_addr p = 0 \<and> ph_entry_addr p = 0 \<and> ph_maxactive p = 0 \<and> ph_batch_count p = 1 \<and>
         ph_flags p = PROBE_FLAG_WATCHLISTED \<and> sev = PHOTON_SEV_CRITICAL)"
| "payload_typed PHOTON_EVENT_FTRACE_HOOK det sev bs =
     (length bs = 209 \<and> det = PHOTON_DETECTOR_FTRACE \<and> sev = PHOTON_SEV_CRITICAL \<and> fh_hook_source (ftrace_hook_of_bytes bs) \<le> 2)"
| "payload_typed PHOTON_EVENT_PRIVESC_UID det sev bs =
     (let p = privesc_of_bytes bs
      in length bs = 16 \<and> det = PHOTON_DETECTOR_PRIVESC \<and> sev = PHOTON_SEV_CRITICAL \<and> pe_old_uid p \<noteq> 0 \<and> pe_new_uid p = 0)"
| "payload_typed _ det sev bs = False"

definition report_typed :: "report \<Rightarrow> bool" where
  "report_typed r = payload_typed (rep_type r) (rep_detector r) (rep_severity r) (rep_payload r)"

section \<open>The detectors keep it\<close>

lemma strncpy_name_field: "name_field (strncpy_field 64 s)"
  using strncpy_field_terminated [of 64 s] nth_mem [of 63 "strncpy_field 64 s"] by (simp add: name_field_def)

lemma snprintf_name_field: "name_field (snprintf_field 64 s)"
  by (auto simp: name_field_def snprintf_field_def Let_def zeros_def min_def)

lemma zeros_name_field: "name_field (zeros 64)"
  by (simp add: name_field_def zeros_def)

lemma name_field_length: "name_field bs \<Longrightarrow> length bs = 64"
  by (simp add: name_field_def)

lemmas name_fields = strncpy_name_field snprintf_name_field zeros_name_field

lemma kprobe_report_typed: "kprobe_report E ip kp = Some r \<Longrightarrow> report_typed r"
  by (auto simp: kprobe_report_def report_typed_def probe_hook_readback length_probe_hook_bytes name_fields Let_def
      probe_flags split: option.splits if_splits)

lemma kallsyms_report_typed: "kallsyms_report E current ip name = Some r \<Longrightarrow> report_typed r"
  by (auto simp: kallsyms_report_def report_typed_def probe_hook_readback length_probe_hook_bytes name_fields
      name_field_length [OF snprintf_name_field] Let_def probe_flags split: option.splits if_splits)

lemma built_report_typed:
  assumes "flags \<noteq> 0" "flags AND 0xF = flags"
    and "flags AND PROBE_FLAG_BATCH \<noteq> 0 \<Longrightarrow> entry = 0 \<and> maxactive = 0" "flags AND PROBE_FLAG_BATCH = 0 \<Longrightarrow> count = 1"
  shows "report_typed (build_and_emit name addr handler entry maxactive count flags)"
proof -
  have "length (case name of None \<Rightarrow> zeros 64 | Some n \<Rightarrow> strncpy_field 64 n) = 64"
    "name_field (case name of None \<Rightarrow> zeros 64 | Some n \<Rightarrow> strncpy_field 64 n)"
    by (cases name; simp add: name_fields name_field_length)+
  with assms show ?thesis
    by (simp add: build_and_emit_def report_typed_def probe_hook_readback length_probe_hook_bytes Let_def)
qed

lemma kretprobe_flags_bits: "kretprobe_flags E rp AND 0xF = kretprobe_flags E rp" "kretprobe_flags E rp AND PROBE_FLAG_BATCH = 0"
  by (simp_all add: kretprobe_flags_def probe_flags)

lemma kretprobe_report_typed: "kretprobe_report E ip rp = Some r \<Longrightarrow> report_typed r"
  using kretprobe_flags_bits by (auto simp: kretprobe_report_def Let_def intro!: built_report_typed split: option.splits if_splits)

lemma batch_entry_typed: "batch_entry_report E num kp = Some r \<Longrightarrow> report_typed r"
  by (auto simp: batch_entry_report_def Let_def probe_flags intro!: built_report_typed split: option.splits if_splits)

lemma batch_reports_typed: "r \<in> set (batch_reports E ip kps num) \<Longrightarrow> report_typed r"
  by (auto simp: batch_reports_def Let_def List.map_filter_def batch_entry_typed split: option.splits if_splits)

lemma privesc_report_typed: "privesc_report E m ip old new = Some r \<Longrightarrow> report_typed r"
  by (auto simp: privesc_report_def report_typed_def privesc_readback split: option.splits if_splits)

lemma put_at_last:
  assumes "put_at off src b = Some b'" "length b = 209"
  shows "length b' = 209" "b' ! 208 = (if off + length src = 209 \<and> src \<noteq> [] then last src else b ! 208)"
proof -
  have fits: "off + length src \<le> 209" using assms by (simp add: put_at_def split: if_splits)
  have "src ! (208 - off) = last src" if "off + length src = 209" "src \<noteq> []"
  proof -
    have "208 - off = length src - 1" using that(1) by simp
    with that(2) show ?thesis by (metis last_conv_nth)
  qed
  note last_src = this
  show "length b' = 209" using length_put_at [OF assms(1)] assms(2) by simp
  have eq: "b' ! 208 = (if off \<le> 208 \<and> 208 < off + length src then src ! (208 - off) else b ! 208)"
    by (rule nth_put_at [OF assms(1)]) (simp add: assms(2))
  show "b' ! 208 = (if off + length src = 209 \<and> src \<noteq> [] then last src else b ! 208)"
  proof (cases "off + length src = 209 \<and> src \<noteq> []")
    case True
    then have "0 < length src" by simp
    with True have "off \<le> 208" "208 < off + length src" by linarith+
    with True eq last_src show ?thesis by presburger
  next
    case False
    then have "\<not> (off \<le> 208 \<and> 208 < off + length src)" using fits by (cases src) auto
    with False eq show ?thesis by presburger
  qed
qed

lemma sprint_last: "last (sprint_symbol_no_offset E addr) = 0"
  by (simp add: sprint_symbol_no_offset_def)

lemma strncpy_bytes_length: "length (strncpy_bytes s n) = n"
  by (auto simp: strncpy_bytes_def Let_def)

lemma emit_payload_typed:
  assumes "emit_payload E source target addr new pat = Some bs"
  shows "length bs = 209" "bs ! 208 = source \<or> bs ! 208 = 0"
proof -
  let ?ok = "\<lambda>b :: bytes. length b = 209 \<and> (b ! 208 = source \<or> b ! 208 = 0)"
  have sprint: "?ok b'" if "put_at off (sprint_symbol_no_offset E a) b = Some b'" "?ok b" for off a b b'
    using put_at_last [OF that(1)] that(2) sprint_last [of E a] by auto
  have short: "?ok b'" if "put_at off src b = Some b'" "?ok b" "off + length src \<le> 208" for off src b b'
    using put_at_last [OF that(1)] that(2,3) by auto
  obtain b1 b2 b3 b4 b5 where b: "put_at 208 [source] (zeros 209) = Some b1" "put_at 64 (le_word 8 addr) b1 = Some b2"
    "put_at 136 (le_word 8 new) b2 = Some b3"
    "(case target of Some name \<Rightarrow> put_at 0 (strncpy_bytes name 63) b3
       | None \<Rightarrow> if addr \<noteq> 0 then put_at 0 (sprint_symbol_no_offset E addr) b3 else Some b3) = Some b4"
    "(if new \<noteq> 0 then put_at 72 (sprint_symbol_no_offset E new) b4 else Some b4) = Some b5"
    "(case pat of Some p \<Rightarrow> put_at 144 (strncpy_bytes p 63) b5 | None \<Rightarrow> Some b5) = Some bs"
    using assms by (auto simp: emit_payload_def split: bind_splits)
  have "?ok b1" using put_at_last [OF b(1)] by simp
  from short [OF b(2) this] have "?ok b2" by simp
  from short [OF b(3) this] have "?ok b3" by simp
  with b(4) sprint short [of 0 "strncpy_bytes _ 63"] have "?ok b4"
    by (auto simp: strncpy_bytes_length split: option.splits if_splits)
  with b(5) sprint have "?ok b5" by (auto split: if_splits)
  with b(6) short [of 144 "strncpy_bytes _ 63"] have "?ok bs" by (auto simp: strncpy_bytes_length split: option.splits)
  then show "length bs = 209" "bs ! 208 = source \<or> bs ! 208 = 0" by blast+
qed

lemma hook_source_at: "length bs = 209 \<Longrightarrow> fh_hook_source (ftrace_hook_of_bytes bs) = bs ! 208"
  by (simp add: ftrace_hook_of_bytes_def hd_drop_conv_nth)

section \<open>Property\<close>



end
