(* ===== verification/Spec2Isabelle.thy ===== *)
theory Spec2Isabelle
  imports Main_Module End_To_End Concurrent_Logging Arch_Registers Agent_Main Payload_Types
begin

text \<open>
  Photon Ring: the Linux kernel module of \<open>src/lksm/kernel_module\<close>, its user-space agent, and the part of
  the collection server \<open>src/lksm/python_tools/server.py\<close> that both depend on.

  The program.  Detectors hook kernel functions with ftrace and kprobes.  A suspicious call becomes a
  \<open>struct photon_event\<close>, which the event manager numbers, puts through a per-CPU buffer and hands to
  the character device channel; that encrypts it with the session key of the crypto layer and queues the
  frame in a ring of 255 frames.  The agent obtains the master key from the server over TLS, installs it
  with the \<open>SET_KEY\<close> ioctl, and then relays frames from \<open>/dev/photon_ring\<close> to the server, which derives
  the same session keys, decrypts the frames and indexes the events.

  Theories and sources.
  \<^item> \<open>Photon_Prelude\<close>: machine integers, error codes, C strings, little-endian encoding, decimals.
  \<^item> \<open>Bounded_Ring\<close>: a locale for bounded FIFO buffers and the circular-buffer lemmas.  It is interpreted for
    the frame ring (in \<open>Cdev_Ring\<close>) and the event buffers (in \<open>Event_Manager\<close>).
  \<^item> \<open>Event_Layout\<close>: \<open>include/event_manager.h\<close>, \<open>include/cdev_ch.h\<close>: packed structs as records with their bytes.
  \<^item> \<open>Kernel_Env\<close>: the kernel services the core calls, as a record parameter \<open>K\<close>, and the named hypotheses.
  \<^item> \<open>Hkdf\<close>, \<open>Crypto_Layer\<close>, \<open>Key_Rotation\<close>: \<open>comms/crypto.c\<close>.  Static variables are the record
    \<open>crypto_state\<close>; a lock that is taken twice gives \<open>None\<close>, the call does not return.
  \<^item> \<open>Cdev_Ring\<close>, \<open>Cdev_Channel\<close>, \<open>Cdev_Fops\<close>: \<open>comms/cdev_ch.c\<close>: frame ring and producer, device registration,
    file operations, and the running module as the step relation \<open>module_step\<close>.  Static variables extend
    \<open>crypto_state\<close> to \<open>cdev_state\<close>.
  \<^item> \<open>Event_Manager\<close>: \<open>comms/event_manager.c\<close>; its variables extend \<open>cdev_state\<close> to \<open>em_state\<close>.
  \<^item> \<open>Concurrent_Logging\<close>: \<open>photon_log_event\<close> of the same file, called by many threads: a thread is a position \<open>pc\<close> in the
    code, and \<open>concurrent_step\<close> lets any thread go on from one lock release, atomic increment or send to the next.
  \<^item> \<open>Trace_Kernel\<close>: ftrace and kprobe services as the record parameter \<open>E\<close>; the detectors' variables and the set
    of live hooks as \<open>tstate\<close>; the locale \<open>detector\<close>, which says what \<open>init\<close> and \<open>exit\<close> of a detector promise,
    and is interpreted on every detector.
  \<^item> \<open>Watchlists\<close>: \<open>include/watchlists.h\<close>.
  \<^item> \<open>Probe_Detectors\<close>: \<open>modules/kprobe_detector.c\<close>, \<open>kretprobe_detector.c\<close>, \<open>kallsyms_detector.c\<close>.
  \<^item> \<open>Privesc_Detector\<close>: \<open>modules/become_root_detector.c\<close>.
  \<^item> \<open>Filter_Detectors\<close>: \<open>modules/ftrace_direct_detector.c\<close>, \<open>bpf_hook_detector.c\<close>, \<open>tcp_hiding_detector.c\<close>,
    \<open>icmp_hook_detector.c\<close>.
  \<^item> \<open>Payload_Types\<close>: readers for the payload structs and the contract of \<open>event_manager.h\<close> for each event type, which
    every report of the detectors above meets.
  \<^item> \<open>Syscall_Detectors\<close>: \<open>modules/trace_pid_detector.c\<close>, \<open>hiding_chdir_detector.c\<close>, \<open>hiding_readlink_detector.c\<close>,
    \<open>hooks_write_detector.c\<close>, \<open>clear_taint_dmesg_detector.c\<close>, \<open>lkrg_bypass_detector.c\<close>, \<open>hook_file_access.c\<close>.
  \<^item> \<open>Taint_Detector\<close>: \<open>modules/reset_tainted_detector.c\<close>.  \<open>Audit_Detector\<close>: \<open>modules/hooking_audit_detector.c\<close>.
  \<^item> \<open>Hiding_Detectors\<close>: \<open>modules/hiding_stat.c\<close>, \<open>hiding_directory.c\<close>.
  \<^item> \<open>Arch_Registers\<close>: \<open>include/photon_ring_arch.h\<close> and the shims of \<open>hook_file_access.c\<close>: arguments out of the saved
    registers of x86\_64 and ARM64, and the handlers \<open>..._entry\<close> of the system call detectors from the registers on.
  \<^item> \<open>Main_Module\<close>: \<open>main.c\<close>: the table of detectors, \<open>photon_ring_init\<close>, \<open>photon_ring_exit\<close>, and the locale
    \<open>registry\<close> for a table of detectors, interpreted on the module's table.
  \<^item> \<open>Agent\<close>, \<open>Agent_Main\<close>: \<open>photon_agent.c\<close>: key exchange and relay; command line, connection and reconnect loop, with a
    ledger of what is allocated.  \<open>Server\<close>: \<open>server.py\<close>.
  \<^item> \<open>End_To_End\<close>: the statements that span module, agent and server.

  A handler is modelled with everything it decides: guards, severity, payload and the call of
  \<open>photon_log_event\<close>.  A detector that only writes a line to the kernel log returns what it reports as a value.
  Pointers are arguments of the handlers; where they come from is in \<open>Arch_Registers\<close>.  User memory is an argument.

  What the lemmas show.
  \<^item> Data: struct sizes, encoding and decoding, HKDF against RFC 5869, AES-GCM framing.
  \<^item> Core: every operation keeps the invariant \<open>em_inv\<close>; logging with its buffers refines numbering, counting
    and sending the event once; the ring is a bounded FIFO that drops the newest frame when full.
  \<^item> Concurrent logging: in every interleaving no event is lost from the accounts, duplicated or stranded in a
    buffer, sequence numbers are unique, and every call can return; one thread alone does what the sequential model does.
  \<^item> The running module: reachable states of \<open>module_step\<close> satisfy \<open>module_inv\<close>, the master key is
    set once, and every queued frame is genuine.
  \<^item> Life cycle: \<open>init\<close> of the core, of each detector and of the module is all or nothing, \<open>exit\<close> removes all, with
    the exceptions stated by the properties on removal by count.
  \<^item> Detection: when each detector reports what, on every branch.
  \<^item> The agent: in any number of sessions, whatever fails, resources are freed exactly once, the module stays in a
    good state, and a failing connection loses at most one frame.
  \<^item> End to end: the key of the server becomes the key of the module; every relayed frame is decrypted
    to the event that was sealed in it, and then rejected because of its size.

  Bounds and termination.  \<open>hkdf_expand\<close> is proved up to its limit of 255 blocks.  The flush loop of the event
  manager takes one event out of a buffer in each round, so its measure is the number of pending events.
  \<open>read\<close> without a frame, and a lock that is already held, are \<open>None\<close>; that the operations return
  otherwise is part of the properties about them.  The relay loop runs once per entry of the list of
  signals it is given, the number of rounds until the agent is stopped.  The server's receive loop is given
  a finite stream; each round consumes at least four bytes.

  Not modelled.
  \<^item> Concurrency inside an operation other than logging: each such call is one step.  In \<open>Concurrent_Logging\<close> a critical
    section and the sending of one event are one step each; weak memory is not considered.
  \<^item> \<open>modules/taskstats_hook_detector.c\<close> is a second copy of the audit detector under the same function names;
    the functions the table names for it are defined nowhere, so that entry is a parameter of \<open>Main_Module\<close>.
  \<^item> The 32-bit variants of the register macros; the branch of \<open>photon_ring_arch.h\<close> that is commented out.
  \<^item> The payload structs that \<open>tcp_hiding_detector.c\<close> and \<open>hiding_stat.c\<close> use are not defined in the sources.
  \<^item> Text of log messages; Elasticsearch and threads of the server.
\<close>

end
